(* ===== verification/Prelude.thy ===== *)
theory Prelude
  imports Main "HOL-Library.Word" "HOL-Library.List_Lexorder" "HOL-Library.Char_ord"
begin

unbundle bit_operations_syntax

text \<open>
  What every component of the development shares: the byte and integer types of
  the Go source, its error values, the parts of the Go standard library the
  database calls (\<^verbatim>\<open>encoding/binary\<close>, \<^verbatim>\<open>hash/crc32\<close>, the conversions between
  \<^verbatim>\<open>int64\<close> and \<^verbatim>\<open>uint64\<close>) and the generic lemmas on lists and words that carry the
  component proofs.
\<close>

section \<open>Types\<close>

type_synonym byte = "8 word"
type_synonym bytes = "byte list"

text \<open>
  Errors. The sentinel errors of the source are constructors of their own. An error
  made by \<^verbatim>\<open>serr.New\<close> is \<open>ErrNew\<close> with its message; an error that
  comes from the operating system, the codec or the cipher is \<open>ErrExt\<close> with a
  number that tells such errors apart. \<^verbatim>\<open>serr.Wrap\<close> only adds context strings and is
  transparent to \<^verbatim>\<open>errors.Is\<close>: an error value here is the cause that \<^verbatim>\<open>errors.Is\<close>
  finds, so wrapping is the identity.
\<close>

datatype goerr =
    ErrClosed | ErrCorrupt | ErrNewerFormat
  | ErrKeyRequired | ErrWrongKey | ErrNotEncrypted | ErrCipherMismatch
  | ErrTxClosed | ErrTxNotWritable | ErrSavepointInvalid | ErrEpochChanged
  | ErrNew string
  | ErrExt nat

text \<open>A Go function with result type \<^verbatim>\<open>(T, error)\<close>.\<close>

type_synonym 'a result = "goerr + 'a"

text \<open>
  The environment decides which I/O calls fail: a call site is named by the string
  the source gives it (the \<^verbatim>\<open>op\<close> context of its error); \<open>None\<close> means the call
  succeeds, \<open>Some (e, n)\<close> that it fails with \<open>e\<close>, a write after \<open>n\<close> bytes.
\<close>

type_synonym io_env = "string \<Rightarrow> (goerr \<times> nat) option"

abbreviation io_ok :: io_env where
  "io_ok \<equiv> \<lambda>_. None"

section \<open>Collections of rewrite rules\<close>

named_theorems frame_simps \<open>lengths and shapes of framed bytes\<close>
named_theorems tree_laws \<open>laws of the ordered collections\<close>

section \<open>Integers\<close>

text \<open>
  \<^verbatim>\<open>int64\<close> values are kept as \<open>int\<close>s in the signed 64-bit range; conversions
  go through the 64-bit word and wrap as Go's conversions do.
\<close>

definition int64_range :: "int \<Rightarrow> bool" where
  "int64_range i \<longleftrightarrow> - (2 ^ 63) \<le> i \<and> i < 2 ^ 63"

definition uint64_of_int64 :: "int \<Rightarrow> 64 word" where
  "uint64_of_int64 i = word_of_int i"

definition int64_of_uint64 :: "64 word \<Rightarrow> int" where
  "int64_of_uint64 w = sint w"

text \<open>The value an \<^verbatim>\<open>int64\<close> computation with exact result \<open>i\<close> leaves.\<close>

definition int64_wrap :: "int \<Rightarrow> int" where
  "int64_wrap i = int64_of_uint64 (uint64_of_int64 i)"

lemma int64_wrap_take: "int64_wrap i = signed_take_bit 63 i"
  by (simp add: int64_wrap_def int64_of_uint64_def uint64_of_int64_def sint_sbintrunc')

lemma int64_wrap_id [simp]: "int64_range i \<Longrightarrow> int64_wrap i = i"
  by (simp add: int64_wrap_take int64_range_def signed_take_bit_int_eq_self)

lemma int64_of_uint64_of_int64 [simp]:
  "int64_range i \<Longrightarrow> int64_of_uint64 (uint64_of_int64 i) = i"
  by (metis int64_wrap_def int64_wrap_id)

lemma int64_range_of_uint64 [simp]: "int64_range (int64_of_uint64 w)"
  using sint_range_size [of w]
  by (simp add: int64_range_def int64_of_uint64_def word_size)

lemma uint64_of_int64_of_uint64 [simp]: "uint64_of_int64 (int64_of_uint64 w) = w"
  by (simp add: uint64_of_int64_def int64_of_uint64_def)

lemma int64_range_wrap [simp]: "int64_range (int64_wrap i)"
  by (simp add: int64_wrap_def)

section \<open>Little-endian encoding (encoding/binary)\<close>

definition putUint32 :: "32 word \<Rightarrow> bytes" where
  "putUint32 v = [ucast v, ucast (drop_bit 8 v), ucast (drop_bit 16 v), ucast (drop_bit 24 v)]"

definition putUint64 :: "64 word \<Rightarrow> bytes" where
  "putUint64 v =
     [ucast v, ucast (drop_bit 8 v), ucast (drop_bit 16 v), ucast (drop_bit 24 v),
      ucast (drop_bit 32 v), ucast (drop_bit 40 v), ucast (drop_bit 48 v), ucast (drop_bit 56 v)]"

text \<open>
  The readers take the first four (eight) bytes of a slice; every caller in the source
  has checked or allocated at least that many.
\<close>

fun getUint32 :: "bytes \<Rightarrow> 32 word" where
  "getUint32 (b0 # b1 # b2 # b3 # _) =
     ucast b0 OR push_bit 8 (ucast b1) OR push_bit 16 (ucast b2) OR push_bit 24 (ucast b3)"
| "getUint32 _ = 0"

fun getUint64 :: "bytes \<Rightarrow> 64 word" where
  "getUint64 (b0 # b1 # b2 # b3 # b4 # b5 # b6 # b7 # _) =
     ucast b0 OR push_bit 8 (ucast b1) OR push_bit 16 (ucast b2) OR push_bit 24 (ucast b3)
     OR push_bit 32 (ucast b4) OR push_bit 40 (ucast b5) OR push_bit 48 (ucast b6)
     OR push_bit 56 (ucast b7)"
| "getUint64 _ = 0"

lemma length_putUint32 [simp, frame_simps]: "length (putUint32 v) = 4"
  by (simp add: putUint32_def)

lemma length_putUint64 [simp, frame_simps]: "length (putUint64 v) = 8"
  by (simp add: putUint64_def)

lemma getUint32_put [simp]: "getUint32 (putUint32 v @ r) = v"
proof (rule bit_word_eqI)
  fix n assume "n < LENGTH(32)"
  then have "n < 8 \<or> 8 \<le> n \<and> n < 16 \<or> 16 \<le> n \<and> n < 24 \<or> 24 \<le> n \<and> n < 32" by auto
  then show "bit (getUint32 (putUint32 v @ r)) n = bit v n"
    by (elim disjE conjE) (auto simp: putUint32_def bit_simps less_diff_conv2)
qed

lemma getUint32_put' [simp]: "getUint32 (putUint32 v) = v"
  using getUint32_put [of v "[]"] by simp

lemma getUint64_put [simp]: "getUint64 (putUint64 v @ r) = v"
proof (rule bit_word_eqI)
  fix n assume "n < LENGTH(64)"
  then have "n < 8 \<or> 8 \<le> n \<and> n < 16 \<or> 16 \<le> n \<and> n < 24 \<or> 24 \<le> n \<and> n < 32 \<or>
     32 \<le> n \<and> n < 40 \<or> 40 \<le> n \<and> n < 48 \<or> 48 \<le> n \<and> n < 56 \<or> 56 \<le> n \<and> n < 64" by auto
  then show "bit (getUint64 (putUint64 v @ r)) n = bit v n"
    by (elim disjE conjE) (auto simp: putUint64_def bit_simps less_diff_conv2)
qed

lemma getUint64_put' [simp]: "getUint64 (putUint64 v) = v"
  using getUint64_put [of v "[]"] by simp

lemma list_of_4: "length xs = 4 \<Longrightarrow> \<exists>a b c d. xs = [a, b, c, d]"
  by (auto simp: length_Suc_conv numeral_eq_Suc)

lemma list_of_8: "length xs = 8 \<Longrightarrow> \<exists>a b c d e f g h. xs = [a, b, c, d, e, f, g, h]"
  by (auto simp: length_Suc_conv numeral_eq_Suc)

lemma putUint32_get: "length bs = 4 \<Longrightarrow> putUint32 (getUint32 bs) = bs"
  by (auto dest!: list_of_4 simp: putUint32_def intro!: bit_word_eqI)
    (auto simp: bit_simps dest: bit_imp_le_length)

lemma putUint64_get: "length bs = 8 \<Longrightarrow> putUint64 (getUint64 bs) = bs"
  by (auto dest!: list_of_8 simp: putUint64_def intro!: bit_word_eqI)
    (auto simp: bit_simps dest: bit_imp_le_length)

section \<open>CRC-32 (hash/crc32, IEEE polynomial)\<close>

definition crc_shift :: "32 word \<Rightarrow> 32 word" where
  "crc_shift c = (if c AND 1 = 1 then drop_bit 1 c XOR 0xEDB88320 else drop_bit 1 c)"

definition crc_byte :: "32 word \<Rightarrow> byte \<Rightarrow> 32 word" where
  "crc_byte c b =
     crc_shift (crc_shift (crc_shift (crc_shift
       (crc_shift (crc_shift (crc_shift (crc_shift (c XOR ucast b))))))))"

text \<open>\<^verbatim>\<open>crc32.Update\<close>, which a digest's \<^verbatim>\<open>Write\<close> applies to its running sum.\<close>

definition crc_write :: "32 word \<Rightarrow> bytes \<Rightarrow> 32 word" where
  "crc_write c p = NOT (foldl crc_byte (NOT c) p)"

definition checksumIEEE :: "bytes \<Rightarrow> 32 word" where
  "checksumIEEE p = crc_write 0 p"

lemma crc_write_append [simp]: "crc_write (crc_write c p) q = crc_write c (p @ q)"
  by (simp add: crc_write_def)

lemma crc_write_checksum: "crc_write (crc_write 0 p) q = checksumIEEE (p @ q)"
  by (simp add: checksumIEEE_def)

text \<open>The check value every CRC-32 specification lists.\<close>

lemma checksumIEEE_check: "checksumIEEE [49, 50, 51, 52, 53, 54, 55, 56, 57] = 0xCBF43926"
  by (simp add: checksumIEEE_def crc_write_def crc_byte_def crc_shift_def)

section \<open>Lists\<close>

lemma take_drop_split: "n + m \<le> length xs \<Longrightarrow> xs = take n xs @ take m (drop n xs) @ drop (n + m) xs"
  by (metis append_take_drop_id drop_drop add.commute)

lemma take_less_append: "n < length xs \<Longrightarrow> take n (xs @ ys) = take n xs"
  by simp

lemma map_of_sorted_fst:
  "sorted_wrt (<) (map fst xs) \<Longrightarrow> map_of xs k = Some v \<longleftrightarrow> (k, v) \<in> set (xs :: ('a::linorder \<times> 'b) list)"
  by (rule map_of_eq_Some_iff) (simp add: strict_sorted_iff)

lemma strict_sorted_map_of_unique:
  fixes xs ys :: "('a::linorder \<times> 'b) list"
  assumes "sorted_wrt (<) (map fst xs)" "sorted_wrt (<) (map fst ys)" "map_of xs = map_of ys"
  shows "xs = ys"
proof (rule map_sorted_distinct_set_unique)
  show "set xs = set ys"
    using assms by (auto simp flip: map_of_sorted_fst)
  show "inj_on fst (set xs \<union> set ys)"
    using assms \<open>set xs = set ys\<close> by (simp add: strict_sorted_iff distinct_map)
qed (use assms in \<open>auto simp: strict_sorted_iff\<close>)

lemma map_of_sorted_eqI:
  fixes xs :: "('a::linorder \<times> 'b) list"
  assumes "sorted_wrt (<) (map fst xs)" "\<And>k v. (k, v) \<in> set xs \<longleftrightarrow> m k = Some v"
  shows "map_of xs = m"
proof
  fix k
  have "map_of xs k = Some v \<longleftrightarrow> m k = Some v" for v
    using map_of_sorted_fst [OF assms(1)] assms(2) by simp
  then show "map_of xs k = m k" by (metis not_None_eq)
qed

end
