(* ===== verification/Btype.thy ===== *)
theory Btype
  imports Prelude "HOL-Library.RBT"
begin

text \<open>
  The ordered collections of \<^verbatim>\<open>github.com/tidwall/btype\<close>, which is not part of the
  repository: \<^verbatim>\<open>btype.Map\<close> and \<^verbatim>\<open>btype.Table\<close> are parameters of the model, each a record of
  the operations the database calls. What the database relies on of them is the locale
  \<open>btype_map\<close> (an ordered map) and the locale \<open>btype_table\<close> (a set ordered by the comparator
  the table was created with). A value of the tree type is a tree that the operations can
  build; the operations are persistent, which is what copy-on-write provides, so
  \<^verbatim>\<open>Release\<close>, pure reference counting, has no counterpart.

  The contracts can be met: red-black trees of the Isabelle library are an instance of the
  map, and lists with a comparator of the table.
\<close>

section \<open>Ordered maps\<close>

record ('k, 'v, 'm) map_ops =
  m_new :: 'm
  m_set :: "'m \<Rightarrow> 'k \<Rightarrow> 'v \<Rightarrow> 'm \<times> 'v option"
  m_delete :: "'m \<Rightarrow> 'k \<Rightarrow> 'm \<times> 'v option"
  m_get :: "'m \<Rightarrow> 'k \<Rightarrow> 'v option"
  m_contains :: "'m \<Rightarrow> 'k \<Rightarrow> bool"
  m_len :: "'m \<Rightarrow> nat"
  m_all :: "'m \<Rightarrow> ('k \<times> 'v) list"
  m_ascend :: "'m \<Rightarrow> 'k \<Rightarrow> ('k \<times> 'v) list"
  m_backward :: "'m \<Rightarrow> ('k \<times> 'v) list"
  m_descend :: "'m \<Rightarrow> 'k \<Rightarrow> ('k \<times> 'v) list"
  m_copy :: "'m \<Rightarrow> 'm"

locale btype_map =
  fixes M :: "('k::linorder, 'v, 'm) map_ops"
  assumes all_sorted: "sorted_wrt (<) (map fst (m_all M m))"
    and get_all: "m_get M m k = map_of (m_all M m) k"
    and new_all: "m_all M (m_new M) = []"
    and get_set: "m_get M (fst (m_set M m k v)) = (m_get M m)(k \<mapsto> v)"
    and set_prev: "snd (m_set M m k v) = m_get M m k"
    and get_delete: "m_get M (fst (m_delete M m k)) = (m_get M m)(k := None)"
    and delete_prev: "snd (m_delete M m k) = m_get M m k"
    and contains_get: "m_contains M m k \<longleftrightarrow> m_get M m k \<noteq> None"
    and len_all: "m_len M m = length (m_all M m)"
    and ascend_all: "m_ascend M m k = filter (\<lambda>p. k \<le> fst p) (m_all M m)"
    and backward_all: "m_backward M m = rev (m_all M m)"
    and descend_all: "m_descend M m k = rev (filter (\<lambda>p. fst p \<le> k) (m_all M m))"
    and copy_all: "m_all M (m_copy M m) = m_all M m"
begin

lemma get_new [simp, tree_laws]: "m_get M (m_new M) k = None"
  by (simp add: get_all new_all)

lemma get_copy [simp, tree_laws]: "m_get M (m_copy M m) = m_get M m"
  by (rule ext) (simp add: get_all copy_all)

lemma in_all: "(k, v) \<in> set (m_all M m) \<longleftrightarrow> m_get M m k = Some v"
  by (simp add: get_all map_of_sorted_fst [OF all_sorted])

lemma distinct_all: "distinct (map fst (m_all M m))"
  using all_sorted by (simp add: strict_sorted_iff)

lemma all_unique: "m_get M m = m_get M m' \<Longrightarrow> m_all M m = m_all M m'"
  by (rule strict_sorted_map_of_unique [OF all_sorted all_sorted]) (simp add: get_all fun_eq_iff)

lemma keys_all: "fst ` set (m_all M m) = dom (m_get M m)"
  by (simp add: fun_eq_iff [THEN iffD2, of "m_get M m" "map_of (m_all M m)"] get_all
      dom_map_of_conv_image_fst)

lemma len_dom: "m_len M m = card (dom (m_get M m))"
proof -
  have "card (set (map fst (m_all M m))) = length (map fst (m_all M m))"
    by (rule distinct_card [OF distinct_all])
  then show ?thesis by (simp add: len_all keys_all)
qed

lemma finite_dom [simp]: "finite (dom (m_get M m))"
  using keys_all [of m] by (metis List.finite_set finite_imageI)

lemma len_zero: "m_len M m = 0 \<longleftrightarrow> m_get M m = Map.empty"
  by (simp add: len_dom)

end

section \<open>Ordered tables\<close>

text \<open>\<open>t_order\<close> is the comparator a table was created with.\<close>

record ('a, 't) table_ops =
  t_new :: "('a \<Rightarrow> 'a \<Rightarrow> int) \<Rightarrow> 't"
  t_order :: "'t \<Rightarrow> 'a \<Rightarrow> 'a \<Rightarrow> int"
  t_set :: "'t \<Rightarrow> 'a \<Rightarrow> 't"
  t_delete :: "'t \<Rightarrow> 'a \<Rightarrow> 't"
  t_all :: "'t \<Rightarrow> 'a list"
  t_ascend :: "'t \<Rightarrow> 'a \<Rightarrow> 'a list"
  t_backward :: "'t \<Rightarrow> 'a list"
  t_descend :: "'t \<Rightarrow> 'a \<Rightarrow> 'a list"
  t_copy :: "'t \<Rightarrow> 't"

text \<open>What a comparator must be for a table to promise anything: a total preorder.\<close>

definition comparator :: "('a \<Rightarrow> 'a \<Rightarrow> int) \<Rightarrow> bool" where
  "comparator c \<longleftrightarrow> (\<forall>a. c a a = 0) \<and> (\<forall>a b. c a b < 0 \<longleftrightarrow> 0 < c b a) \<and>
     (\<forall>a b d. c a b \<le> 0 \<longrightarrow> c b d \<le> 0 \<longrightarrow> c a d \<le> 0)"

lemma sorted_wrt_distinct:
  "sorted_wrt R xs \<Longrightarrow> (\<And>x. \<not> R x x) \<Longrightarrow> distinct xs"
  by (induction xs) auto

lemma sorted_wrt_unique:
  assumes "sorted_wrt R xs" "sorted_wrt R ys" "set xs = set ys" "\<And>a b. R a b \<Longrightarrow> \<not> R b a"
  shows "xs = ys"
  using assms(1-3)
proof (induction xs arbitrary: ys)
  case Nil
  then show ?case by simp
next
  case (Cons x xs)
  then obtain y zs where ys: "ys = y # zs" by (cases ys) auto
  have xy: "x = y"
    using Cons.prems assms(4) unfolding ys by (metis insertE list.set(2) list.set_intros(1) sorted_wrt.simps(2))
  have "x \<notin> set xs" "y \<notin> set zs" using Cons.prems assms(4) unfolding ys by fastforce+
  with Cons.prems(3) have "set xs = set zs" unfolding ys xy by auto
  with Cons xy show ?case unfolding ys by simp
qed

lemma comparator_zero_sym: "comparator c \<Longrightarrow> c a b = 0 \<longleftrightarrow> c b a = 0"
  unfolding comparator_def by (metis less_linear not_less_iff_gr_or_eq)

lemma comparator_less_trans: "comparator c \<Longrightarrow> c a b < 0 \<Longrightarrow> c b d < 0 \<Longrightarrow> c a d < 0"
  unfolding comparator_def by (metis less_le_not_le linorder_le_less_linear order_less_imp_le)

lemma comparator_less_le_trans: "comparator c \<Longrightarrow> c a b < 0 \<Longrightarrow> c b d \<le> 0 \<Longrightarrow> c a d < 0"
  unfolding comparator_def by (metis less_le_not_le linorder_le_less_linear order_less_imp_le)

locale btype_table =
  fixes T :: "('a, 't) table_ops"
  assumes order_new: "t_order T (t_new T c) = c"
    and order_set: "t_order T (t_set T t x) = t_order T t"
    and order_delete: "t_order T (t_delete T t x) = t_order T t"
    and order_copy: "t_order T (t_copy T t) = t_order T t"
    and tall_new: "t_all T (t_new T c) = []"
    and tall_sorted: "comparator (t_order T t) \<Longrightarrow> sorted_wrt (\<lambda>a b. t_order T t a b < 0) (t_all T t)"
    and tall_set: "comparator (t_order T t) \<Longrightarrow>
      set (t_all T (t_set T t x)) = insert x {y \<in> set (t_all T t). t_order T t y x \<noteq> 0}"
    and tall_delete: "comparator (t_order T t) \<Longrightarrow>
      set (t_all T (t_delete T t x)) = {y \<in> set (t_all T t). t_order T t y x \<noteq> 0}"
    and tascend_all: "comparator (t_order T t) \<Longrightarrow>
      t_ascend T t x = filter (\<lambda>y. t_order T t x y \<le> 0) (t_all T t)"
    and tbackward_all: "t_backward T t = rev (t_all T t)"
    and tdescend_all: "comparator (t_order T t) \<Longrightarrow>
      t_descend T t x = rev (filter (\<lambda>y. t_order T t y x \<le> 0) (t_all T t))"
    and tcopy_all: "t_all T (t_copy T t) = t_all T t"
begin

lemma tall_distinct: "comparator (t_order T t) \<Longrightarrow> distinct (t_all T t)"
  by (rule sorted_wrt_distinct [OF tall_sorted]) (auto simp: comparator_def)

text \<open>Tables with the same comparator and the same elements iterate alike.\<close>

lemma tall_unique:
  assumes "comparator (t_order T t)" "t_order T t' = t_order T t" "set (t_all T t) = set (t_all T t')"
  shows "t_all T t = t_all T t'"
proof (rule sorted_wrt_unique)
  show "sorted_wrt (\<lambda>a b. t_order T t a b < 0) (t_all T t)" by (rule tall_sorted [OF assms(1)])
  show "sorted_wrt (\<lambda>a b. t_order T t a b < 0) (t_all T t')" using tall_sorted [of t'] assms(1,2) by simp
  show "\<And>a b. t_order T t a b < 0 \<Longrightarrow> \<not> t_order T t b a < 0"
    using assms(1) by (metis comparator_def less_asym)
qed (rule assms(3))

end

section \<open>The trees of a database\<close>

text \<open>
  The four instances a database state is made of: the data map, the deadline map, the
  deadline table and the index tables.
\<close>

record ('k, 'v, 'm, 'n, 'x, 'e, 'i, 'j) btype =
  dataOps :: "('k, 'v, 'm) map_ops"
  ttlOps :: "('k, int, 'n) map_ops"
  expOps :: "('x, 'e) table_ops"
  idxOps :: "('i, 'j) table_ops"

locale btype =
  fixes B :: "('k::linorder, 'v, 'm, 'n, 'x, 'e, 'i, 'j) btype"
  assumes data_map: "btype_map (dataOps B)"
    and ttl_map: "btype_map (ttlOps B)"
    and exp_table: "btype_table (expOps B)"
    and idx_table: "btype_table (idxOps B)"

sublocale btype \<subseteq> d: btype_map "dataOps B" by (rule data_map)
sublocale btype \<subseteq> n: btype_map "ttlOps B" by (rule ttl_map)
sublocale btype \<subseteq> x: btype_table "expOps B" by (rule exp_table)
sublocale btype \<subseteq> i: btype_table "idxOps B" by (rule idx_table)

section \<open>Instances\<close>

definition rbt_map_ops :: "('k::linorder, 'v, ('k, 'v) rbt) map_ops" where
  "rbt_map_ops =
     \<lparr>m_new = RBT.empty,
      m_set = (\<lambda>m k v. (RBT.insert k v m, RBT.lookup m k)),
      m_delete = (\<lambda>m k. (RBT.delete k m, RBT.lookup m k)),
      m_get = RBT.lookup,
      m_contains = (\<lambda>m k. RBT.lookup m k \<noteq> None),
      m_len = (\<lambda>m. length (RBT.entries m)),
      m_all = RBT.entries,
      m_ascend = (\<lambda>m k. filter (\<lambda>p. k \<le> fst p) (RBT.entries m)),
      m_backward = (\<lambda>m. rev (RBT.entries m)),
      m_descend = (\<lambda>m k. rev (filter (\<lambda>p. fst p \<le> k) (RBT.entries m))),
      m_copy = (\<lambda>m. m)\<rparr>"

lemma rbt_entries_empty [simp]: "RBT.entries RBT.empty = []"
  by (metis RBT.lookup_empty RBT.map_of_entries map_of_eq_empty_iff)

interpretation rbt_map: btype_map rbt_map_ops
  by unfold_locales
    (auto simp: rbt_map_ops_def strict_sorted_iff RBT.sorted_entries RBT.distinct_entries fun_eq_iff)

text \<open>A table as its comparator and a list; iteration orders the list by insertion.\<close>

fun ins_by :: "('a \<Rightarrow> 'a \<Rightarrow> int) \<Rightarrow> 'a \<Rightarrow> 'a list \<Rightarrow> 'a list" where
  "ins_by c x [] = [x]"
| "ins_by c x (y # ys) =
     (if c x y < 0 then x # y # ys else if c x y = 0 then x # ys else y # ins_by c x ys)"

definition sort_by :: "('a \<Rightarrow> 'a \<Rightarrow> int) \<times> 'a list \<Rightarrow> 'a list" where
  "sort_by t = foldr (ins_by (fst t)) (snd t) []"

definition list_table_ops :: "('a, ('a \<Rightarrow> 'a \<Rightarrow> int) \<times> 'a list) table_ops" where
  "list_table_ops =
     \<lparr>t_new = (\<lambda>c. (c, [])),
      t_order = fst,
      t_set = (\<lambda>t x. (fst t, x # filter (\<lambda>y. fst t y x \<noteq> 0) (sort_by t))),
      t_delete = (\<lambda>t x. (fst t, filter (\<lambda>y. fst t y x \<noteq> 0) (sort_by t))),
      t_all = sort_by,
      t_ascend = (\<lambda>t x. filter (\<lambda>y. fst t x y \<le> 0) (sort_by t)),
      t_backward = (\<lambda>t. rev (sort_by t)),
      t_descend = (\<lambda>t x. rev (filter (\<lambda>y. fst t y x \<le> 0) (sort_by t))),
      t_copy = (\<lambda>t. t)\<rparr>"

lemma set_ins_by_subset: "set (ins_by c x ys) \<subseteq> insert x (set ys)"
  by (induction ys) auto

lemma sorted_ins_by:
  assumes "comparator c"
  shows "sorted_wrt (\<lambda>a b. c a b < 0) ys \<Longrightarrow> sorted_wrt (\<lambda>a b. c a b < 0) (ins_by c x ys)"
proof (induction ys)
  case Nil
  then show ?case by simp
next
  case (Cons y ys)
  have "c x y < 0 \<Longrightarrow> c y z < 0 \<Longrightarrow> c x z < 0" for z
    using comparator_less_trans [OF assms] by blast
  moreover have "c x y = 0 \<Longrightarrow> c y z < 0 \<Longrightarrow> c x z < 0" for z
    using assms unfolding comparator_def by (metis less_le_not_le linorder_not_le order_refl)
  moreover have "\<not> c x y < 0 \<Longrightarrow> c x y \<noteq> 0 \<Longrightarrow> c y x < 0"
    using assms unfolding comparator_def by (metis linorder_neqE)
  ultimately show ?case using Cons set_ins_by_subset [of c x ys] by auto
qed

lemma sorted_sort_by: "comparator c \<Longrightarrow> sorted_wrt (\<lambda>a b. c a b < 0) (sort_by (c, xs))"
  by (induction xs) (simp_all add: sort_by_def sorted_ins_by)

lemma sort_by_sorted: "sorted_wrt (\<lambda>a b. c a b < 0) xs \<Longrightarrow> sort_by (c, xs) = xs"
proof (induction xs)
  case Nil
  then show ?case by (simp add: sort_by_def)
next
  case (Cons x xs)
  then have "ins_by c x xs = x # xs" by (cases xs) auto
  with Cons show ?case by (simp add: sort_by_def)
qed

lemma set_ins_by: "(\<And>y. y \<in> set ys \<Longrightarrow> c x y \<noteq> 0) \<Longrightarrow> set (ins_by c x ys) = insert x (set ys)"
  by (induction ys) auto

lemma sort_by_filter:
  assumes "comparator c"
  shows "sort_by (c, filter P (sort_by (c, xs))) = filter P (sort_by (c, xs))"
  by (rule sort_by_sorted) (simp add: sorted_wrt_filter sorted_sort_by assms)

interpretation list_table: btype_table list_table_ops
proof
  fix t :: "('a \<Rightarrow> 'a \<Rightarrow> int) \<times> 'a list" and x :: 'a
  obtain c xs where t: "t = (c, xs)" by (cases t)
  assume "comparator (t_order list_table_ops t)"
  then have c: "comparator c" by (simp add: list_table_ops_def t)
  then show "sorted_wrt (\<lambda>a b. t_order list_table_ops t a b < 0) (t_all list_table_ops t)"
    by (simp add: list_table_ops_def t sorted_sort_by)
  show "set (t_all list_table_ops (t_delete list_table_ops t x)) =
      {y \<in> set (t_all list_table_ops t). t_order list_table_ops t y x \<noteq> 0}"
    by (simp add: list_table_ops_def t sort_by_filter c)
  let ?L = "filter (\<lambda>y. c y x \<noteq> 0) (sort_by (c, xs))"
  have "sort_by (c, x # ?L) = ins_by c x (sort_by (c, ?L))" by (simp add: sort_by_def)
  moreover have "set (ins_by c x ?L) = insert x (set ?L)"
    by (rule set_ins_by) (use comparator_zero_sym [OF c] in auto)
  ultimately have "set (sort_by (c, x # ?L)) = insert x (set ?L)"
    by (simp only: sort_by_filter [OF c])
  then show "set (t_all list_table_ops (t_set list_table_ops t x)) =
      insert x {y \<in> set (t_all list_table_ops t). t_order list_table_ops t y x \<noteq> 0}"
    by (simp add: list_table_ops_def t)
qed (simp_all add: list_table_ops_def sort_by_def)

text \<open>A complete set of trees, for concrete databases.\<close>

definition std_btype ::
    "('k::linorder, 'v, ('k, 'v) rbt, ('k, int) rbt, 'x, ('x \<Rightarrow> 'x \<Rightarrow> int) \<times> 'x list,
      'i, ('i \<Rightarrow> 'i \<Rightarrow> int) \<times> 'i list) btype" where
  "std_btype = \<lparr>dataOps = rbt_map_ops, ttlOps = rbt_map_ops,
                expOps = list_table_ops, idxOps = list_table_ops\<rparr>"

interpretation std: btype std_btype
  by (rule btype.intro)
    (simp_all add: std_btype_def rbt_map.btype_map_axioms list_table.btype_table_axioms)

end
