(* ===== verification/State.thy ===== *)
theory State
  imports Btype
begin

text \<open>
  The in-memory state, \<^verbatim>\<open>src/state.go\<close>: the primary tree, the deadline map with its
  deadline-ordered mirror, and the secondary indexes. The invariant \<open>state_wf\<close> says that
  the derived trees agree with the data; \<open>view\<close> abstracts a state to the map from keys to
  values with their deadlines, and every operation refines an operation on that map.
\<close>

section \<open>Data\<close>

record 'k expEntry =
  ee_at :: int
  ee_key :: 'k

record ('k, 'v) ientry =
  ie_k :: 'k
  ie_v :: 'v

record ('k, 'v, 'j) index =
  ix_name :: string
  ix_compare :: "'k \<Rightarrow> 'v \<Rightarrow> 'k \<Rightarrow> 'v \<Rightarrow> int"
  ix_tree :: 'j

text \<open>A Go map from index names to indexes, as a list with distinct names.\<close>

record ('k, 'v, 'm, 'n, 'e, 'j) dbState =
  st_data :: 'm
  st_ttl :: 'n
  st_exp :: 'e
  st_idx :: "(string \<times> ('k, 'v, 'j) index) list"

type_synonym ('k, 'v, 'm, 'n, 'e, 'j) trees =
  "('k, 'v, 'm, 'n, 'k expEntry, 'e, ('k, 'v) ientry, 'j) btype"

text \<open>\<^verbatim>\<open>cmp.Compare\<close>.\<close>

definition cmpCompare :: "'a::linorder \<Rightarrow> 'a \<Rightarrow> int" where
  "cmpCompare a b = (if a < b then -1 else if b < a then 1 else 0)"

section \<open>Operations\<close>

definition indexCompare ::
    "('k::linorder \<Rightarrow> 'v \<Rightarrow> 'k \<Rightarrow> 'v \<Rightarrow> int) \<Rightarrow> ('k, 'v) ientry \<Rightarrow> ('k, 'v) ientry \<Rightarrow> int" where
  "indexCompare compare a b =
     (let c = compare (ie_k a) (ie_v a) (ie_k b) (ie_v b)
      in if c \<noteq> 0 then c else cmpCompare (ie_k a) (ie_k b))"

definition newIndex ::
    "('k::linorder, 'v, 'm, 'n, 'e, 'j) trees \<Rightarrow> string \<Rightarrow> ('k \<Rightarrow> 'v \<Rightarrow> 'k \<Rightarrow> 'v \<Rightarrow> int)
       \<Rightarrow> ('k, 'v, 'j) index" where
  "newIndex B name compare =
     \<lparr>ix_name = name, ix_compare = compare, ix_tree = t_new (idxOps B) (indexCompare compare)\<rparr>"

definition expCompare :: "'k::linorder expEntry \<Rightarrow> 'k expEntry \<Rightarrow> int" where
  "expCompare a b =
     (let c = cmpCompare (ee_at a) (ee_at b)
      in if c \<noteq> 0 then c else cmpCompare (ee_key a) (ee_key b))"

definition newDBState ::
    "('k::linorder, 'v, 'm, 'n, 'e, 'j) trees \<Rightarrow> ('k, 'v, 'm, 'n, 'e, 'j) dbState" where
  "newDBState B =
     \<lparr>st_data = m_new (dataOps B), st_ttl = m_new (ttlOps B),
      st_exp = t_new (expOps B) expCompare, st_idx = []\<rparr>"

definition stateCopy ::
    "('k::linorder, 'v, 'm, 'n, 'e, 'j) trees \<Rightarrow> ('k, 'v, 'm, 'n, 'e, 'j) dbState
       \<Rightarrow> ('k, 'v, 'm, 'n, 'e, 'j) dbState" where
  "stateCopy B s =
     \<lparr>st_data = m_copy (dataOps B) (st_data s), st_ttl = m_copy (ttlOps B) (st_ttl s),
      st_exp = t_copy (expOps B) (st_exp s),
      st_idx = map (\<lambda>(name, ix). (name, \<lparr>ix_name = ix_name ix, ix_compare = ix_compare ix,
                                          ix_tree = t_copy (idxOps B) (ix_tree ix)\<rparr>)) (st_idx s)\<rparr>"

text \<open>One pass over the indexes (\<^verbatim>\<open>for _, ix := range s.idx\<close>); the order is immaterial.\<close>

definition forIdx :: "('j \<Rightarrow> 'j) \<Rightarrow> (string \<times> ('k, 'v, 'j) index) list \<Rightarrow> (string \<times> ('k, 'v, 'j) index) list" where
  "forIdx f idx = map (\<lambda>(name, ix). (name, ix\<lparr>ix_tree := f (ix_tree ix)\<rparr>)) idx"

definition stateSet ::
    "('k::linorder, 'v, 'm, 'n, 'e, 'j) trees \<Rightarrow> 'k \<Rightarrow> 'v \<Rightarrow> int \<Rightarrow> ('k, 'v, 'm, 'n, 'e, 'j) dbState
       \<Rightarrow> ('k, 'v, 'm, 'n, 'e, 'j) dbState" where
  "stateSet B k v deadline s =
     (let (d, prev) = m_set (dataOps B) (st_data s) k v;
          idx = (case prev of None \<Rightarrow> st_idx s
                 | Some pv \<Rightarrow> forIdx (\<lambda>t. t_delete (idxOps B) t \<lparr>ie_k = k, ie_v = pv\<rparr>) (st_idx s));
          (n, oldDL) = m_delete (ttlOps B) (st_ttl s) k;
          x = (case oldDL of None \<Rightarrow> st_exp s
               | Some dl \<Rightarrow> t_delete (expOps B) (st_exp s) \<lparr>ee_at = dl, ee_key = k\<rparr>);
          (n, x) = (if 0 < deadline
                    then (fst (m_set (ttlOps B) n k deadline),
                          t_set (expOps B) x \<lparr>ee_at = deadline, ee_key = k\<rparr>)
                    else (n, x));
          idx = forIdx (\<lambda>t. t_set (idxOps B) t \<lparr>ie_k = k, ie_v = v\<rparr>) idx
      in \<lparr>st_data = d, st_ttl = n, st_exp = x, st_idx = idx\<rparr>)"

definition stateDelete ::
    "('k::linorder, 'v, 'm, 'n, 'e, 'j) trees \<Rightarrow> 'k \<Rightarrow> ('k, 'v, 'm, 'n, 'e, 'j) dbState
       \<Rightarrow> ('k, 'v, 'm, 'n, 'e, 'j) dbState \<times> 'v option" where
  "stateDelete B k s =
     (let (d, prev) = m_delete (dataOps B) (st_data s) k
      in case prev of
           None \<Rightarrow> (s\<lparr>st_data := d\<rparr>, None)
         | Some pv \<Rightarrow>
             (let (n, oldDL) = m_delete (ttlOps B) (st_ttl s) k;
                  x = (case oldDL of None \<Rightarrow> st_exp s
                       | Some dl \<Rightarrow> t_delete (expOps B) (st_exp s) \<lparr>ee_at = dl, ee_key = k\<rparr>);
                  idx = forIdx (\<lambda>t. t_delete (idxOps B) t \<lparr>ie_k = k, ie_v = pv\<rparr>) (st_idx s)
              in (\<lparr>st_data = d, st_ttl = n, st_exp = x, st_idx = idx\<rparr>, Some pv)))"

text \<open>The loop of \<^verbatim>\<open>liveLen\<close>: it stops at the first deadline past \<open>now\<close>.\<close>

fun liveLoop :: "int \<Rightarrow> 'k expEntry list \<Rightarrow> int \<Rightarrow> int" where
  "liveLoop now [] n = n"
| "liveLoop now (e # es) n = (if now < ee_at e then n else liveLoop now es (n - 1))"

definition liveLen ::
    "('k::linorder, 'v, 'm, 'n, 'e, 'j) trees \<Rightarrow> int \<Rightarrow> ('k, 'v, 'm, 'n, 'e, 'j) dbState \<Rightarrow> int" where
  "liveLen B now s = liveLoop now (t_all (expOps B) (st_exp s)) (int (m_len (dataOps B) (st_data s)))"

definition expired ::
    "('k::linorder, 'v, 'm, 'n, 'e, 'j) trees \<Rightarrow> 'k \<Rightarrow> int \<Rightarrow> ('k, 'v, 'm, 'n, 'e, 'j) dbState \<Rightarrow> bool" where
  "expired B k now s =
     (if m_len (ttlOps B) (st_ttl s) = 0 then False
      else case m_get (ttlOps B) (st_ttl s) k of None \<Rightarrow> False | Some dl \<Rightarrow> dl \<le> now)"

definition stateGet ::
    "('k::linorder, 'v, 'm, 'n, 'e, 'j) trees \<Rightarrow> 'k \<Rightarrow> int \<Rightarrow> ('k, 'v, 'm, 'n, 'e, 'j) dbState
       \<Rightarrow> 'v option" where
  "stateGet B k now s =
     (case m_get (dataOps B) (st_data s) k of
        None \<Rightarrow> None
      | Some v \<Rightarrow> if expired B k now s then None else Some v)"

section \<open>Comparators\<close>

lemma cmpCompare_zero [simp]: "cmpCompare a b = 0 \<longleftrightarrow> a = b"
  by (auto simp: cmpCompare_def)

lemma cmpCompare_neg [simp]: "cmpCompare a b < 0 \<longleftrightarrow> a < b"
  by (auto simp: cmpCompare_def)

lemma cmpCompare_pos [simp]: "0 < cmpCompare a b \<longleftrightarrow> b < a"
  by (auto simp: cmpCompare_def)

lemma cmpCompare_le [simp]: "cmpCompare a b \<le> 0 \<longleftrightarrow> a \<le> b"
  by (auto simp: cmpCompare_def)

lemma expCompare_zero [simp]: "expCompare a b = 0 \<longleftrightarrow> a = b"
  by (cases a; cases b) (auto simp: expCompare_def Let_def)

lemma expCompare_neg: "expCompare a b < 0 \<longleftrightarrow> ee_at a < ee_at b \<or> ee_at a = ee_at b \<and> ee_key a < ee_key b"
  by (auto simp: expCompare_def Let_def)

lemma comparator_exp [simp]: "comparator expCompare"
  by (auto simp: comparator_def expCompare_def Let_def)

text \<open>
  A user comparator over pairs is usable when it is a total preorder on pairs; with the
  primary key as tiebreak it then orders index entries.
\<close>

definition user_compare :: "('k \<Rightarrow> 'v \<Rightarrow> 'k \<Rightarrow> 'v \<Rightarrow> int) \<Rightarrow> bool" where
  "user_compare compare \<longleftrightarrow> comparator (\<lambda>a b. compare (fst a) (snd a) (fst b) (snd b))"

lemma comparator_lex:
  assumes "comparator c" "comparator d"
  shows "comparator (\<lambda>a b. if c a b \<noteq> 0 then c a b else d a b)"
  using assms unfolding comparator_def
  by (smt (verit))

lemma comparator_index [simp]:
  assumes "user_compare compare"
  shows "comparator (indexCompare compare)"
proof -
  let ?c = "\<lambda>a b. compare (ie_k a) (ie_v a) (ie_k b) (ie_v b)"
  let ?d = "\<lambda>a b. cmpCompare (ie_k a) (ie_k b)"
  have "comparator ?c" using assms by (simp add: user_compare_def comparator_def)
  moreover have "comparator ?d" by (auto simp: comparator_def)
  ultimately have "comparator (\<lambda>a b. if ?c a b \<noteq> 0 then ?c a b else ?d a b)" by (rule comparator_lex)
  then show ?thesis by (simp add: indexCompare_def [abs_def] Let_def)
qed

section \<open>Invariant and abstraction\<close>

definition index_wf ::
    "('k::linorder, 'v, 'm, 'n, 'e, 'j) trees \<Rightarrow> 'm \<Rightarrow> string \<times> ('k, 'v, 'j) index \<Rightarrow> bool" where
  "index_wf B d nix \<longleftrightarrow>
     (case nix of (n, ix) \<Rightarrow>
        ix_name ix = n \<and> t_order (idxOps B) (ix_tree ix) = indexCompare (ix_compare ix) \<and>
        (user_compare (ix_compare ix) \<longrightarrow>
           set (t_all (idxOps B) (ix_tree ix)) = {e. m_get (dataOps B) d (ie_k e) = Some (ie_v e)}))"

definition state_wf ::
    "('k::linorder, 'v, 'm, 'n, 'e, 'j) trees \<Rightarrow> ('k, 'v, 'm, 'n, 'e, 'j) dbState \<Rightarrow> bool" where
  "state_wf B s \<longleftrightarrow>
     t_order (expOps B) (st_exp s) = expCompare \<and>
     set (t_all (expOps B) (st_exp s)) = {e. m_get (ttlOps B) (st_ttl s) (ee_key e) = Some (ee_at e)} \<and>
     dom (m_get (ttlOps B) (st_ttl s)) \<subseteq> dom (m_get (dataOps B) (st_data s)) \<and>
     (\<forall>k dl. m_get (ttlOps B) (st_ttl s) k = Some dl \<longrightarrow> 0 < dl) \<and>
     distinct (map fst (st_idx s)) \<and> list_all (index_wf B (st_data s)) (st_idx s)"

definition view ::
    "('k::linorder, 'v, 'm, 'n, 'e, 'j) trees \<Rightarrow> ('k, 'v, 'm, 'n, 'e, 'j) dbState
       \<Rightarrow> 'k \<Rightarrow> ('v \<times> int option) option" where
  "view B s k = map_option (\<lambda>v. (v, m_get (ttlOps B) (st_ttl s) k)) (m_get (dataOps B) (st_data s) k)"

text \<open>Expiry on an abstract entry, and what a reader at time \<open>now\<close> sees.\<close>

fun entry_live :: "int \<Rightarrow> 'v \<times> int option \<Rightarrow> bool" where
  "entry_live now (v, None) = True"
| "entry_live now (v, Some dl) = (now < dl)"

definition visible :: "int \<Rightarrow> ('k \<Rightarrow> ('v \<times> int option) option) \<Rightarrow> 'k \<Rightarrow> 'v option" where
  "visible now m k = (case m k of None \<Rightarrow> None | Some e \<Rightarrow> if entry_live now e then Some (fst e) else None)"

text \<open>The deadline an operation stores: none unless it is positive.\<close>

definition dl_opt :: "int \<Rightarrow> int option" where
  "dl_opt dl = (if 0 < dl then Some dl else None)"

lemma expEntry_eq: "(e = \<lparr>ee_at = a, ee_key = k\<rparr>) \<longleftrightarrow> ee_at e = a \<and> ee_key e = k"
  by (cases e) auto

lemma ientry_eq: "(e = \<lparr>ie_k = k, ie_v = v\<rparr>) \<longleftrightarrow> ie_k e = k \<and> ie_v e = v"
  by (cases e) auto

lemma indexCompare_key: "indexCompare c e f = 0 \<Longrightarrow> ie_k e = ie_k f"
  by (auto simp: indexCompare_def Let_def split: if_splits)

lemma forIdx_fst [simp]: "map fst (forIdx f idx) = map fst idx"
  by (induction idx) (auto simp: forIdx_def)

lemma list_all_forIdxI:
  "list_all P idx \<Longrightarrow> (\<And>n ix. P (n, ix) \<Longrightarrow> Q (n, ix\<lparr>ix_tree := f (ix_tree ix)\<rparr>)) \<Longrightarrow> list_all Q (forIdx f idx)"
  by (auto simp: forIdx_def list_all_iff)

lemma forIdx_forIdx: "forIdx g (forIdx f idx) = forIdx (g \<circ> f) idx"
  by (auto simp: forIdx_def)

text \<open>
  A range-over-function loop: the iterator walks \<open>xs\<close>, skips the keys that \<open>skip\<close> names and
  hands each pair to \<^verbatim>\<open>yield\<close>, which threads the consumer's state and says whether to go on.
\<close>

fun iterPairs :: "('k \<Rightarrow> bool) \<Rightarrow> ('k \<times> 'v) list \<Rightarrow> ('c \<Rightarrow> 'k \<Rightarrow> 'v \<Rightarrow> 'c \<times> bool) \<Rightarrow> 'c \<Rightarrow> 'c" where
  "iterPairs skip [] yield c = c"
| "iterPairs skip ((k, v) # xs) yield c =
     (if skip k then iterPairs skip xs yield c
      else let (c', more) = yield c k v in if more then iterPairs skip xs yield c' else c')"

lemma iterPairs_filter:
  "iterPairs skip xs yield c = iterPairs (\<lambda>_. False) (filter (\<lambda>p. \<not> skip (fst p)) xs) yield c"
  by (induction skip xs yield c rule: iterPairs.induct) (auto split: prod.splits)

text \<open>A consumer that collects what it is given sees the whole sequence.\<close>

definition collect :: "('k \<times> 'v) list \<Rightarrow> 'k \<Rightarrow> 'v \<Rightarrow> ('k \<times> 'v) list \<times> bool" where
  "collect acc k v = (acc @ [(k, v)], True)"

lemma iterPairs_collect: "iterPairs (\<lambda>_. False) xs collect acc = acc @ xs"
  by (induction xs arbitrary: acc) (auto simp: collect_def)

lemma liveLoop_takeWhile: "liveLoop now es n = n - int (length (takeWhile (\<lambda>e. ee_at e \<le> now) es))"
  by (induction es arbitrary: n) auto

lemma takeWhile_filter_sorted:
  "sorted_wrt (\<lambda>a b. f a \<le> f b) xs \<Longrightarrow> takeWhile (\<lambda>e. f e \<le> (c::int)) xs = filter (\<lambda>e. f e \<le> c) xs"
  by (induction xs) (auto intro!: filter_False [symmetric])

text \<open>What iteration over the primary tree yields: the visible pairs in key order.\<close>

definition livePairs ::
    "('k::linorder, 'v, 'm, 'n, 'e, 'j) trees \<Rightarrow> int \<Rightarrow> ('k, 'v, 'm, 'n, 'e, 'j) dbState \<Rightarrow> ('k \<times> 'v) list" where
  "livePairs B now s = filter (\<lambda>p. \<not> expired B (fst p) now s) (m_all (dataOps B) (st_data s))"

locale state_trees = btype B for B :: "('k::linorder, 'v, 'm, 'n, 'e, 'j) trees"
begin

lemma stateSet_fields:
  "st_data (stateSet B k v dl s) = fst (m_set (dataOps B) (st_data s) k v)"
  "st_ttl (stateSet B k v dl s) =
     (let n = fst (m_delete (ttlOps B) (st_ttl s) k)
      in if 0 < dl then fst (m_set (ttlOps B) n k dl) else n)"
  "st_exp (stateSet B k v dl s) =
     (let x = (case m_get (ttlOps B) (st_ttl s) k of None \<Rightarrow> st_exp s
               | Some old \<Rightarrow> t_delete (expOps B) (st_exp s) \<lparr>ee_at = old, ee_key = k\<rparr>)
      in if 0 < dl then t_set (expOps B) x \<lparr>ee_at = dl, ee_key = k\<rparr> else x)"
  "st_idx (stateSet B k v dl s) =
     forIdx (\<lambda>t. t_set (idxOps B) t \<lparr>ie_k = k, ie_v = v\<rparr>)
       (case m_get (dataOps B) (st_data s) k of None \<Rightarrow> st_idx s
        | Some pv \<Rightarrow> forIdx (\<lambda>t. t_delete (idxOps B) t \<lparr>ie_k = k, ie_v = pv\<rparr>) (st_idx s))"
  by (simp_all add: stateSet_def Let_def case_prod_unfold d.set_prev n.delete_prev)

lemma stateDelete_absent:
  "m_get (dataOps B) (st_data s) k = None \<Longrightarrow>
   stateDelete B k s = (s\<lparr>st_data := fst (m_delete (dataOps B) (st_data s) k)\<rparr>, None)"
  by (simp add: stateDelete_def Let_def case_prod_unfold d.delete_prev)

lemma stateDelete_present:
  "m_get (dataOps B) (st_data s) k = Some pv \<Longrightarrow>
   stateDelete B k s =
     (\<lparr>st_data = fst (m_delete (dataOps B) (st_data s) k),
       st_ttl = fst (m_delete (ttlOps B) (st_ttl s) k),
       st_exp = (case m_get (ttlOps B) (st_ttl s) k of None \<Rightarrow> st_exp s
                 | Some dl \<Rightarrow> t_delete (expOps B) (st_exp s) \<lparr>ee_at = dl, ee_key = k\<rparr>),
       st_idx = forIdx (\<lambda>t. t_delete (idxOps B) t \<lparr>ie_k = k, ie_v = pv\<rparr>) (st_idx s)\<rparr>,
      Some pv)"
  by (simp add: stateDelete_def Let_def case_prod_unfold d.delete_prev n.delete_prev)

lemma get_stateSet:
  "m_get (dataOps B) (st_data (stateSet B k v dl s)) = (m_get (dataOps B) (st_data s))(k \<mapsto> v)"
  "m_get (ttlOps B) (st_ttl (stateSet B k v dl s)) = (m_get (ttlOps B) (st_ttl s))(k := dl_opt dl)"
  by (simp_all add: stateSet_fields Let_def dl_opt_def d.get_set n.get_set n.get_delete)

lemma ttl_absent:
  "state_wf B s \<Longrightarrow> m_get (dataOps B) (st_data s) k = None \<Longrightarrow> m_get (ttlOps B) (st_ttl s) k = None"
  unfolding state_wf_def by (meson domIff subsetD)

lemma get_stateDelete:
  "m_get (dataOps B) (st_data (fst (stateDelete B k s))) = (m_get (dataOps B) (st_data s))(k := None)"
  "state_wf B s \<Longrightarrow>
   m_get (ttlOps B) (st_ttl (fst (stateDelete B k s))) = (m_get (ttlOps B) (st_ttl s))(k := None)"
  "snd (stateDelete B k s) = m_get (dataOps B) (st_data s) k"
proof -
  show "m_get (dataOps B) (st_data (fst (stateDelete B k s))) = (m_get (dataOps B) (st_data s))(k := None)"
    by (cases "m_get (dataOps B) (st_data s) k")
      (simp_all add: stateDelete_absent stateDelete_present d.get_delete)
  show "snd (stateDelete B k s) = m_get (dataOps B) (st_data s) k"
    by (cases "m_get (dataOps B) (st_data s) k")
      (simp_all add: stateDelete_absent stateDelete_present)
  assume "state_wf B s"
  then show "m_get (ttlOps B) (st_ttl (fst (stateDelete B k s))) = (m_get (ttlOps B) (st_ttl s))(k := None)"
    by (cases "m_get (dataOps B) (st_data s) k")
      (auto simp: stateDelete_absent stateDelete_present n.get_delete ttl_absent fun_eq_iff)
qed

text \<open>The deadline table through one key's change.\<close>

lemma exp_delete:
  assumes "t_order (expOps B) x = expCompare"
    and "set (t_all (expOps B) x) = {e. g (ee_key e) = Some (ee_at e)}"
  shows "set (t_all (expOps B) (case g k of None \<Rightarrow> x
       | Some dl \<Rightarrow> t_delete (expOps B) x \<lparr>ee_at = dl, ee_key = k\<rparr>)) =
     {e. (g(k := None)) (ee_key e) = Some (ee_at e)}"
proof (cases "g k")
  case None
  then have "g(k := None) = g" by auto
  with assms None show ?thesis by simp
next
  case (Some dl)
  show ?thesis
  proof (rule set_eqI)
    fix e
    show "e \<in> set (t_all (expOps B) (case g k of None \<Rightarrow> x
         | Some dl \<Rightarrow> t_delete (expOps B) x \<lparr>ee_at = dl, ee_key = k\<rparr>)) \<longleftrightarrow>
       e \<in> {e. (g(k := None)) (ee_key e) = Some (ee_at e)}"
      using Some expEntry_eq [of e dl k] by (auto simp: x.tall_delete assms)
  qed
qed

lemma exp_set:
  assumes "t_order (expOps B) x = expCompare" "g k = None"
    and "set (t_all (expOps B) x) = {e. g (ee_key e) = Some (ee_at e)}"
  shows "set (t_all (expOps B) (t_set (expOps B) x \<lparr>ee_at = dl, ee_key = k\<rparr>)) =
     {e. (g(k \<mapsto> dl)) (ee_key e) = Some (ee_at e)}"
proof (rule set_eqI)
  fix e
  show "e \<in> set (t_all (expOps B) (t_set (expOps B) x \<lparr>ee_at = dl, ee_key = k\<rparr>)) \<longleftrightarrow>
     e \<in> {e. (g(k \<mapsto> dl)) (ee_key e) = Some (ee_at e)}"
    using assms(2) expEntry_eq [of e dl k] by (auto simp: x.tall_set assms)
qed

text \<open>An index through one key's change.\<close>

lemma idx_delete:
  assumes "index_wf B d (n, ix)" "m_get (dataOps B) d k = Some pv"
    "m_get (dataOps B) d' = (m_get (dataOps B) d)(k := None)"
  shows "index_wf B d' (n, ix\<lparr>ix_tree := t_delete (idxOps B) (ix_tree ix) \<lparr>ie_k = k, ie_v = pv\<rparr>\<rparr>)"
proof -
  have "indexCompare (ix_compare ix) e \<lparr>ie_k = k, ie_v = pv\<rparr> = 0" if "user_compare (ix_compare ix)"
      "ie_k e = k" "ie_v e = pv" for e
    using that comparator_index [OF that(1)] ientry_eq [of e k pv] by (metis comparator_def)
  with assms show ?thesis
    by (auto simp: index_wf_def i.order_delete i.tall_delete dest: indexCompare_key)
qed

lemma idx_set:
  assumes "index_wf B d (n, ix)" "m_get (dataOps B) d k = None"
    "m_get (dataOps B) d' = (m_get (dataOps B) d)(k \<mapsto> v)"
  shows "index_wf B d' (n, ix\<lparr>ix_tree := t_set (idxOps B) (ix_tree ix) \<lparr>ie_k = k, ie_v = v\<rparr>\<rparr>)"
proof -
  have "set (t_all (idxOps B) (t_set (idxOps B) (ix_tree ix) \<lparr>ie_k = k, ie_v = v\<rparr>)) =
      {e. m_get (dataOps B) d' (ie_k e) = Some (ie_v e)}" if u: "user_compare (ix_compare ix)"
  proof (rule set_eqI)
    fix e
    show "e \<in> set (t_all (idxOps B) (t_set (idxOps B) (ix_tree ix) \<lparr>ie_k = k, ie_v = v\<rparr>)) \<longleftrightarrow>
        e \<in> {e. m_get (dataOps B) d' (ie_k e) = Some (ie_v e)}"
      using assms u ientry_eq [of e k v]
      by (auto simp: index_wf_def i.tall_set dest: indexCompare_key)
  qed
  with assms show ?thesis by (auto simp: index_wf_def i.order_set)
qed

lemma state_wf_new: "state_wf B (newDBState B)"
  by (auto simp: state_wf_def newDBState_def x.order_new x.tall_new)

lemma state_wf_copy: "state_wf B s \<Longrightarrow> state_wf B (stateCopy B s)"
  by (auto simp: state_wf_def stateCopy_def x.order_copy x.tcopy_all list_all_iff index_wf_def
      i.order_copy i.tcopy_all case_prod_unfold comp_def)

lemma state_wf_set:
  assumes wf: "state_wf B s"
  shows "state_wf B (stateSet B k v dl s)"
proof -
  let ?s = "stateSet B k v dl s" and ?g = "m_get (ttlOps B) (st_ttl s)"
  let ?x = "case ?g k of None \<Rightarrow> st_exp s
      | Some old \<Rightarrow> t_delete (expOps B) (st_exp s) \<lparr>ee_at = old, ee_key = k\<rparr>"
  have o: "t_order (expOps B) ?x = expCompare"
    using wf by (auto simp: state_wf_def x.order_delete split: option.splits)
  have s0: "set (t_all (expOps B) ?x) = {e. (?g(k := None)) (ee_key e) = Some (ee_at e)}"
    using wf by (intro exp_delete) (simp_all add: state_wf_def)
  have "set (t_all (expOps B) (st_exp ?s)) = {e. (?g(k := dl_opt dl)) (ee_key e) = Some (ee_at e)}"
    using s0 exp_set [OF o _ s0, of k dl]
    by (simp only: stateSet_fields Let_def dl_opt_def fun_upd_same fun_upd_upd split: if_split) simp
  moreover have "t_order (expOps B) (st_exp ?s) = expCompare"
    using o by (simp add: stateSet_fields Let_def x.order_set)
  moreover have "list_all (index_wf B (st_data ?s)) (st_idx ?s)"
  proof (cases "m_get (dataOps B) (st_data s) k")
    case None
    with wf idx_set [OF _ None get_stateSet(1)] show ?thesis
      by (auto simp: stateSet_fields(4) state_wf_def intro: list_all_forIdxI)
  next
    case (Some pv)
    let ?d = "fst (m_delete (dataOps B) (st_data s) k)"
    have d: "m_get (dataOps B) ?d = (m_get (dataOps B) (st_data s))(k := None)" by (rule d.get_delete)
    have "list_all (index_wf B ?d) (forIdx (\<lambda>t. t_delete (idxOps B) t \<lparr>ie_k = k, ie_v = pv\<rparr>) (st_idx s))"
      using wf idx_delete [OF _ Some d] by (auto simp: state_wf_def intro: list_all_forIdxI)
    moreover have "m_get (dataOps B) (st_data ?s) = (m_get (dataOps B) ?d)(k \<mapsto> v)"
      by (simp add: get_stateSet d)
    ultimately show ?thesis
      using idx_set [of ?d _ _ k "st_data ?s" v]
      by (subst stateSet_fields(4)) (auto simp: Some d intro: list_all_forIdxI)
  qed
  moreover have "map fst (st_idx ?s) = map fst (st_idx s)"
    by (simp add: stateSet_fields split: option.splits)
  ultimately show ?thesis
    using wf by (auto simp: state_wf_def get_stateSet dl_opt_def split: if_splits)
qed

lemma state_wf_delete:
  assumes wf: "state_wf B s"
  shows "state_wf B (fst (stateDelete B k s))"
proof (cases "m_get (dataOps B) (st_data s) k")
  case None
  then have "m_get (dataOps B) (fst (m_delete (dataOps B) (st_data s) k)) = m_get (dataOps B) (st_data s)"
    by (auto simp: d.get_delete)
  then show ?thesis
    using wf by (auto simp: stateDelete_absent None state_wf_def index_wf_def list_all_iff)
next
  case (Some pv)
  let ?s = "fst (stateDelete B k s)" and ?g = "m_get (ttlOps B) (st_ttl s)"
  have "set (t_all (expOps B) (st_exp ?s)) = {e. (?g(k := None)) (ee_key e) = Some (ee_at e)}"
    using wf exp_delete [of "st_exp s" ?g k] by (simp add: stateDelete_present [OF Some] state_wf_def)
  moreover have "t_order (expOps B) (st_exp ?s) = expCompare"
    using wf by (auto simp: stateDelete_present [OF Some] state_wf_def x.order_delete split: option.splits)
  moreover have "list_all (index_wf B (st_data ?s)) (st_idx ?s)"
    using wf idx_delete [OF _ Some, of _ _ "st_data ?s"]
    by (auto simp: stateDelete_present [OF Some] d.get_delete state_wf_def intro: list_all_forIdxI)
  moreover have "map fst (st_idx ?s) = map fst (st_idx s)"
    by (simp add: stateDelete_present [OF Some])
  ultimately show ?thesis
    using wf get_stateDelete(1) [of k s] get_stateDelete(2) [OF wf, of k] by (auto simp: state_wf_def)
qed

subsection \<open>Refinement of the abstract map\<close>

lemma contains_view: "m_contains (dataOps B) (st_data s) k \<longleftrightarrow> view B s k \<noteq> None"
  by (simp add: view_def d.contains_get)

lemma view_new: "view B (newDBState B) = Map.empty"
  by (simp add: view_def newDBState_def fun_eq_iff)

lemma view_copy: "view B (stateCopy B s) = view B s"
  by (simp add: view_def stateCopy_def fun_eq_iff)

lemma view_set: "view B (stateSet B k v dl s) = (view B s)(k \<mapsto> (v, dl_opt dl))"
  by (simp add: view_def get_stateSet fun_eq_iff)

lemma view_delete: "state_wf B s \<Longrightarrow> view B (fst (stateDelete B k s)) = (view B s)(k := None)"
  using get_stateDelete(1) [of k s] get_stateDelete(2) [of s k] by (simp add: view_def fun_eq_iff)

lemma expired_view:
  assumes "state_wf B s" "view B s k = Some e"
  shows "expired B k now s \<longleftrightarrow> \<not> entry_live now e"
  using assms n.len_zero [of "st_ttl s"]
  by (cases e; cases "snd e") (auto simp: expired_def view_def)

lemma expired_iff: "expired B k now s \<longleftrightarrow> (\<exists>dl. m_get (ttlOps B) (st_ttl s) k = Some dl \<and> dl \<le> now)"
  using n.len_zero [of "st_ttl s"] by (auto simp: expired_def split: option.splits)

lemma get_visible: "state_wf B s \<Longrightarrow> stateGet B k now s = visible now (view B s) k"
  using expired_view [of s k]
  by (cases "view B s k") (auto simp: stateGet_def visible_def view_def)

subsection \<open>Counting and iterating\<close>

lemma exp_sorted:
  assumes "state_wf B s"
  shows "sorted_wrt (\<lambda>a b. ee_at a \<le> ee_at b) (t_all (expOps B) (st_exp s))"
  using assms x.tall_sorted [of "st_exp s"]
  by (auto simp: state_wf_def expCompare_neg elim: sorted_wrt_mono_rel [rotated])

lemma card_expired:
  assumes wf: "state_wf B s"
  shows "length (filter (\<lambda>e. ee_at e \<le> now) (t_all (expOps B) (st_exp s))) = card {k. expired B k now s}"
proof -
  let ?es = "filter (\<lambda>e. ee_at e \<le> now) (t_all (expOps B) (st_exp s))"
  have set: "set ?es = {e. m_get (ttlOps B) (st_ttl s) (ee_key e) = Some (ee_at e) \<and> ee_at e \<le> now}"
    using wf by (auto simp: state_wf_def)
  have "distinct ?es" using wf x.tall_distinct [of "st_exp s"] by (simp add: state_wf_def)
  then have "length ?es = card (set ?es)" by (simp only: distinct_card)
  also have "\<dots> = card (ee_key ` set ?es)"
    by (rule card_image [symmetric], rule inj_onI, simp only: set) auto
  also have "ee_key ` set ?es = {k. expired B k now s}"
    unfolding set by (force simp: expired_iff image_iff intro: exI [of _ "\<lparr>ee_at = _, ee_key = _\<rparr>"])
  finally show ?thesis .
qed

lemma expired_present: "state_wf B s \<Longrightarrow> {k. expired B k now s} \<subseteq> dom (m_get (dataOps B) (st_data s))"
  by (auto simp: state_wf_def expired_iff)

lemma visible_dom:
  "state_wf B s \<Longrightarrow>
   dom (visible now (view B s)) = dom (m_get (dataOps B) (st_data s)) - {k. expired B k now s}"
  by (auto simp: visible_def expired_view view_def split: option.splits if_splits)

lemma liveLen_card:
  assumes wf: "state_wf B s"
  shows "liveLen B now s = int (card (dom (visible now (view B s))))"
proof -
  have "liveLen B now s = int (card (dom (m_get (dataOps B) (st_data s)))) - int (card {k. expired B k now s})"
    by (simp add: liveLen_def liveLoop_takeWhile takeWhile_filter_sorted [OF exp_sorted [OF wf]]
        card_expired [OF wf] d.len_dom)
  also have "\<dots> = int (card (dom (visible now (view B s))))"
    using expired_present [OF wf, of now]
    by (simp add: visible_dom [OF wf] card_Diff_subset finite_subset [OF _ d.finite_dom] card_mono)
  finally show ?thesis .
qed

lemma livePairs_sorted: "sorted_wrt (<) (map fst (livePairs B now s))"
  using d.all_sorted [of "st_data s"] by (simp add: livePairs_def sorted_wrt_map sorted_wrt_filter)

lemma in_livePairs:
  "state_wf B s \<Longrightarrow> (k, v) \<in> set (livePairs B now s) \<longleftrightarrow> visible now (view B s) k = Some v"
  using get_visible [of s k now] by (auto simp: livePairs_def d.in_all stateGet_def split: option.splits if_splits)

lemma map_of_livePairs: "state_wf B s \<Longrightarrow> map_of (livePairs B now s) = visible now (view B s)"
  by (rule map_of_sorted_eqI [OF livePairs_sorted]) (rule in_livePairs)

end

interpretation std_trees: state_trees std_btype
  by (rule state_trees.intro) (rule std.btype_axioms)

section \<open>Properties\<close>

text \<open>
  C12. The invariant of the state: the deadline table mirrors the deadline map, deadlines belong
  to present keys and are positive, and every secondary index holds exactly the current pairs.
  A new state has it, and copying, setting and deleting keep it.
\<close>

theorem state_invariant:
  assumes "state_trees B"
  shows "state_wf B (newDBState B) \<and>
    (state_wf B s \<longrightarrow> state_wf B (stateCopy B s) \<and> state_wf B (stateSet B k v dl s) \<and>
       state_wf B (fst (stateDelete B k s)))"
  by (intro conjI impI state_trees.state_wf_new [OF assms] state_trees.state_wf_copy [OF assms]
      state_trees.state_wf_set [OF assms] state_trees.state_wf_delete [OF assms])

text \<open>
  C11. The state refines a map from keys to values with optional deadlines: under the abstraction
  \<open>view\<close> a set is a map update (with a deadline only when it is positive), a delete is a map
  removal that returns the old value, a copy changes nothing, and a read at time \<open>now\<close> returns
  the entry exactly when its deadline, if any, lies after \<open>now\<close>.
\<close>

theorem state_refines_map:
  assumes "state_trees B" "state_wf B s"
  shows "view B (newDBState B) = Map.empty \<and> view B (stateCopy B s) = view B s \<and>
    view B (stateSet B k v dl s) = (view B s)(k \<mapsto> (v, if 0 < dl then Some dl else None)) \<and>
    view B (fst (stateDelete B k s)) = (view B s)(k := None) \<and>
    snd (stateDelete B k s) = map_option fst (view B s k) \<and>
    stateGet B k now s = (case view B s k of None \<Rightarrow> None | Some (v, None) \<Rightarrow> Some v
                          | Some (v, Some d) \<Rightarrow> if now < d then Some v else None)"
proof -
  note w = state_trees.get_visible [OF assms, of k now] state_trees.view_set [OF assms(1), of k v dl s]
    state_trees.view_delete [OF assms, of k]
  have "map_option fst (view B s k) = m_get (dataOps B) (st_data s) k"
    by (cases "m_get (dataOps B) (st_data s) k") (simp_all add: view_def)
  then show ?thesis using w state_trees.view_new [OF assms(1)] state_trees.view_copy [OF assms(1)]
      state_trees.get_stateDelete(3) [OF assms(1)]
    by (auto simp: visible_def dl_opt_def split: option.splits prod.splits)
qed

definition exState where
  "exState = stateSet std_btype (2::int) (20::int) 7 (stateSet std_btype 1 10 0 (newDBState std_btype))"

lemma exState_wf: "state_wf std_btype exState"
  unfolding exState_def by (intro std_trees.state_wf_set std_trees.state_wf_new)

theorem state_invariant_witness:
  "state_wf std_btype exState \<and> state_wf std_btype (fst (stateDelete std_btype 1 exState))"
  using state_invariant [OF std_trees.state_trees_axioms, of exState 1] exState_wf by blast

theorem state_refines_map_witness:
  "stateGet std_btype 2 6 exState = Some 20 \<and> stateGet std_btype 2 7 exState = None"
proof -
  have v: "view std_btype exState 2 = Some (20, Some 7)"
    unfolding exState_def by (simp add: std_trees.view_set dl_opt_def)
  show ?thesis
    using state_refines_map [OF std_trees.state_trees_axioms exState_wf, where k = 2 and now = 6]
      state_refines_map [OF std_trees.state_trees_axioms exState_wf, where k = 2 and now = 7]
    by (simp add: v)
qed

text \<open>
  C27. \<^verbatim>\<open>liveLen\<close> walks only the expired head of the deadline table, yet counts exactly the keys a
  reader at \<open>now\<close> can see; and it never exceeds the number of stored pairs.
\<close>

theorem liveLen_counts_visible:
  assumes "state_trees B" "state_wf B s"
  shows "liveLen B now s = int (card {k. stateGet B k now s \<noteq> None}) \<and>
    liveLen B now s \<le> int (m_len (dataOps B) (st_data s))"
proof -
  have eq: "{k. stateGet B k now s \<noteq> None} = dom (visible now (view B s))"
    using state_trees.get_visible [OF assms] by (auto simp: dom_def)
  have "finite (dom (m_get (dataOps B) (st_data s)))"
    using assms(1) btype_map.finite_dom [of "dataOps B"] by (simp add: state_trees_def btype_def)
  then have "card (dom (visible now (view B s))) \<le> card (dom (m_get (dataOps B) (st_data s)))"
    using state_trees.visible_dom [OF assms, of now] by (intro card_mono) auto
  moreover have "m_len (dataOps B) (st_data s) = card (dom (m_get (dataOps B) (st_data s)))"
    using assms(1) btype_map.len_dom [of "dataOps B"] by (simp add: state_trees_def btype_def)
  ultimately show ?thesis using state_trees.liveLen_card [OF assms, of now] eq by simp
qed

theorem liveLen_counts_visible_witness: "liveLen std_btype 7 exState = 1"
proof -
  have "{k. stateGet std_btype k 7 exState \<noteq> None} = {1}"
    using std_trees.get_visible [OF exState_wf]
    by (auto simp: exState_def visible_def std_trees.view_set std_trees.view_new dl_opt_def)
  then show ?thesis using liveLen_counts_visible [OF std_trees.state_trees_axioms exState_wf, of 7] by simp
qed

end
