(* ===== verification/Codec.thy ===== *)
theory Codec
  imports Prelude
begin

text \<open>
  The codecs of \<^verbatim>\<open>src/codec.go\<close>: a codec is a pair of functions between the values of a
  Go type and bytes, either of which may fail. The locale \<open>codec\<close> is the contract the
  log relies on (a decoder gets back what its encoder wrote); the built-in codecs satisfy
  it. \<^verbatim>\<open>JSONCodec\<close> wraps \<^verbatim>\<open>encoding/json\<close>, whose two functions are parameters.
\<close>

section \<open>Codecs\<close>

record 'a codec =
  Encode :: "'a \<Rightarrow> bytes result"
  Decode :: "bytes \<Rightarrow> 'a result"

text \<open>A Go string is a byte sequence; \<open>char\<close> is a byte.\<close>

definition byte_of_char :: "char \<Rightarrow> byte" where
  "byte_of_char c = word_of_nat (of_char c)"

definition char_of_byte :: "byte \<Rightarrow> char" where
  "char_of_byte b = char_of (unat b)"

definition StringCodec :: "string codec" where
  "StringCodec = \<lparr>Encode = (\<lambda>s. Inr (map byte_of_char s)),
                  Decode = (\<lambda>b. Inr (map char_of_byte b))\<rparr>"

definition BytesCodec :: "bytes codec" where
  "BytesCodec = \<lparr>Encode = (\<lambda>b. Inr b), Decode = (\<lambda>b. Inr b)\<rparr>"

definition Int64Codec :: "int codec" where
  "Int64Codec =
     \<lparr>Encode = (\<lambda>n. Inr (putUint64 (uint64_of_int64 n))),
      Decode = (\<lambda>b. if length b \<noteq> 8 then Inl (ErrNew ''invalid int64 encoding'')
                    else Inr (int64_of_uint64 (getUint64 b)))\<rparr>"

definition Uint64Codec :: "64 word codec" where
  "Uint64Codec =
     \<lparr>Encode = (\<lambda>n. Inr (putUint64 n)),
      Decode = (\<lambda>b. if length b \<noteq> 8 then Inl (ErrNew ''invalid uint64 encoding'')
                    else Inr (getUint64 b))\<rparr>"

definition JSONCodec :: "('a \<Rightarrow> bytes result) \<Rightarrow> (bytes \<Rightarrow> 'a result) \<Rightarrow> 'a codec" where
  "JSONCodec marshal unmarshal =
     \<lparr>Encode = marshal,
      Decode = (\<lambda>b. case unmarshal b of Inl e \<Rightarrow> Inl e | Inr v \<Rightarrow> Inr v)\<rparr>"

section \<open>The contract of a codec\<close>

text \<open>
  \<open>valid x\<close> says that \<open>x\<close> is a value of the Go type (an \<^verbatim>\<open>int64\<close> is an \<open>int\<close> in range).
\<close>

locale codec =
  fixes C :: "'a codec" and valid :: "'a \<Rightarrow> bool"
  assumes decode_encode: "valid x \<Longrightarrow> Encode C x = Inr b \<Longrightarrow> Decode C b = Inr x"
begin

lemma encode_inj: "valid x \<Longrightarrow> valid y \<Longrightarrow> Encode C x = Inr b \<Longrightarrow> Encode C y = Inr b \<Longrightarrow> x = y"
  by (metis decode_encode sum.inject(2))

end

lemma char_of_byte_of_char [simp]: "char_of_byte (byte_of_char c) = c"
proof -
  have "unat (word_of_nat (of_char c) :: byte) = of_char c" by (simp add: unat_of_nat)
  then show ?thesis by (simp add: char_of_byte_def byte_of_char_def)
qed

lemma byte_of_char_of_byte [simp]: "byte_of_char (char_of_byte b) = b"
proof -
  have "unat b < 256" using unsigned_less [of b, where ?'a = nat] by simp
  then show ?thesis by (simp add: char_of_byte_def byte_of_char_def)
qed

lemma byte_char_comp [simp]: "char_of_byte \<circ> byte_of_char = id" "byte_of_char \<circ> char_of_byte = id"
  by (simp_all add: fun_eq_iff)

interpretation string_codec: codec StringCodec "\<lambda>_. True"
  by unfold_locales (auto simp: StringCodec_def)

interpretation bytes_codec: codec BytesCodec "\<lambda>_. True"
  by unfold_locales (auto simp: BytesCodec_def)

interpretation int64_codec: codec Int64Codec int64_range
  by unfold_locales (auto simp: Int64Codec_def)

interpretation uint64_codec: codec Uint64Codec "\<lambda>_. True"
  by unfold_locales (auto simp: Uint64Codec_def)

text \<open>\<^verbatim>\<open>encoding/json\<close> decodes what it encoded: then \<^verbatim>\<open>JSONCodec\<close> meets the contract.\<close>

lemma codec_JSONCodec:
  assumes "\<And>x b. valid x \<Longrightarrow> marshal x = Inr b \<Longrightarrow> unmarshal b = Inr x"
  shows "codec (JSONCodec marshal unmarshal) valid"
  using assms by unfold_locales (simp add: JSONCodec_def)

section \<open>Properties\<close>


end
