(* ===== verification/Wal.thy ===== *)
theory Wal
  imports Prelude
begin

text \<open>
  The record layer of the write-ahead log, \<^verbatim>\<open>src/wal.go\<close>: framing (\<open>appendRecord\<close>),
  reading (\<open>readRecord\<close>), replay with its batch atomicity (\<open>replayLog\<close>) and the scan
  that tells a torn tail from mid-file corruption (\<open>scanForRecord\<close>). The log header is
  in theory \<open>Header\<close>, after the cipher it depends on.
\<close>

section \<open>Constants and records\<close>

definition opSet :: byte where [simp]: "opSet = 1"
definition opDelete :: byte where [simp]: "opDelete = 2"
definition opBatch :: byte where [simp]: "opBatch = 3"
definition opSetTTL :: byte where [simp]: "opSetTTL = 4"

definition recHeaderSize :: nat where [simp]: "recHeaderSize = 9"
definition recCRCSize :: nat where [simp]: "recCRCSize = 4"
definition ttlPrefixSize :: nat where [simp]: "ttlPrefixSize = 8"
definition maxPartLen :: nat where "maxPartLen = 2 ^ 30"

record walRecord =
  rec_op :: byte
  rec_key :: bytes
  rec_val :: bytes

definition prependDeadline :: "int \<Rightarrow> bytes \<Rightarrow> bytes" where
  "prependDeadline deadline v = putUint64 (uint64_of_int64 deadline) @ v"

text \<open>Lengths are written as \<^verbatim>\<open>uint32(len(...))\<close>, which wraps.\<close>

definition appendRecord :: "bytes \<Rightarrow> byte \<Rightarrow> bytes \<Rightarrow> bytes \<Rightarrow> bytes" where
  "appendRecord dst op key val =
     (let start = length dst;
          hdr = op # putUint32 (word_of_nat (length key)) @ putUint32 (word_of_nat (length val));
          dst = dst @ hdr @ key @ val
      in dst @ putUint32 (checksumIEEE (drop start dst)))"

section \<open>Reading\<close>

text \<open>
  A buffered reader: the bytes it will still deliver, and what ends them, the end of
  the file (\<open>None\<close>) or an I/O error. \<open>readFull\<close> is \<^verbatim>\<open>io.ReadFull\<close>: \<open>Inr None\<close> stands for
  \<^verbatim>\<open>io.EOF\<close> and \<^verbatim>\<open>io.ErrUnexpectedEOF\<close>, which its callers treat alike.
\<close>

record reader =
  rd_bytes :: bytes
  rd_end :: "goerr option"

definition readFull :: "nat \<Rightarrow> reader \<Rightarrow> (bytes \<times> reader) option result" where
  "readFull n r =
     (if n \<le> length (rd_bytes r)
      then Inr (Some (take n (rd_bytes r), r\<lparr>rd_bytes := drop n (rd_bytes r)\<rparr>))
      else case rd_end r of None \<Rightarrow> Inr None | Some e \<Rightarrow> Inl e)"

text \<open>
  \<open>Inr None\<close> is the source's \<^verbatim>\<open>ok = false\<close> (clean end, torn or corrupt record), \<open>Inl e\<close> its
  \<^verbatim>\<open>err\<close>, and \<open>Inr (Some (rec, size, r'))\<close> a record with the reader behind it.
\<close>

definition readRecord :: "reader \<Rightarrow> (walRecord \<times> nat \<times> reader) option result" where
  "readRecord br =
     (case readFull recHeaderSize br of
        Inl e \<Rightarrow> Inl e
      | Inr None \<Rightarrow> Inr None
      | Inr (Some (hdr, br1)) \<Rightarrow>
          (let op = hdr ! 0;
               klen = unat (getUint32 (drop 1 hdr));
               vlen = unat (getUint32 (drop 5 hdr))
           in if op < opSet \<or> opSetTTL < op \<or> maxPartLen < klen \<or> maxPartLen < vlen
              then Inr None
              else case readFull (klen + vlen + recCRCSize) br1 of
                  Inl e \<Rightarrow> Inl e
                | Inr None \<Rightarrow> Inr None
                | Inr (Some (body, br2)) \<Rightarrow>
                    (let wantCRC = getUint32 (drop (klen + vlen) body);
                         h = crc_write (crc_write 0 hdr) (take (klen + vlen) body)
                     in if h \<noteq> wantCRC then Inr None
                        else Inr (Some
                          (\<lparr>rec_op = op, rec_key = take klen body,
                            rec_val = take vlen (drop klen body)\<rparr>,
                           recHeaderSize + klen + vlen + recCRCSize, br2)))))"

section \<open>Replay\<close>

text \<open>
  The member loop of a batch (\<^verbatim>\<open>for range n\<close>). \<open>BatchTorn\<close> is the source's
  \<^verbatim>\<open>intact = false\<close>; every outcome carries \<^verbatim>\<open>parsed\<close>.
\<close>

datatype batchRead =
    BatchErr goerr nat
  | BatchTorn nat
  | BatchIntact "walRecord list" nat nat reader

fun readBatch :: "nat \<Rightarrow> reader \<Rightarrow> walRecord list \<Rightarrow> nat \<Rightarrow> nat \<Rightarrow> batchRead" where
  "readBatch n br batch tot parsed =
     (if n = 0 then BatchIntact batch tot parsed br
      else case readRecord br of
          Inl e \<Rightarrow> BatchErr e parsed
        | Inr None \<Rightarrow> BatchTorn parsed
        | Inr (Some (brec, bsize, br')) \<Rightarrow>
            if rec_op brec = opBatch then BatchTorn parsed
            else readBatch (n - 1) br' (batch @ [brec]) (tot + bsize) (parsed + bsize))"

declare readBatch.simps [simp del]

fun applyAll :: "('s \<Rightarrow> walRecord \<Rightarrow> 's result) \<Rightarrow> 's \<Rightarrow> walRecord list \<Rightarrow> 's result" where
  "applyAll ap s [] = Inr s"
| "applyAll ap s (r # rs) = (case ap s r of Inl e \<Rightarrow> Inl e | Inr s' \<Rightarrow> applyAll ap s' rs)"

lemma readFull_Some:
  "readFull n r = Inr (Some (b, r')) \<longleftrightarrow>
     length b = n \<and> rd_bytes r = b @ rd_bytes r' \<and> rd_end r' = rd_end r"
  by (cases r; cases r') (auto simp: readFull_def split: option.splits)

lemma readRecord_shrinks:
  "readRecord br = Inr (Some (rec, sz, br')) \<Longrightarrow> length (rd_bytes br') < length (rd_bytes br)"
  by (auto simp: readRecord_def readFull_Some Let_def split: sum.splits option.splits if_splits)

lemma readBatch_shrinks:
  "readBatch n br batch tot parsed = BatchIntact rs t p br' \<Longrightarrow>
     length (rd_bytes br') \<le> length (rd_bytes br)"
proof (induction n br batch tot parsed rule: readBatch.induct)
  case (1 n br batch tot parsed)
  show ?case
  proof (cases "n = 0")
    case True
    with "1.prems" show ?thesis by (subst (asm) readBatch.simps) simp
  next
    case False
    with "1.prems" obtain r k b where 2: "readRecord br = Inr (Some (r, k, b))"
        "\<not> rec_op r = opBatch"
        "readBatch (n - 1) b (batch @ [r]) (tot + k) (parsed + k) = BatchIntact rs t p br'"
      by (subst (asm) readBatch.simps) (auto split: if_splits sum.splits option.splits)
    from "1.IH" [OF False 2(1) refl refl refl 2(2,3)] readRecord_shrinks [OF 2(1)]
    show ?thesis by simp
  qed
qed

text \<open>
  The outer loop: the offsets past the last applied and the last well-framed record,
  the error if any, and the state. The source's \<^verbatim>\<open>state\<close> is dropped by \<^verbatim>\<open>Open\<close> when
  an error comes back, so the state returned with an error is immaterial.
\<close>

function replayLoop ::
    "('s \<Rightarrow> walRecord \<Rightarrow> 's result) \<Rightarrow> reader \<Rightarrow> nat \<Rightarrow> nat \<Rightarrow> 's
       \<Rightarrow> nat \<times> nat \<times> goerr option \<times> 's" where
  "replayLoop ap br off parsed s =
     (case readRecord br of
        Inl e \<Rightarrow> (off, parsed, Some e, s)
      | Inr None \<Rightarrow> (off, parsed, None, s)
      | Inr (Some (rec, sz, br')) \<Rightarrow>
          if rec_op rec \<noteq> opBatch
          then (case ap s rec of
                  Inl e \<Rightarrow> (off, parsed, Some e, s)
                | Inr s' \<Rightarrow> replayLoop ap br' (off + sz) (off + sz) s')
          else if length (rec_val rec) \<noteq> 8 then (off, off + sz, None, s)
          else case readBatch (unat (getUint64 (rec_val rec))) br' [] sz (off + sz) of
              BatchErr e p \<Rightarrow> (off, p, Some e, s)
            | BatchTorn p \<Rightarrow> (off, p, None, s)
            | BatchIntact batch tot p br'' \<Rightarrow>
                (case applyAll ap s batch of
                   Inl e \<Rightarrow> (off, p, Some e, s)
                 | Inr s' \<Rightarrow> replayLoop ap br'' (off + tot) (off + tot) s'))"
  by pat_completeness auto
termination
  by (relation "measure (\<lambda>(ap, br, off, parsed, s). length (rd_bytes br))")
    (fastforce dest: readRecord_shrinks readBatch_shrinks)+

declare replayLoop.simps [simp del]

definition replayLog ::
    "reader \<Rightarrow> ('s \<Rightarrow> walRecord \<Rightarrow> 's result) \<Rightarrow> 's \<Rightarrow> nat \<times> nat \<times> goerr option \<times> 's" where
  "replayLog r ap s = replayLoop ap r 0 0 s"

section \<open>The corruption scan\<close>

text \<open>The loop body's test at offset \<open>i\<close>, reached only when \<^verbatim>\<open>i+minRec <= len(data)\<close>.\<close>

definition intactAt :: "bytes \<Rightarrow> nat \<Rightarrow> bool" where
  "intactAt data i =
     (let op = data ! i;
          klen = unat (getUint32 (drop (i + 1) data));
          vlen = unat (getUint32 (drop (i + 5) data));
          stop = i + recHeaderSize + klen + vlen
      in \<not> (op < opSet \<or> opSetTTL < op) \<and> \<not> (maxPartLen < klen \<or> maxPartLen < vlen) \<and>
         \<not> length data < stop + recCRCSize \<and>
         checksumIEEE (take (stop - i) (drop i data)) = getUint32 (drop stop data))"

function scanFrom :: "bytes \<Rightarrow> nat \<Rightarrow> nat option" where
  "scanFrom data i =
     (if i + (recHeaderSize + recCRCSize) \<le> length data
      then (if intactAt data i then Some i else scanFrom data (i + 1))
      else None)"
  by pat_completeness auto
termination
  by (relation "measure (\<lambda>(data, i). length data - i)") auto

declare scanFrom.simps [simp del]

definition scanForRecord :: "bytes \<Rightarrow> nat option" where
  "scanForRecord data = scanFrom data 0"

section \<open>Framed records\<close>

definition frame :: "walRecord \<Rightarrow> bytes" where
  "frame r = appendRecord [] (rec_op r) (rec_key r) (rec_val r)"

definition frame_ok :: "walRecord \<Rightarrow> bool" where
  "frame_ok r \<longleftrightarrow> opSet \<le> rec_op r \<and> rec_op r \<le> opSetTTL \<and>
     length (rec_key r) \<le> maxPartLen \<and> length (rec_val r) \<le> maxPartLen"

definition rec_head :: "walRecord \<Rightarrow> bytes" where
  "rec_head r = rec_op r # putUint32 (word_of_nat (length (rec_key r)))
                  @ putUint32 (word_of_nat (length (rec_val r)))"

lemma length_rec_head [simp, frame_simps]: "length (rec_head r) = 9"
  by (simp add: rec_head_def)

lemma frame_split:
  "frame r = rec_head r @ rec_key r @ rec_val r
               @ putUint32 (checksumIEEE (rec_head r @ rec_key r @ rec_val r))"
  by (simp add: frame_def appendRecord_def rec_head_def Let_def)

lemma appendRecord_frame:
  "appendRecord dst op k v = dst @ frame \<lparr>rec_op = op, rec_key = k, rec_val = v\<rparr>"
  by (simp add: frame_def appendRecord_def Let_def)

lemma length_frame [simp, frame_simps]:
  "length (frame r) = 13 + length (rec_key r) + length (rec_val r)"
  by (simp add: frame_split)

lemma frame_nonempty [simp]: "frame r \<noteq> []"
  by (simp add: frame_split rec_head_def)

lemma unat_part_len: "n \<le> maxPartLen \<Longrightarrow> unat (word_of_nat n :: 32 word) = n"
  by (simp add: maxPartLen_def unat_of_nat)

lemma rec_head_fields:
  "rec_head r ! 0 = rec_op r"
  "getUint32 (drop 1 (rec_head r)) = word_of_nat (length (rec_key r))"
  "getUint32 (drop 5 (rec_head r)) = word_of_nat (length (rec_val r))"
  by (simp_all add: rec_head_def)

lemma readFull_append:
  "length xs = n \<Longrightarrow> readFull n \<lparr>rd_bytes = xs @ ys, rd_end = e\<rparr> = Inr (Some (xs, \<lparr>rd_bytes = ys, rd_end = e\<rparr>))"
  by (simp add: readFull_def)

lemma readFull_short:
  "length xs < n \<Longrightarrow> readFull n \<lparr>rd_bytes = xs, rd_end = None\<rparr> = Inr None"
  by (simp add: readFull_def)

lemma readRecord_frame:
  assumes "frame_ok r"
  shows "readRecord \<lparr>rd_bytes = frame r @ rest, rd_end = e\<rparr> =
     Inr (Some (r, length (frame r), \<lparr>rd_bytes = rest, rd_end = e\<rparr>))"
proof -
  let ?kv = "rec_key r @ rec_val r"
  let ?body = "?kv @ putUint32 (checksumIEEE (rec_head r @ ?kv))"
  have lens: "unat (word_of_nat (length (rec_key r)) :: 32 word) = length (rec_key r)"
    "unat (word_of_nat (length (rec_val r)) :: 32 word) = length (rec_val r)"
    using assms by (simp_all add: frame_ok_def unat_part_len)
  have 1: "readFull 9 \<lparr>rd_bytes = frame r @ rest, rd_end = e\<rparr> =
      Inr (Some (rec_head r, \<lparr>rd_bytes = ?body @ rest, rd_end = e\<rparr>))"
    by (simp add: frame_split readFull_append)
  have 2: "readFull (length (rec_key r) + length (rec_val r) + 4) \<lparr>rd_bytes = ?body @ rest, rd_end = e\<rparr> =
      Inr (Some (?body, \<lparr>rd_bytes = rest, rd_end = e\<rparr>))"
    by (rule readFull_append) simp
  have ok: "\<not> (rec_op r < 1 \<or> 4 < rec_op r \<or> maxPartLen < length (rec_key r) \<or> maxPartLen < length (rec_val r))"
    using assms by (auto simp: frame_ok_def)
  show ?thesis
    unfolding readRecord_def recHeaderSize_def recCRCSize_def 1 sum.case option.case prod.case
      rec_head_fields lens Let_def 2 opSet_def opSetTTL_def if_not_P [OF ok]
    by (simp add: checksumIEEE_def frame_split)
qed


lemma getUint32_take: "getUint32 (take 4 bs) = getUint32 bs"
  by (cases bs rule: getUint32.cases) (auto simp: numeral_eq_Suc)

lemma readRecord_sound:
  assumes "readRecord br = Inr (Some (r, n, br'))"
  shows "rd_bytes br = frame r @ rd_bytes br'" "rd_end br' = rd_end br"
    "n = length (frame r)" "frame_ok r"
proof -
  from assms obtain hdr br1 where 1: "readFull 9 br = Inr (Some (hdr, br1))"
    by (auto simp: readRecord_def split: sum.splits option.splits)
  let ?op = "hdr ! 0" and ?kl = "unat (getUint32 (drop 1 hdr))" and ?vl = "unat (getUint32 (drop 5 hdr))"
  from assms 1 obtain body where
      2: "readFull (?kl + ?vl + 4) br1 = Inr (Some (body, br'))"
    and ok: "\<not> (?op < 1 \<or> 4 < ?op \<or> maxPartLen < ?kl \<or> maxPartLen < ?vl)"
    and crc: "checksumIEEE (hdr @ take (?kl + ?vl) body) = getUint32 (drop (?kl + ?vl) body)"
    and r: "r = \<lparr>rec_op = ?op, rec_key = take ?kl body, rec_val = take ?vl (drop ?kl body)\<rparr>"
    and n: "n = 13 + ?kl + ?vl"
    by (auto simp: readRecord_def Let_def checksumIEEE_def split: sum.splits option.splits if_splits)
  from 1 2 have lh: "length hdr = 9" and lb: "length body = ?kl + ?vl + 4"
    and bytes: "rd_bytes br = hdr @ body @ rd_bytes br'" and "rd_end br' = rd_end br"
    by (auto simp: readFull_Some)
  then show "rd_end br' = rd_end br" by simp
  have kv: "length (rec_key r) = ?kl" "length (rec_val r) = ?vl" using lb by (simp_all add: r)
  have hd: "rec_head r = hdr"
  proof -
    obtain a h where h: "hdr = a # h" "length h = 8" using lh by (cases hdr) auto
    then have "rec_head r = a # putUint32 (getUint32 (take 4 h)) @ putUint32 (getUint32 (drop 4 h))"
      by (simp add: rec_head_def kv getUint32_take) (simp add: r)
    with h show ?thesis by (simp add: putUint32_get)
  qed
  have kvt: "take (?kl + ?vl) body = rec_key r @ rec_val r"
    by (simp add: r take_add)
  have dr: "putUint32 (getUint32 (drop (?kl + ?vl) body)) = drop (?kl + ?vl) body"
    using lb by (simp add: putUint32_get)
  have "frame r = hdr @ take (?kl + ?vl) body @ drop (?kl + ?vl) body"
    using crc by (simp only: frame_split hd kvt dr append_assoc)
  then show "rd_bytes br = frame r @ rd_bytes br'"
    using bytes by simp
  show "n = length (frame r)" by (simp add: n kv)
  have "1 \<le> ?op" "?op \<le> 4" using ok by (meson not_less)+
  then show "frame_ok r" using ok kv by (simp add: frame_ok_def) (simp add: r)
qed


text \<open>A frame cut short is never read as a record.\<close>

lemma readRecord_torn:
  assumes "frame_ok r" "n < length (frame r)"
  shows "readRecord \<lparr>rd_bytes = take n (frame r), rd_end = None\<rparr> = Inr None"
proof (rule ccontr)
  let ?br = "\<lparr>rd_bytes = take n (frame r), rd_end = None\<rparr>"
  assume "readRecord ?br \<noteq> Inr None"
  moreover have "\<nexists>e. readRecord ?br = Inl e"
    by (auto simp: readRecord_def readFull_def Let_def split: sum.splits option.splits if_splits)
  ultimately obtain r' m br' where rr: "readRecord ?br = Inr (Some (r', m, br'))"
    by (cases "readRecord ?br") auto
  from readRecord_sound [OF this] have pre: "take n (frame r) = frame r' @ rd_bytes br'" and ok: "frame_ok r'"
    by simp_all
  then have "frame r = frame r' @ rd_bytes br' @ drop n (frame r)"
    by (metis append_assoc append_take_drop_id)
  then have "readRecord \<lparr>rd_bytes = frame r @ [], rd_end = None\<rparr> =
      Inr (Some (r', length (frame r'), \<lparr>rd_bytes = rd_bytes br' @ drop n (frame r), rd_end = None\<rparr>))"
    using readRecord_frame [OF ok, of "rd_bytes br' @ drop n (frame r)" None]
    by (simp only: append_Nil2)
  with readRecord_frame [OF assms(1), of "[]"] have "rd_bytes br' @ drop n (frame r) = []"
    by simp
  with assms(2) show False by simp
qed

lemma readRecord_iff:
  "readRecord br = Inr (Some (r, n, br')) \<longleftrightarrow>
     frame_ok r \<and> rd_bytes br = frame r @ rd_bytes br' \<and> rd_end br' = rd_end br \<and>
     n = length (frame r)"
  (is "?l \<longleftrightarrow> ?r")
proof
  assume ?l
  from readRecord_sound [OF this] show ?r by blast
next
  assume ?r
  then show ?l
    using readRecord_frame [of r "rd_bytes br'" "rd_end br'"] by (cases br; cases br') simp
qed

section \<open>Logs as sequences of items\<close>

text \<open>
  What replay accepts: single records and batches. A batch is a header record (the code does
  not look at its key) whose value is the member count, followed by the members.
\<close>

datatype logItem = Single walRecord | Batch bytes "walRecord list"

definition batchHead :: "bytes \<Rightarrow> nat \<Rightarrow> walRecord" where
  "batchHead k n = \<lparr>rec_op = opBatch, rec_key = k, rec_val = putUint64 (word_of_nat n)\<rparr>"

abbreviation frames :: "walRecord list \<Rightarrow> bytes" where
  "frames rs \<equiv> concat (map frame rs)"

definition member_ok :: "walRecord \<Rightarrow> bool" where
  "member_ok r \<longleftrightarrow> frame_ok r \<and> rec_op r \<noteq> opBatch"

fun item_ok :: "logItem \<Rightarrow> bool" where
  "item_ok (Single r) = member_ok r"
| "item_ok (Batch k rs) = (length k \<le> maxPartLen \<and> length rs < 2 ^ 64 \<and> list_all member_ok rs)"

fun itemBytes :: "logItem \<Rightarrow> bytes" where
  "itemBytes (Single r) = frame r"
| "itemBytes (Batch k rs) = frame (batchHead k (length rs)) @ frames rs"

fun itemRecs :: "logItem \<Rightarrow> walRecord list" where
  "itemRecs (Single r) = [r]"
| "itemRecs (Batch k rs) = rs"

abbreviation logBytes :: "logItem list \<Rightarrow> bytes" where
  "logBytes its \<equiv> concat (map itemBytes its)"

abbreviation logRecs :: "logItem list \<Rightarrow> walRecord list" where
  "logRecs its \<equiv> concat (map itemRecs its)"

lemma applyAll_append:
  "applyAll ap s (rs @ rs') = (case applyAll ap s rs of Inl e \<Rightarrow> Inl e | Inr s' \<Rightarrow> applyAll ap s' rs')"
  by (induction rs arbitrary: s) (auto split: sum.splits)

lemma frame_ok_batchHead [simp]: "frame_ok (batchHead k n) \<longleftrightarrow> length k \<le> maxPartLen"
  by (auto simp: frame_ok_def batchHead_def maxPartLen_def)

lemma batchHead_sel [simp]:
  "rec_op (batchHead k n) = opBatch" "rec_key (batchHead k n) = k"
  "rec_val (batchHead k n) = putUint64 (word_of_nat n)"
  by (simp_all add: batchHead_def)

lemma unat_count: "n < 2 ^ 64 \<Longrightarrow> unat (getUint64 (putUint64 (word_of_nat n))) = n"
  by (simp add: unat_of_nat)

lemma itemBytes_nonempty [simp]: "itemBytes it \<noteq> []"
  by (cases it) simp_all

subsection \<open>Reading the members of a batch\<close>

lemma readBatch_Suc:
  assumes "member_ok r"
  shows "readBatch (Suc n) \<lparr>rd_bytes = frame r @ bs, rd_end = e\<rparr> batch tot p =
    readBatch n \<lparr>rd_bytes = bs, rd_end = e\<rparr> (batch @ [r]) (tot + length (frame r)) (p + length (frame r))"
  using assms readRecord_frame [of r bs e]
  by (subst readBatch.simps) (simp add: member_ok_def)

lemma readBatch_frames:
  "list_all member_ok rs \<Longrightarrow>
   readBatch (length rs + m) \<lparr>rd_bytes = frames rs @ rest, rd_end = e\<rparr> batch tot p =
   readBatch m \<lparr>rd_bytes = rest, rd_end = e\<rparr> (batch @ rs) (tot + length (frames rs)) (p + length (frames rs))"
  by (induction rs arbitrary: batch tot p) (simp_all add: readBatch_Suc add.assoc del: length_frame)

lemma readBatch_0 [simp]: "readBatch 0 br batch tot p = BatchIntact batch tot p br"
  by (subst readBatch.simps) simp

lemma readBatch_all:
  "list_all member_ok rs \<Longrightarrow>
   readBatch (length rs) \<lparr>rd_bytes = frames rs @ rest, rd_end = e\<rparr> batch tot p =
   BatchIntact (batch @ rs) (tot + length (frames rs)) (p + length (frames rs)) \<lparr>rd_bytes = rest, rd_end = e\<rparr>"
  using readBatch_frames [of rs 0 rest e batch tot p] by (simp del: length_frame)

lemma readBatch_torn:
  assumes "list_all member_ok rs" "k < length (frames rs)"
  shows "\<exists>j m. j < length rs \<and> m < length (frame (rs ! j)) \<and>
     take k (frames rs) = frames (take j rs) @ take m (frame (rs ! j)) \<and>
     readBatch (length rs) \<lparr>rd_bytes = take k (frames rs), rd_end = None\<rparr> batch tot p =
       BatchTorn (p + length (frames (take j rs)))"
  using assms
proof (induction rs arbitrary: k batch tot p)
  case Nil
  then show ?case by simp
next
  case (Cons r rs)
  show ?case
  proof (cases "k < length (frame r)")
    case True
    then have "readRecord \<lparr>rd_bytes = take k (frames (r # rs)), rd_end = None\<rparr> = Inr None"
      using Cons.prems readRecord_torn [of r k] by (simp add: member_ok_def del: length_frame)
    then show ?thesis using True
      by (intro exI [of _ 0] exI [of _ k]) (subst readBatch.simps, simp del: length_frame)
  next
    case False
    let ?k = "k - length (frame r)"
    from False Cons.prems have t: "take k (frames (r # rs)) = frame r @ take ?k (frames rs)"
      and "?k < length (frames rs)" "list_all member_ok rs" "member_ok r"
      by (simp_all del: length_frame)
    from Cons.IH [OF this(3,2), of "batch @ [r]" "tot + length (frame r)" "p + length (frame r)"]
    obtain j m where j: "j < length rs" "m < length (frame (rs ! j))"
       "take ?k (frames rs) = frames (take j rs) @ take m (frame (rs ! j))"
       "readBatch (length rs) \<lparr>rd_bytes = take ?k (frames rs), rd_end = None\<rparr> (batch @ [r])
          (tot + length (frame r)) (p + length (frame r)) =
        BatchTorn (p + length (frame r) + length (frames (take j rs)))"
      by blast
    then show ?thesis
      unfolding t
      by (intro exI [of _ "Suc j"] exI [of _ m])
        (simp add: readBatch_Suc [OF \<open>member_ok r\<close>] add.assoc del: length_frame)
  qed
qed

lemma readBatch_sound:
  assumes "readBatch n br batch tot p = BatchIntact rs t q br'"
  shows "\<exists>ms. rs = batch @ ms \<and> length ms = n \<and> list_all member_ok ms \<and>
     rd_bytes br = frames ms @ rd_bytes br' \<and> rd_end br' = rd_end br \<and>
     t = tot + length (frames ms) \<and> q = p + length (frames ms)"
  using assms
proof (induction n arbitrary: br batch tot p)
  case 0
  then show ?case by simp
next
  case (Suc n)
  from Suc.prems obtain r k b where 1: "readRecord br = Inr (Some (r, k, b))" "rec_op r \<noteq> opBatch"
      "readBatch n b (batch @ [r]) (tot + k) (p + k) = BatchIntact rs t q br'"
    by (subst (asm) readBatch.simps) (auto split: if_splits sum.splits option.splits)
  from readRecord_sound [OF 1(1)] 1(2) have b: "rd_bytes br = frame r @ rd_bytes b"
      "rd_end b = rd_end br" "k = length (frame r)" "member_ok r"
    by (simp_all add: member_ok_def)
  from Suc.IH [OF 1(3)] obtain ms where ms: "rs = (batch @ [r]) @ ms" "length ms = n" "list_all member_ok ms"
     "rd_bytes b = frames ms @ rd_bytes br'" "rd_end br' = rd_end b"
     "t = tot + k + length (frames ms)" "q = p + k + length (frames ms)"
    by blast
  then show ?case using b by (intro exI [of _ "r # ms"]) (simp del: length_frame)
qed

lemma readBatch_parsed:
  "(\<exists>e. readBatch n br batch tot p = BatchErr e q) \<or> readBatch n br batch tot p = BatchTorn q \<Longrightarrow>
   p \<le> q \<and> q \<le> p + length (rd_bytes br)"
proof (induction n arbitrary: br batch tot p)
  case 0
  then show ?case by simp
next
  case (Suc n)
  show ?case
  proof (cases "\<exists>r k b. readRecord br = Inr (Some (r, k, b)) \<and> rec_op r \<noteq> opBatch")
    case True
    then obtain r k b where 1: "readRecord br = Inr (Some (r, k, b))" "rec_op r \<noteq> opBatch" by blast
    from Suc.prems 1 have "p + k \<le> q \<and> q \<le> p + k + length (rd_bytes b)"
      by (intro Suc.IH) (subst (asm) (1 2) readBatch.simps, simp)
    with readRecord_sound [OF 1(1)] show ?thesis by (simp del: length_frame)
  next
    case False
    with Suc.prems show ?thesis
      by (subst (asm) (1 2) readBatch.simps) (auto split: if_splits sum.splits option.splits)
  qed
qed

subsection \<open>Replaying items\<close>

lemma replayLoop_item:
  assumes "item_ok it" "applyAll ap s (itemRecs it) = Inr s'"
  shows "replayLoop ap \<lparr>rd_bytes = itemBytes it @ rest, rd_end = e\<rparr> off parsed s =
     replayLoop ap \<lparr>rd_bytes = rest, rd_end = e\<rparr> (off + length (itemBytes it)) (off + length (itemBytes it)) s'"
proof (cases it)
  case (Single r)
  with assms show ?thesis using readRecord_frame [of r rest e]
    by (subst replayLoop.simps) (simp add: member_ok_def del: length_frame split: sum.splits)
next
  case (Batch k rs)
  let ?h = "batchHead k (length rs)"
  from assms Batch have rr: "readRecord \<lparr>rd_bytes = frame ?h @ frames rs @ rest, rd_end = e\<rparr> =
      Inr (Some (?h, length (frame ?h), \<lparr>rd_bytes = frames rs @ rest, rd_end = e\<rparr>))"
    by (intro readRecord_frame) simp
  from assms Batch show ?thesis
    by (subst replayLoop.simps)
      (simp add: rr unat_count [of "length rs", simplified] readBatch_all add.assoc del: length_frame)
qed

lemma replayLoop_items:
  "list_all item_ok its \<Longrightarrow> applyAll ap s (logRecs its) = Inr s' \<Longrightarrow>
   replayLoop ap \<lparr>rd_bytes = logBytes its @ rest, rd_end = e\<rparr> off off s =
   replayLoop ap \<lparr>rd_bytes = rest, rd_end = e\<rparr> (off + length (logBytes its)) (off + length (logBytes its)) s'"
proof (induction its arbitrary: off s)
  case Nil
  then show ?case by simp
next
  case (Cons it its)
  from Cons.prems obtain s1 where s1: "applyAll ap s (itemRecs it) = Inr s1"
      "applyAll ap s1 (logRecs its) = Inr s'"
    by (auto simp: applyAll_append split: sum.splits)
  with Cons show ?case
    by (simp add: replayLoop_item [where s' = s1] add.assoc)
qed

lemma replayLoop_stop:
  "readRecord br = Inr None \<Longrightarrow> replayLoop ap br off parsed s = (off, parsed, None, s)"
  by (subst replayLoop.simps) simp

lemma readRecord_empty [simp]: "readRecord \<lparr>rd_bytes = [], rd_end = None\<rparr> = Inr None"
  by (simp add: readRecord_def readFull_def)

text \<open>
  An item cut short applies nothing. What is left past the parsed offset is a strict prefix
  of one of the item's frames.
\<close>

lemma replayLoop_torn:
  assumes "item_ok it" "n < length (itemBytes it)"
  shows "\<exists>p f m. replayLoop ap \<lparr>rd_bytes = take n (itemBytes it), rd_end = None\<rparr> off off s =
       (off, off + p, None, s) \<and> p \<le> n \<and> frame_ok f \<and> m < length (frame f) \<and>
     drop p (take n (itemBytes it)) = take m (frame f)"
proof (cases it)
  case (Single r)
  with assms have "readRecord \<lparr>rd_bytes = take n (itemBytes it), rd_end = None\<rparr> = Inr None" "frame_ok r"
    by (simp_all add: readRecord_torn member_ok_def del: length_frame)
  then show ?thesis using assms Single
    by (intro exI [of _ 0] exI [of _ r] exI [of _ n]) (simp add: replayLoop_stop del: length_frame)
next
  case (Batch k rs)
  let ?h = "batchHead k (length rs)"
  have h: "frame_ok ?h" using assms Batch by simp
  show ?thesis
  proof (cases "n < length (frame ?h)")
    case True
    with h have "readRecord \<lparr>rd_bytes = take n (itemBytes it), rd_end = None\<rparr> = Inr None"
      by (simp add: Batch readRecord_torn del: length_frame)
    then show ?thesis using True Batch h
      by (intro exI [of _ 0] exI [of _ ?h] exI [of _ n]) (simp add: replayLoop_stop del: length_frame)
  next
    case False
    let ?k = "n - length (frame ?h)"
    have t: "take n (itemBytes it) = frame ?h @ take ?k (frames rs)"
      using False Batch by (simp del: length_frame)
    have rs: "list_all member_ok rs" "?k < length (frames rs)" "length rs < 2 ^ 64"
      using assms False Batch by (simp_all del: length_frame)
    from readBatch_torn [OF rs(1,2), of "[]" "length (frame ?h)" "off + length (frame ?h)"]
    obtain j m where j: "j < length rs" "m < length (frame (rs ! j))"
        "take ?k (frames rs) = frames (take j rs) @ take m (frame (rs ! j))"
        "readBatch (length rs) \<lparr>rd_bytes = take ?k (frames rs), rd_end = None\<rparr> [] (length (frame ?h))
           (off + length (frame ?h)) = BatchTorn (off + length (frame ?h) + length (frames (take j rs)))"
      by blast
    have "frame_ok (rs ! j)" using j(1) rs(1) by (simp add: list_all_length member_ok_def)
    moreover have "length (frame ?h) + length (frames (take j rs)) \<le> n"
      using False arg_cong [OF j(3), of length] by (simp del: length_frame)
    moreover have "replayLoop ap \<lparr>rd_bytes = take n (itemBytes it), rd_end = None\<rparr> off off s =
        (off, off + (length (frame ?h) + length (frames (take j rs))), None, s)"
      using j(4) readRecord_frame [OF h, of "take ?k (frames rs)" None] unfolding t
      by (subst replayLoop.simps)
        (simp add: unat_count [OF rs(3), simplified] add.assoc del: length_frame)
    ultimately show ?thesis using j(2,3) t
      by (intro exI [of _ "length (frame ?h) + length (frames (take j rs))"] exI [of _ "rs ! j"] exI [of _ m])
        (simp del: length_frame)
  qed
qed

text \<open>How many items lie entirely within the first \<open>n\<close> bytes.\<close>

fun wholeItems :: "nat \<Rightarrow> logItem list \<Rightarrow> nat" where
  "wholeItems n [] = 0"
| "wholeItems n (it # its) =
     (if length (itemBytes it) \<le> n then Suc (wholeItems (n - length (itemBytes it)) its) else 0)"

lemma wholeItems_le: "wholeItems n its \<le> length its"
  by (induction its arbitrary: n) auto

lemma wholeItems_split:
  assumes "n \<le> length (logBytes its)"
  shows "take n (logBytes its) = logBytes (take (wholeItems n its) its) \<or>
    (\<exists>m. wholeItems n its < length its \<and> m < length (itemBytes (its ! wholeItems n its)) \<and>
       take n (logBytes its) = logBytes (take (wholeItems n its) its) @ take m (itemBytes (its ! wholeItems n its)))"
  using assms
proof (induction its arbitrary: n)
  case Nil
  then show ?case by simp
next
  case (Cons it its)
  show ?case
  proof (cases "length (itemBytes it) \<le> n")
    case True
    with Cons.prems have "n - length (itemBytes it) \<le> length (logBytes its)" by simp
    from Cons.IH [OF this] True show ?thesis by auto
  next
    case False
    then show ?thesis by (intro disjI2 exI [of _ n]) auto
  qed
qed

text \<open>Recovery from any prefix of a log: whole items are applied, the cut one leaves no trace.\<close>

lemma replayLog_prefix:
  assumes "list_all item_ok its" "n \<le> length (logBytes its)"
    and "applyAll ap s (logRecs (take (wholeItems n its) its)) = Inr s'"
  shows "\<exists>p f m. replayLog \<lparr>rd_bytes = take n (logBytes its), rd_end = None\<rparr> ap s =
      (length (logBytes (take (wholeItems n its) its)), p, None, s') \<and>
     length (logBytes (take (wholeItems n its) its)) \<le> p \<and> p \<le> n \<and>
     frame_ok f \<and> m < length (frame f) \<and> drop p (take n (logBytes its)) = take m (frame f)"
proof -
  let ?j = "wholeItems n its"
  have ok: "list_all item_ok (take ?j its)" using assms(1) by (auto simp: list_all_iff dest: in_set_takeD)
  let ?off = "length (logBytes (take ?j its))"
  have run: "replayLog \<lparr>rd_bytes = logBytes (take ?j its) @ rest, rd_end = None\<rparr> ap s =
      replayLoop ap \<lparr>rd_bytes = rest, rd_end = None\<rparr> ?off ?off s'" for rest
    using replayLoop_items [OF ok assms(3), of rest None 0] by (simp add: replayLog_def)
  from wholeItems_split [OF assms(2)] show ?thesis
  proof (elim disjE exE conjE)
    assume t: "take n (logBytes its) = logBytes (take ?j its)"
    then have "length (take n (logBytes its)) = ?off" by simp
    then have "n = ?off" using assms(2) by simp
    then show ?thesis using run [of "[]"] t
      by (intro exI [of _ ?off] exI [of _ "batchHead [] 0"] exI [of _ 0]) (simp add: replayLoop_stop)
  next
    fix m assume j: "?j < length its" and m: "m < length (itemBytes (its ! ?j))"
      and t: "take n (logBytes its) = logBytes (take ?j its) @ take m (itemBytes (its ! ?j))"
    have "item_ok (its ! ?j)" using assms(1) j by (simp add: list_all_length)
    from replayLoop_torn [OF this m, of ap ?off s'] obtain p f k where
      p: "replayLoop ap \<lparr>rd_bytes = take m (itemBytes (its ! ?j)), rd_end = None\<rparr> ?off ?off s' =
          (?off, ?off + p, None, s')" "p \<le> m" "frame_ok f" "k < length (frame f)"
         "drop p (take m (itemBytes (its ! ?j))) = take k (frame f)" by blast
    have "n = ?off + m" using arg_cong [OF t, of length] assms(2) m by simp
    then show ?thesis using p run [of "take m (itemBytes (its ! ?j))"] unfolding t
      by (intro exI [of _ "?off + p"] exI [of _ f] exI [of _ k]) (simp del: length_frame)
  qed
qed

subsection \<open>Replay of arbitrary bytes\<close>

text \<open>Bytes that start with no item that replay would accept.\<close>

definition no_item :: "bytes \<Rightarrow> bool" where
  "no_item bs \<longleftrightarrow> (\<nexists>it rest. item_ok it \<and> bs = itemBytes it @ rest)"

lemma starts_item:
  assumes "item_ok it" "rd_bytes br = itemBytes it @ rest"
  shows "(\<exists>r k b. readRecord br = Inr (Some (r, k, b)) \<and> rec_op r \<noteq> opBatch) \<or>
    (\<exists>r k b. readRecord br = Inr (Some (r, k, b)) \<and> rec_op r = opBatch \<and> length (rec_val r) = 8 \<and>
       (\<forall>q. \<exists>ms t p' b'. readBatch (unat (getUint64 (rec_val r))) b [] k q = BatchIntact ms t p' b'))"
proof (cases it)
  case (Single r)
  then show ?thesis using assms readRecord_frame [of r rest "rd_end br"]
    by (intro disjI1) (cases br, auto simp: member_ok_def)
next
  case (Batch k rs)
  let ?h = "batchHead k (length rs)"
  have "readRecord br = Inr (Some (?h, length (frame ?h), \<lparr>rd_bytes = frames rs @ rest, rd_end = rd_end br\<rparr>))"
    using assms Batch readRecord_frame [of ?h "frames rs @ rest" "rd_end br"] by (cases br) simp
  then show ?thesis using assms Batch
    by (intro disjI2) (simp add: unat_count [of "length rs", simplified] readBatch_all del: length_frame)
qed

lemma no_itemI:
  assumes "\<And>r k b. readRecord br = Inr (Some (r, k, b)) \<Longrightarrow> rec_op r = opBatch"
    and "\<And>r k b. readRecord br = Inr (Some (r, k, b)) \<Longrightarrow> length (rec_val r) \<noteq> 8 \<or>
      (\<exists>q. \<forall>ms t p' b'. readBatch (unat (getUint64 (rec_val r))) b [] k q \<noteq> BatchIntact ms t p' b')"
  shows "no_item (rd_bytes br)"
  unfolding no_item_def
proof (intro notI, elim exE conjE)
  fix it rest assume "item_ok it" "rd_bytes br = itemBytes it @ rest"
  from starts_item [OF this] show False
  proof (elim disjE exE conjE)
    fix r k b assume "readRecord br = Inr (Some (r, k, b))" "rec_op r \<noteq> opBatch"
    with assms(1) show False by blast
  next
    fix r k b assume r: "readRecord br = Inr (Some (r, k, b))" and "length (rec_val r) = 8"
      and "\<forall>q. \<exists>ms t p' b'. readBatch (unat (getUint64 (rec_val r))) b [] k q = BatchIntact ms t p' b'"
    with assms(2) [OF r] show False by metis
  qed
qed

lemma batchHead_eq:
  "rec_op r = opBatch \<Longrightarrow> length (rec_val r) = 8 \<Longrightarrow>
   r = batchHead (rec_key r) (unat (getUint64 (rec_val r)))"
  by (cases r) (simp add: batchHead_def putUint64_get)

text \<open>One round of the loop either stops in front of no item or an error, or consumes one item.\<close>

definition replay_stops ::
    "reader \<Rightarrow> nat \<Rightarrow> 's \<Rightarrow> nat \<Rightarrow> nat \<Rightarrow> goerr option \<Rightarrow> 's \<Rightarrow> bool" where
  "replay_stops br off s v p e s' \<longleftrightarrow>
     v = off \<and> off \<le> p \<and> p \<le> off + length (rd_bytes br) \<and> s' = s \<and> (e = None \<longrightarrow> no_item (rd_bytes br))"

definition replay_consumes ::
    "('s \<Rightarrow> walRecord \<Rightarrow> 's result) \<Rightarrow> reader \<Rightarrow> nat \<Rightarrow> 's \<Rightarrow> nat \<times> nat \<times> goerr option \<times> 's \<Rightarrow> bool" where
  "replay_consumes ap br off s res \<longleftrightarrow>
     (\<exists>it b s1. item_ok it \<and> rd_bytes br = itemBytes it @ rd_bytes b \<and> applyAll ap s (itemRecs it) = Inr s1 \<and>
        replayLoop ap b (off + length (itemBytes it)) (off + length (itemBytes it)) s1 = res)"

lemma replayLoop_batch:
  assumes r: "readRecord br = Inr (Some (r, k, b))" and op: "rec_op r = opBatch" and 8: "length (rec_val r) = 8"
    and run: "replayLoop ap br off off s = (v, p, e, s')"
  shows "replay_stops br off s v p e s' \<or> replay_consumes ap br off s (v, p, e, s')"
proof -
  note b = readRecord_sound [OF r]
  let ?n = "unat (getUint64 (rec_val r))"
  have eq: "(v, p, e, s') = (case readBatch ?n b [] k (off + k) of
        BatchErr e p \<Rightarrow> (off, p, Some e, s) | BatchTorn p \<Rightarrow> (off, p, None, s)
      | BatchIntact batch tot p br'' \<Rightarrow>
          (case applyAll ap s batch of Inl e \<Rightarrow> (off, p, Some e, s)
           | Inr s' \<Rightarrow> replayLoop ap br'' (off + tot) (off + tot) s'))"
    using run r op 8 by (subst (asm) replayLoop.simps) simp
  show ?thesis
  proof (cases "readBatch ?n b [] k (off + k)")
    case (BatchErr e' q)
    with readBatch_parsed [of ?n b "[]" k "off + k" q] eq b show ?thesis
      by (intro disjI1) (auto simp: replay_stops_def simp del: length_frame)
  next
    case (BatchTorn q)
    with r op have "no_item (rd_bytes br)" by (intro no_itemI disjI2 exI [of _ "off + k"]) simp_all
    with BatchTorn readBatch_parsed [of ?n b "[]" k "off + k" q] eq b show ?thesis
      by (intro disjI1) (auto simp: replay_stops_def simp del: length_frame)
  next
    case (BatchIntact ms t q b')
    from readBatch_sound [OF this] have ms: "length ms = ?n" "list_all member_ok ms"
        "rd_bytes b = frames ms @ rd_bytes b'" "t = k + length (frames ms)"
        "q = off + k + length (frames ms)" by auto
    show ?thesis
    proof (cases "applyAll ap s ms")
      case (Inl err)
      with eq BatchIntact ms b show ?thesis by (intro disjI1) (simp add: replay_stops_def del: length_frame)
    next
      case (Inr s1)
      have h: "frame (batchHead (rec_key r) ?n) = frame r" using batchHead_eq [OF op 8] by simp
      have "length ms < 2 ^ 64" using ms(1) unsigned_less [of "getUint64 (rec_val r)", where ?'a = nat] by simp
      with Inr eq BatchIntact ms b show ?thesis unfolding replay_consumes_def
        by (intro disjI2 exI [of _ "Batch (rec_key r) ms"] exI [of _ b'] exI [of _ s1])
          (simp add: h add.assoc frame_ok_def del: length_frame)
    qed
  qed
qed

lemma replayLoop_round:
  assumes run: "replayLoop ap br off off s = (v, p, e, s')"
  shows "replay_stops br off s v p e s' \<or> replay_consumes ap br off s (v, p, e, s')"
proof (cases "\<exists>r k b. readRecord br = Inr (Some (r, k, b))")
  case False
  then have "no_item (rd_bytes br)" by (intro no_itemI) blast+
  with False run show ?thesis
    by (intro disjI1) (subst (asm) replayLoop.simps, auto simp: replay_stops_def split: sum.splits option.splits)
next
  case True
  then obtain r k b where r: "readRecord br = Inr (Some (r, k, b))" by blast
  note b = readRecord_sound [OF r]
  consider "rec_op r \<noteq> opBatch" | "rec_op r = opBatch" "length (rec_val r) \<noteq> 8" | "rec_op r = opBatch" "length (rec_val r) = 8"
    by blast
  then show ?thesis
  proof cases
    case 1
    with run r have eq: "(v, p, e, s') = (case ap s r of Inl err \<Rightarrow> (off, off, Some err, s)
        | Inr s1 \<Rightarrow> replayLoop ap b (off + k) (off + k) s1)"
      by (subst (asm) replayLoop.simps) (simp split: sum.splits)
    show ?thesis
    proof (cases "ap s r")
      case (Inl err)
      with eq show ?thesis by (simp add: replay_stops_def)
    next
      case (Inr s1)
      with eq b 1 show ?thesis unfolding replay_consumes_def
        by (intro disjI2 exI [of _ "Single r"] exI [of _ b] exI [of _ s1]) (simp add: member_ok_def del: length_frame)
    qed
  next
    case 2
    with r have "no_item (rd_bytes br)" by (intro no_itemI) simp_all
    with run r 2 b show ?thesis
      by (intro disjI1) (subst (asm) replayLoop.simps, simp add: replay_stops_def del: length_frame)
  next
    case 3
    from replayLoop_batch [OF r this run] show ?thesis .
  qed
qed

lemma replayLoop_sound:
  assumes "replayLoop ap br off off s = (v, p, e, s')"
  shows "v \<le> p \<and> p \<le> off + length (rd_bytes br) \<and>
    (\<exists>its rest. list_all item_ok its \<and> rd_bytes br = logBytes its @ rest \<and>
       v = off + length (logBytes its) \<and> applyAll ap s (logRecs its) = Inr s' \<and>
       (e = None \<longrightarrow> no_item rest))"
  using assms
proof (induction "length (rd_bytes br)" arbitrary: br off s rule: less_induct)
  case less
  from replayLoop_round [OF less.prems] show ?case
  proof
    assume "replay_stops br off s v p e s'"
    then show ?thesis
      by (intro conjI exI [of _ "[]"] exI [of _ "rd_bytes br"]) (auto simp: replay_stops_def)
  next
    assume "replay_consumes ap br off s (v, p, e, s')"
    then obtain it b s1 where it: "item_ok it" "rd_bytes br = itemBytes it @ rd_bytes b"
      and ap: "applyAll ap s (itemRecs it) = Inr s1"
      and run: "replayLoop ap b (off + length (itemBytes it)) (off + length (itemBytes it)) s1 = (v, p, e, s')"
      unfolding replay_consumes_def by blast
    have "length (rd_bytes b) < length (rd_bytes br)" using it(2) by simp
    from less.hyps [OF this run] obtain its rest where *: "v \<le> p"
        "p \<le> off + length (itemBytes it) + length (rd_bytes b)"
        "list_all item_ok its" "rd_bytes b = logBytes its @ rest"
        "v = off + length (itemBytes it) + length (logBytes its)"
        "applyAll ap s1 (logRecs its) = Inr s'" "e = None \<longrightarrow> no_item rest" by blast
    then show ?thesis using it ap
      by (auto simp: applyAll_append intro!: exI [of _ "it # its"] exI [of _ rest])
  qed
qed

subsection \<open>The corruption scan\<close>

text \<open>The test at one offset is exactly that \<^const>\<open>readRecord\<close> accepts a record there.\<close>

lemma intactAt_iff:
  assumes "i + 13 \<le> length data"
  shows "intactAt data i \<longleftrightarrow>
    (\<exists>r n br'. readRecord \<lparr>rd_bytes = drop i data, rd_end = None\<rparr> = Inr (Some (r, n, br')))"
proof -
  let ?d = "drop i data" and ?h = "take 9 (drop i data)"
  have f: "data ! i = ?h ! 0" "getUint32 (drop (i + 1) data) = getUint32 (drop 1 ?h)"
      "getUint32 (drop (i + 5) data) = getUint32 (drop 5 ?h)"
    using assms getUint32_take [of "drop (i + 1) data"] getUint32_take [of "drop 1 ?h"]
      getUint32_take [of "drop (i + 5) data"] getUint32_take [of "drop 5 ?h"]
    by (simp_all add: drop_take add.commute)
  have rf: "readFull 9 \<lparr>rd_bytes = ?d, rd_end = None\<rparr> =
      Inr (Some (?h, \<lparr>rd_bytes = drop 9 ?d, rd_end = None\<rparr>))"
    using assms by (simp add: readFull_def)
  let ?k = "unat (getUint32 (drop 1 ?h))" and ?v = "unat (getUint32 (drop 5 ?h))"
  have crc: "checksumIEEE (take (i + 9 + n - i) ?d) =
      crc_write (crc_write 0 ?h) (take n (take (n + 4) (drop 9 ?d)))" for n
    using take_add [of 9 n ?d] by (simp add: checksumIEEE_def)
  have want: "getUint32 (drop (i + 9 + ?k + ?v) data) =
      getUint32 (drop (?k + ?v) (take (?k + ?v + 4) (drop 9 ?d)))"
    using getUint32_take [of "drop (i + 9 + ?k + ?v) data"] by (simp add: drop_take ac_simps)
  have len: "\<not> length data < i + 9 + ?k + ?v + 4 \<longleftrightarrow> ?k + ?v + 4 \<le> length (drop 9 ?d)"
    using assms by auto
  let ?body = "take (?k + ?v + 4) (drop 9 ?d)"
  let ?bad = "?h ! 0 < opSet \<or> opSetTTL < ?h ! 0 \<or> maxPartLen < ?k \<or> maxPartLen < ?v"
  let ?fits = "?k + ?v + 4 \<le> length (drop 9 ?d)"
  let ?sum = "crc_write (crc_write 0 ?h) (take (?k + ?v) ?body) = getUint32 (drop (?k + ?v) ?body)"
  have "intactAt data i \<longleftrightarrow> \<not> ?bad \<and> ?fits \<and> ?sum"
    using crc [of "?k + ?v"] want len unfolding intactAt_def Let_def f recHeaderSize_def recCRCSize_def
    by (simp only: add.assoc de_Morgan_disj conj_assoc)
  moreover have "(\<exists>r n br'. readRecord \<lparr>rd_bytes = ?d, rd_end = None\<rparr> = Inr (Some (r, n, br'))) \<longleftrightarrow>
      \<not> ?bad \<and> ?fits \<and> ?sum"
  proof (cases "?bad \<or> \<not> ?fits")
    case True
    then show ?thesis
      unfolding readRecord_def recHeaderSize_def recCRCSize_def rf sum.case option.case prod.case Let_def
      by (elim disjE) (simp_all only: readFull_def if_True if_False simp_thms option.case sum.case
          reader.select_convs split: if_split; simp)+
  next
    case False
    then show ?thesis
      unfolding readRecord_def recHeaderSize_def recCRCSize_def rf sum.case option.case prod.case Let_def
      by (simp only: readFull_def if_True if_False simp_thms option.case sum.case prod.case
          reader.select_convs split: if_split; simp)
  qed
  ultimately show ?thesis by simp
qed

lemma scanFrom_Some:
  "scanFrom data i = Some j \<longleftrightarrow>
     i \<le> j \<and> j + 13 \<le> length data \<and> intactAt data j \<and> (\<forall>l. i \<le> l \<longrightarrow> l < j \<longrightarrow> \<not> intactAt data l)"
proof (induction data i rule: scanFrom.induct)
  case (1 data i)
  then show ?case
    by (subst scanFrom.simps) (force simp: le_Suc_eq Suc_le_eq not_less_eq_eq dest: le_neq_implies_less)
qed

lemma scan_finds:
  assumes "frame_ok g"
  shows "scanForRecord (pre @ frame g @ post) \<noteq> None"
proof -
  let ?d = "pre @ frame g @ post"
  have l: "i + 13 \<le> length ?d" if "i \<le> length pre" for i using that by simp
  have "intactAt ?d (length pre)" using readRecord_frame [OF assms, of post None] l by (subst intactAt_iff) auto
  then have "\<exists>j \<le> length pre. intactAt ?d j \<and> (\<forall>i<j. \<not> intactAt ?d i)"
    by (metis LeastI Least_le not_less_Least)
  then obtain j where "j \<le> length pre" "intactAt ?d j" "\<forall>i<j. \<not> intactAt ?d i" by blast
  then have "scanFrom ?d 0 = Some j" using l unfolding scanFrom_Some by blast
  then show ?thesis by (simp add: scanForRecord_def)
qed

section \<open>Properties of the record layer\<close>

text \<open>
  Framing and reading are inverse to each other: the reader accepts a record exactly when
  its input starts with the bytes the writer produces for a record with a known operation and
  parts within the size bound; it then returns that record, its framed size and the rest of
  the input.
\<close>

theorem readRecord_appendRecord:
  "readRecord br = Inr (Some (r, n, br')) \<longleftrightarrow>
     opSet \<le> rec_op r \<and> rec_op r \<le> opSetTTL \<and>
     length (rec_key r) \<le> maxPartLen \<and> length (rec_val r) \<le> maxPartLen \<and>
     rd_bytes br = appendRecord [] (rec_op r) (rec_key r) (rec_val r) @ rd_bytes br' \<and>
     rd_end br' = rd_end br \<and> n = 13 + length (rec_key r) + length (rec_val r)"
  unfolding readRecord_iff frame_ok_def length_frame by (auto simp: frame_def)

text \<open>
  C9. A crash leaves a prefix of the log. Whatever the prefix, replay applies exactly the
  whole items (single records and complete batches) that lie within it, in order; the item
  that was cut leaves no trace, even when some members of a cut batch are intact. The valid
  length is where those items end, and what lies past the parsed length is a strict prefix of
  one frame.
\<close>

theorem replay_after_crash:
  assumes "list_all item_ok its" "n \<le> length (logBytes its)"
    and "applyAll ap s (logRecs (take (wholeItems n its) its)) = Inr s'"
  shows "\<exists>parsed f m.
    replayLog \<lparr>rd_bytes = take n (logBytes its), rd_end = None\<rparr> ap s =
      (length (logBytes (take (wholeItems n its) its)), parsed, None, s') \<and>
    length (logBytes (take (wholeItems n its) its)) \<le> parsed \<and> parsed \<le> n \<and>
    m < length (frame f) \<and> drop parsed (take n (logBytes its)) = take m (frame f)"
  using replayLog_prefix [OF assms] by blast

definition recA :: walRecord where
  "recA = \<lparr>rec_op = opSet, rec_key = [97], rec_val = [1]\<rparr>"

definition recB :: walRecord where
  "recB = \<lparr>rec_op = opDelete, rec_key = [98], rec_val = []\<rparr>"

text \<open>A batch of two records cut inside its second member: only the record before it is applied.\<close>

theorem replay_after_crash_witness:
  "\<exists>parsed f m.
    replayLog \<lparr>rd_bytes = take 60 (logBytes [Single recA, Batch [] [recA, recB]]), rd_end = None\<rparr>
        (\<lambda>s r. Inr (s @ [rec_key r])) [] = (15, parsed, None, [[97]]) \<and>
    15 \<le> parsed \<and> parsed \<le> 60 \<and> m < length (frame f) \<and>
    drop parsed (take 60 (logBytes [Single recA, Batch [] [recA, recB]])) = take m (frame f)"
  (is "\<exists>parsed f m. ?P parsed f m")
proof -
  let ?its = "[Single recA, Batch [] [recA, recB]]"
  have w: "wholeItems 60 ?its = 1" by (simp add: recA_def recB_def)
  have "list_all item_ok ?its"
    by (simp add: recA_def recB_def member_ok_def frame_ok_def maxPartLen_def)
  moreover have "60 \<le> length (logBytes ?its)" by (simp add: recA_def recB_def)
  moreover have "applyAll (\<lambda>s r. Inr (s @ [rec_key r])) [] (logRecs (take (wholeItems 60 ?its) ?its)) = Inr [[97]]"
    unfolding w by (simp add: recA_def)
  ultimately show ?thesis
    using replay_after_crash [of ?its 60 "\<lambda>s r. Inr (s @ [rec_key r])" "[]" "[[97]]"]
    unfolding w by (simp add: recA_def)
qed

text \<open>
  C10. Replay of arbitrary bytes, garbage included: if it reports no error, the input up to the
  valid length is a sequence of well-formed items, the state is the result of applying
  exactly their records in order, the item sequence is maximal (no further item starts at
  the valid length), and the valid length is at most the parsed length, which is within the
  input.
\<close>

theorem replay_arbitrary_bytes:
  assumes "replayLog \<lparr>rd_bytes = bs, rd_end = None\<rparr> ap s = (valid, parsed, None, s')"
  shows "valid \<le> parsed \<and> parsed \<le> length bs \<and>
    (\<exists>its. list_all item_ok its \<and> take valid bs = logBytes its \<and>
       applyAll ap s (logRecs its) = Inr s' \<and> no_item (drop valid bs))"
  using replayLoop_sound [of ap "\<lparr>rd_bytes = bs, rd_end = None\<rparr>" 0 s valid parsed None s'] assms
  by (auto simp: replayLog_def)

theorem replay_arbitrary_bytes_witness:
  "\<exists>its. list_all item_ok its \<and> take 0 [7::byte, 7] = logBytes its \<and>
     applyAll (\<lambda>s r. Inr (s @ [r])) [] (logRecs its) = Inr [] \<and> no_item (drop 0 [7, 7])"
proof -
  have "replayLog \<lparr>rd_bytes = [7, 7], rd_end = None\<rparr> (\<lambda>s r. Inr (s @ [r])) [] = (0, 0, None, [])"
    by (simp add: replayLog_def replayLoop_stop readRecord_def readFull_def)
  from replay_arbitrary_bytes [OF this] show ?thesis by blast
qed

text \<open>
  C29. The corruption scan finds the least offset at which the reader would accept a record,
  and nothing when there is none: the inlined test of the scan agrees with the reader.
\<close>

theorem scan_first_record:
  "scanForRecord data = Some j \<longleftrightarrow>
     (\<exists>r n br. readRecord \<lparr>rd_bytes = drop j data, rd_end = None\<rparr> = Inr (Some (r, n, br))) \<and>
     (\<nexists>l r n br. l < j \<and> readRecord \<lparr>rd_bytes = drop l data, rd_end = None\<rparr> = Inr (Some (r, n, br)))"
proof -
  let ?acc = "\<lambda>i. \<exists>r n br. readRecord \<lparr>rd_bytes = drop i data, rd_end = None\<rparr> = Inr (Some (r, n, br))"
  have long: "?acc i \<Longrightarrow> i + 13 \<le> length data" for i
    using readRecord_sound(1) [of "\<lparr>rd_bytes = drop i data, rd_end = None\<rparr>"]
    by (fastforce dest!: arg_cong [where f = length])
  have acc: "?acc i \<longleftrightarrow> i + 13 \<le> length data \<and> intactAt data i" for i
    using long [of i] intactAt_iff [of i data] by blast
  have "scanForRecord data = Some j \<longleftrightarrow> ?acc j \<and> (\<forall>l. l < j \<longrightarrow> \<not> ?acc l)"
    unfolding scanForRecord_def scanFrom_Some acc by auto
  then show ?thesis by (simp only: not_ex de_Morgan_conj) blast
qed

end
