(* ===== verification/Gcm.thy ===== *)
theory Gcm
  imports Prelude
begin

unbundle bit_operations_syntax

text \<open>
  The authenticated encryption the Go standard library offers as \<^verbatim>\<open>cipher.AEAD\<close>: the
  interface as a record of functions, its contract as the locale \<open>aead\<close>, and the
  construction \<^verbatim>\<open>cipher.NewGCM\<close> (Galois/Counter Mode with a 12-byte nonce and a 16-byte tag)
  over a block cipher, which meets the contract whatever the block cipher is. The block
  cipher itself, \<^verbatim>\<open>crypto/aes\<close>, is a parameter.
\<close>

section \<open>The interface\<close>

record aead =
  aead_nonceSize :: nat
  aead_overhead :: nat
  aead_seal :: "bytes \<Rightarrow> bytes \<Rightarrow> bytes \<Rightarrow> bytes"
  aead_open :: "bytes \<Rightarrow> bytes \<Rightarrow> bytes \<Rightarrow> bytes result"

text \<open>
  Arguments: nonce, text, additional data. Opening what was sealed under the same nonce and
  data gives the text back; opening succeeds only on a text that sealing produces.
\<close>

locale aead =
  fixes A :: aead
  assumes open_seal:
      "length nonce = aead_nonceSize A \<Longrightarrow> aead_open A nonce (aead_seal A nonce pt aad) aad = Inr pt"
    and open_authentic:
      "length nonce = aead_nonceSize A \<Longrightarrow> aead_open A nonce ct aad = Inr pt \<Longrightarrow>
         ct = aead_seal A nonce pt aad"
    and seal_length: "length (aead_seal A nonce pt aad) = length pt + aead_overhead A"
begin

lemma seal_inj:
  assumes "length nonce = aead_nonceSize A" "aead_seal A nonce pt aad = aead_seal A nonce pt' aad"
  shows "pt = pt'"
  by (metis assms open_seal sum.inject(2))

end

section \<open>GCM\<close>

type_synonym block = "128 word"

definition block_of :: "bytes \<Rightarrow> block" where
  "block_of bs = foldl (\<lambda>a b. push_bit 8 a OR ucast b) 0 (bs @ replicate (16 - length bs) 0)"

definition bytes_of :: "block \<Rightarrow> bytes" where
  "bytes_of w = map (\<lambda>i. ucast (drop_bit (120 - 8 * i) w)) [0..<16]"

fun blocks :: "nat \<Rightarrow> bytes \<Rightarrow> block list" where
  "blocks 0 bs = []"
| "blocks (Suc n) bs = (if bs = [] then [] else block_of (take 16 bs) # blocks n (drop 16 bs))"

text \<open>Multiplication in GF(2^128), bits taken from the most significant one.\<close>

fun gf_mul_aux :: "nat \<Rightarrow> block \<Rightarrow> block \<Rightarrow> block \<Rightarrow> block" where
  "gf_mul_aux 0 x v z = z"
| "gf_mul_aux (Suc n) x v z =
     gf_mul_aux n x
       (if bit v 0 then drop_bit 1 v XOR push_bit 120 0xE1 else drop_bit 1 v)
       (if bit x n then z XOR v else z)"

definition gf_mul :: "block \<Rightarrow> block \<Rightarrow> block" where
  "gf_mul x y = gf_mul_aux 128 x y 0"

definition ghash :: "block \<Rightarrow> block list \<Rightarrow> block" where
  "ghash h bs = foldl (\<lambda>y b. gf_mul (y XOR b) h) 0 bs"

definition gcm_tag :: "(block \<Rightarrow> block) \<Rightarrow> bytes \<Rightarrow> bytes \<Rightarrow> bytes \<Rightarrow> bytes" where
  "gcm_tag E nonce ct aad =
     (let j0 = block_of (nonce @ [0, 0, 0, 1]);
          lens = push_bit 64 (word_of_nat (8 * length aad)) OR word_of_nat (8 * length ct)
      in bytes_of (E j0 XOR
           ghash (E 0) (blocks (length aad) aad @ blocks (length ct) ct @ [lens])))"

text \<open>The key stream: block \<open>i\<close> is the cipher of the nonce with the counter \<open>i + 2\<close>.\<close>

definition gcm_stream :: "(block \<Rightarrow> block) \<Rightarrow> bytes \<Rightarrow> nat \<Rightarrow> byte" where
  "gcm_stream E nonce i =
     bytes_of (E (push_bit 32 (drop_bit 32 (block_of nonce)) OR
                  ucast (word_of_nat (i div 16 + 2) :: 32 word))) ! (i mod 16)"

definition gcm_xor :: "(block \<Rightarrow> block) \<Rightarrow> bytes \<Rightarrow> bytes \<Rightarrow> bytes" where
  "gcm_xor E nonce bs = map (\<lambda>i. bs ! i XOR gcm_stream E nonce i) [0..<length bs]"

definition gcm_seal :: "(block \<Rightarrow> block) \<Rightarrow> bytes \<Rightarrow> bytes \<Rightarrow> bytes \<Rightarrow> bytes" where
  "gcm_seal E nonce pt aad =
     (let ct = gcm_xor E nonce pt in ct @ gcm_tag E nonce ct aad)"

definition gcm_open :: "(block \<Rightarrow> block) \<Rightarrow> bytes \<Rightarrow> bytes \<Rightarrow> bytes \<Rightarrow> bytes result" where
  "gcm_open E nonce sealed aad =
     (if length sealed < 16 then Inl (ErrNew ''cipher: message authentication failed'')
      else let ct = take (length sealed - 16) sealed; tag = drop (length sealed - 16) sealed
           in if gcm_tag E nonce ct aad = tag then Inr (gcm_xor E nonce ct)
              else Inl (ErrNew ''cipher: message authentication failed''))"

definition gcm :: "(block \<Rightarrow> block) \<Rightarrow> aead" where
  "gcm E = \<lparr>aead_nonceSize = 12, aead_overhead = 16,
            aead_seal = gcm_seal E, aead_open = gcm_open E\<rparr>"

lemma length_gcm_tag [simp]: "length (gcm_tag E nonce ct aad) = 16"
  by (simp add: gcm_tag_def bytes_of_def Let_def)

lemma length_gcm_xor [simp]: "length (gcm_xor E nonce bs) = length bs"
  by (simp add: gcm_xor_def)

lemma gcm_xor_twice [simp]: "gcm_xor E nonce (gcm_xor E nonce bs) = bs"
  by (rule nth_equalityI) (simp_all add: gcm_xor_def xor.assoc)

interpretation gcm_aead: aead "gcm E" for E
proof
  fix nonce pt aad ct :: bytes
  show "aead_open (gcm E) nonce (aead_seal (gcm E) nonce pt aad) aad = Inr pt"
    by (simp add: gcm_def gcm_open_def gcm_seal_def Let_def)
  show "length (aead_seal (gcm E) nonce pt aad) = length pt + aead_overhead (gcm E)"
    by (simp add: gcm_def gcm_seal_def Let_def)
  assume "aead_open (gcm E) nonce ct aad = Inr pt"
  then show "ct = aead_seal (gcm E) nonce pt aad"
    by (auto simp: gcm_def gcm_open_def gcm_seal_def Let_def split: if_splits)
qed

end
