(* ===== verification/Encrypt.thy ===== *)
theory Encrypt
  imports Codec Wal Gcm
begin

unbundle bit_operations_syntax

text \<open>
  Encryption at rest, \<^verbatim>\<open>src/encrypt.go\<close>: the record cipher and its key derivation, the two
  log headers (also \<^verbatim>\<open>logHeader\<close> of \<^verbatim>\<open>src/wal.go\<close>), and the sealing and opening of record
  values. The contract the log relies on is the locale \<open>sealer\<close>; it holds for a
  plaintext log and for every cipher that \<open>newWalCipher\<close> builds.
\<close>

section \<open>Constants\<close>

definition logMagic :: bytes where
  "logMagic = map byte_of_char ''btydbLOG''"

definition plainFormatVersion :: "32 word" where [simp]: "plainFormatVersion = 1"
definition encFormatVersion :: "32 word" where [simp]: "encFormatVersion = 2"
definition logFormatVersion :: "32 word" where [simp]: "logFormatVersion = 2"

definition logHeaderSize :: nat where [simp]: "logHeaderSize = 16"
definition logHeaderSizeV2 :: nat where [simp]: "logHeaderSizeV2 = 44"

definition hdrFlagEncrypted :: "32 word" where [simp]: "hdrFlagEncrypted = 1"
definition cipherAES256GCM :: byte where [simp]: "cipherAES256GCM = 1"
definition scopeValueOnly :: byte where [simp]: "scopeValueOnly = 0"

definition kcvConst :: bytes where
  "kcvConst = map byte_of_char ''btydbKCV''"

definition hdrFlagsOffset :: nat where [simp]: "hdrFlagsOffset = 16"
definition hdrKCVOffset :: nat where [simp]: "hdrKCVOffset = 20"

section \<open>The record cipher\<close>

record walCipher =
  wc_rec :: aead
  wc_kcv :: aead
  wc_cipherID :: byte
  wc_scope :: byte

text \<open>
  \<open>aesNew\<close> is \<^verbatim>\<open>aes.NewCipher\<close> and \<open>hkdf\<close> is \<^verbatim>\<open>hkdf.Key(sha256.New, _, nil, _, _)\<close>.
  \<^verbatim>\<open>cipher.NewGCM\<close> does not fail on a cipher with 16-byte blocks.
\<close>

definition cipherNewGCM :: "(block \<Rightarrow> block) \<Rightarrow> aead result" where
  "cipherNewGCM E = Inr (gcm E)"

definition newGCM :: "(bytes \<Rightarrow> (block \<Rightarrow> block) result) \<Rightarrow> bytes \<Rightarrow> aead result" where
  "newGCM aesNew key =
     (case aesNew key of
        Inl e \<Rightarrow> Inl e
      | Inr blk \<Rightarrow> (case cipherNewGCM blk of Inl e \<Rightarrow> Inl e | Inr g \<Rightarrow> Inr g))"

definition newWalCipher ::
    "(bytes \<Rightarrow> string \<Rightarrow> nat \<Rightarrow> bytes result) \<Rightarrow> (bytes \<Rightarrow> (block \<Rightarrow> block) result) \<Rightarrow> bytes
       \<Rightarrow> walCipher result" where
  "newWalCipher hkdf aesNew master =
     (if length master \<noteq> 32 then Inl (ErrNew ''encryption key must be 32 bytes'')
      else case hkdf master ''btypedb/wal/record/v2'' 32 of
          Inl e \<Rightarrow> Inl e
        | Inr kRec \<Rightarrow> (case hkdf master ''btypedb/wal/kcv/v2'' 32 of
            Inl e \<Rightarrow> Inl e
          | Inr kKCV \<Rightarrow> (case newGCM aesNew kRec of
              Inl e \<Rightarrow> Inl e
            | Inr recAEAD \<Rightarrow> (case newGCM aesNew kKCV of
                Inl e \<Rightarrow> Inl e
              | Inr kcvAEAD \<Rightarrow>
                  Inr \<lparr>wc_rec = recAEAD, wc_kcv = kcvAEAD,
                       wc_cipherID = cipherAES256GCM, wc_scope = scopeValueOnly\<rparr>))))"

definition wcFlags :: "walCipher \<Rightarrow> 32 word" where
  "wcFlags wc = hdrFlagEncrypted OR push_bit 1 (ucast (wc_cipherID wc)) OR push_bit 5 (ucast (wc_scope wc))"

section \<open>Headers\<close>

definition logHeader :: bytes where
  "logHeader =
     (let h = logMagic @ putUint32 plainFormatVersion in h @ putUint32 (checksumIEEE h))"

definition wcHeader :: "walCipher \<Rightarrow> bytes" where
  "wcHeader wc =
     (let h = logMagic @ putUint32 encFormatVersion;
          h = h @ putUint32 (checksumIEEE h);
          h = h @ putUint32 (wcFlags wc);
          nonce = replicate (aead_nonceSize (wc_kcv wc)) 0;
          kcv = aead_seal (wc_kcv wc) nonce kcvConst h
      in h @ kcv)"

definition headerFor :: "walCipher option \<Rightarrow> bytes" where
  "headerFor wc = (case wc of None \<Rightarrow> logHeader | Some c \<Rightarrow> wcHeader c)"

section \<open>Sealing and opening record values\<close>

definition recordAAD :: "byte \<Rightarrow> bytes \<Rightarrow> bytes" where
  "recordAAD op key = op # key"

text \<open>\<^verbatim>\<open>crypto/rand\<close>: an error, or the stream of bytes a read delivers.\<close>

type_synonym rand = "(nat \<Rightarrow> byte) result"

definition sealValue :: "walCipher \<Rightarrow> rand \<Rightarrow> byte \<Rightarrow> bytes \<Rightarrow> bytes \<Rightarrow> bytes result" where
  "sealValue wc rnd op key val =
     (let ns = aead_nonceSize (wc_rec wc)
      in case rnd of
           Inl e \<Rightarrow> Inl e
         | Inr stream \<Rightarrow>
             (let out = map stream [0..<ns]
              in Inr (out @ aead_seal (wc_rec wc) (take ns out) val (recordAAD op key))))"

definition appendSealedRecord ::
    "bytes \<Rightarrow> walCipher option \<Rightarrow> rand \<Rightarrow> byte \<Rightarrow> bytes \<Rightarrow> bytes \<Rightarrow> bytes result" where
  "appendSealedRecord dst wc rnd op key val =
     (case wc of
        None \<Rightarrow> Inr (appendRecord dst op key val)
      | Some c \<Rightarrow>
          if op = opDelete then Inr (appendRecord dst op key val)
          else case sealValue c rnd op key val of
              Inl e \<Rightarrow> Inl e
            | Inr sealed \<Rightarrow> Inr (appendRecord dst op key sealed))"

definition openRecord ::
    "walCipher option \<Rightarrow> byte \<Rightarrow> bytes \<Rightarrow> bytes \<Rightarrow> (bytes \<times> bytes) result" where
  "openRecord wc op key val =
     (case wc of
        None \<Rightarrow> Inr (key, val)
      | Some c \<Rightarrow>
          if op = opDelete then Inr (key, val)
          else let ns = aead_nonceSize (wc_rec c)
               in if length val < ns + aead_overhead (wc_rec c)
                  then Inl (ErrNew ''encrypted value too short'')
                  else case aead_open (wc_rec c) (take ns val) (drop ns val) (recordAAD op key) of
                      Inl e \<Rightarrow> Inl e
                    | Inr pt \<Rightarrow> Inr (key, pt))"

section \<open>The contract of sealed records\<close>

text \<open>How many bytes sealing adds to a value.\<close>

definition sealOverhead :: "walCipher option \<Rightarrow> byte \<Rightarrow> nat" where
  "sealOverhead wc op =
     (case wc of None \<Rightarrow> 0
      | Some c \<Rightarrow> if op = opDelete then 0 else aead_nonceSize (wc_rec c) + aead_overhead (wc_rec c))"

locale sealer =
  fixes wc :: "walCipher option"
  assumes sealed_frame:
    "appendSealedRecord dst wc rnd op key val = Inr bs \<Longrightarrow>
     \<exists>sv. bs = dst @ frame \<lparr>rec_op = op, rec_key = key, rec_val = sv\<rparr> \<and>
          length sv = length val + sealOverhead wc op \<and>
          openRecord wc op key sv = Inr (key, val)"
begin

text \<open>Sealing a record onto a buffer appends one frame that opens to what was sealed.\<close>

lemma sealed_append:
  assumes "appendSealedRecord dst wc rnd op key val = Inr bs"
  shows "length bs = length dst + 13 + length key + length val + sealOverhead wc op"
  using sealed_frame [OF assms] by auto

end

interpretation plain_log: sealer None
  by unfold_locales
    (simp add: appendSealedRecord_def openRecord_def sealOverhead_def appendRecord_frame)

locale wal_aead = aead "wc_rec c" for c :: walCipher

sublocale wal_aead \<subseteq> sealed: sealer "Some c"
proof
  fix dst rnd op key val bs
  assume a: "appendSealedRecord dst (Some c) rnd op key val = Inr bs"
  show "\<exists>sv. bs = dst @ frame \<lparr>rec_op = op, rec_key = key, rec_val = sv\<rparr> \<and>
      length sv = length val + sealOverhead (Some c) op \<and> openRecord (Some c) op key sv = Inr (key, val)"
  proof (cases "op = opDelete")
    case True
    with a show ?thesis
      by (simp add: appendSealedRecord_def openRecord_def sealOverhead_def appendRecord_frame)
  next
    case False
    with a obtain sv where sv: "sealValue c rnd op key val = Inr sv"
        "bs = dst @ frame \<lparr>rec_op = op, rec_key = key, rec_val = sv\<rparr>"
      by (auto simp: appendSealedRecord_def appendRecord_frame split: sum.splits)
    from sv(1) False have "length sv = length val + sealOverhead (Some c) op \<and>
        openRecord (Some c) op key sv = Inr (key, val)"
      by (auto simp: sealValue_def openRecord_def sealOverhead_def Let_def open_seal seal_length
          split: sum.splits)
    with sv(2) show ?thesis by blast
  qed
qed

context wal_aead
begin

lemma sealer_Some: "sealer (Some c)"
  by unfold_locales

end

text \<open>The shape of every cipher that \<open>newWalCipher\<close> builds, over the block ciphers of its two keys.\<close>

interpretation gcm_log: wal_aead
    "\<lparr>wc_rec = gcm E, wc_kcv = gcm K, wc_cipherID = cipherAES256GCM, wc_scope = scopeValueOnly\<rparr>" for E K
  by (simp add: wal_aead_def gcm_aead.aead_axioms)

lemma newGCM_gcm: "newGCM aesNew key = Inr g \<Longrightarrow> \<exists>E. g = gcm E"
  by (auto simp: newGCM_def cipherNewGCM_def split: sum.splits)

lemma newWalCipher_gcm:
  "newWalCipher hkdf aesNew master = Inr c \<Longrightarrow>
     (\<exists>E. wc_rec c = gcm E) \<and> (\<exists>E. wc_kcv c = gcm E) \<and>
     wc_cipherID c = cipherAES256GCM \<and> wc_scope c = scopeValueOnly"
  by (auto simp: newWalCipher_def dest!: newGCM_gcm split: if_splits sum.splits)

lemma sealer_newWalCipher:
  assumes "newWalCipher hkdf aesNew master = Inr c"
  shows "sealer (Some c)"
proof -
  from newWalCipher_gcm [OF assms] obtain E K where
    "c = \<lparr>wc_rec = gcm E, wc_kcv = gcm K, wc_cipherID = cipherAES256GCM, wc_scope = scopeValueOnly\<rparr>"
    by (cases c) auto
  then show ?thesis by (simp only: gcm_log.sealer_Some)
qed

section \<open>Properties\<close>

text \<open>
  C25. Sealing round trip: with the cipher that \<^verbatim>\<open>newWalCipher\<close> builds, a record appended sealed
  opens to the key and value it was made from. Only the value is sealed; it grows by the
  12-byte nonce and the 16-byte tag, and a delete record is left as it is.
\<close>

theorem sealed_record_opens:
  assumes "newWalCipher hkdf aesNew master = Inr c" "appendSealedRecord dst (Some c) rnd op key val = Inr bs"
  shows "length master = 32 \<and> (\<exists>sealed. bs = appendRecord dst op key sealed \<and> openRecord (Some c) op key sealed = Inr (key, val) \<and>
    length sealed = length val + (if op = opDelete then 0 else 28))"
proof -
  obtain E where E: "wc_rec c = gcm E" using newWalCipher_gcm [OF assms(1)] by blast
  from sealer.sealed_frame [OF sealer_newWalCipher [OF assms(1)] assms(2)] obtain sv where
    sv: "bs = dst @ frame \<lparr>rec_op = op, rec_key = key, rec_val = sv\<rparr>"
      "length sv = length val + sealOverhead (Some c) op" "openRecord (Some c) op key sv = Inr (key, val)" by blast
  have "sealOverhead (Some c) op = (if op = opDelete then 0 else 28)" by (simp add: sealOverhead_def E gcm_def)
  moreover have "length master = 32" using assms(1) by (simp add: newWalCipher_def split: if_splits)
  ultimately show ?thesis using sv by (intro conjI exI [of _ sv]) (simp_all add: appendRecord_frame)
qed

text \<open>A toy key derivation and a toy block cipher, to run the code.\<close>

definition toyHkdf :: "bytes \<Rightarrow> string \<Rightarrow> nat \<Rightarrow> bytes result" where
  "toyHkdf master info n = Inr (take n (map byte_of_char info @ master))"

definition toyAes :: "bytes \<Rightarrow> (block \<Rightarrow> block) result" where
  "toyAes key = Inr (\<lambda>b. b XOR word_of_nat (length key))"

lemma toyCipher: "length master = 32 \<Longrightarrow> \<exists>c. newWalCipher toyHkdf toyAes master = Inr c"
  by (simp add: newWalCipher_def toyHkdf_def newGCM_def toyAes_def cipherNewGCM_def)

theorem sealed_record_opens_witness:
  "\<exists>c sealed bs. newWalCipher toyHkdf toyAes (replicate 32 7) = Inr c \<and>
    appendSealedRecord [] (Some c) (Inr (\<lambda>_. 9)) opSet [1] [2] = Inr bs \<and> bs = appendRecord [] opSet [1] sealed \<and>
    openRecord (Some c) opSet [1] sealed = Inr ([1], [2]) \<and> length sealed = 29"
proof -
  obtain c where c: "newWalCipher toyHkdf toyAes (replicate 32 7) = Inr c"
    using toyCipher [of "replicate 32 7"] by auto
  obtain bs where bs: "appendSealedRecord [] (Some c) (Inr (\<lambda>_. 9)) opSet [1] [2] = Inr bs"
    by (simp add: appendSealedRecord_def sealValue_def Let_def)
  from sealed_record_opens [OF c bs] c bs show ?thesis by auto
qed

end
