(* ===== verification/Fs.thy ===== *)
theory Fs
  imports Prelude
begin

text \<open>
  Files and directories: the interface \<^verbatim>\<open>logfile\<close> of \<^verbatim>\<open>src/db.go\<close> as \<^verbatim>\<open>*os.File\<close> provides
  it, and the filesystem operations of \<^verbatim>\<open>src/fs.go\<close>. A file keeps the bytes the process
  sees and the bytes known to be on stable storage; a directory likewise. A failed
  write may leave a prefix of its buffer behind.
\<close>

section \<open>Files\<close>

record logfile =
  lf_content :: bytes
  lf_synced :: bytes
  lf_pos :: nat
  lf_closed :: bool

text \<open>The error of every operation on a closed file (\<^verbatim>\<open>os.ErrClosed\<close>).\<close>

definition errFileClosed :: goerr where
  "errFileClosed = ErrExt 0"

definition lf_size :: "logfile \<Rightarrow> nat" where
  "lf_size f = length (lf_content f)"

definition overwrite :: "bytes \<Rightarrow> nat \<Rightarrow> bytes \<Rightarrow> bytes" where
  "overwrite c p b = take p (c @ replicate (p - length c) 0) @ b @ drop (p + length b) c"

definition lf_write :: "(goerr \<times> nat) option \<Rightarrow> bytes \<Rightarrow> logfile \<Rightarrow> goerr option \<times> logfile" where
  "lf_write out buf f =
     (if lf_closed f then (Some errFileClosed, f)
      else let (err, done) = (case out of None \<Rightarrow> (None, buf) | Some (e, n) \<Rightarrow> (Some e, take n buf))
           in (err, f\<lparr>lf_content := overwrite (lf_content f) (lf_pos f) done,
                     lf_pos := lf_pos f + length done\<rparr>))"

definition lf_sync :: "(goerr \<times> nat) option \<Rightarrow> logfile \<Rightarrow> goerr option \<times> logfile" where
  "lf_sync out f =
     (if lf_closed f then (Some errFileClosed, f)
      else case out of None \<Rightarrow> (None, f\<lparr>lf_synced := lf_content f\<rparr>) | Some (e, _) \<Rightarrow> (Some e, f))"

definition lf_truncate :: "(goerr \<times> nat) option \<Rightarrow> nat \<Rightarrow> logfile \<Rightarrow> goerr option \<times> logfile" where
  "lf_truncate out n f =
     (if lf_closed f then (Some errFileClosed, f)
      else case out of
          None \<Rightarrow> (None, f\<lparr>lf_content := take n (lf_content f) @ replicate (n - lf_size f) 0\<rparr>)
        | Some (e, _) \<Rightarrow> (Some e, f))"

definition lf_seek :: "(goerr \<times> nat) option \<Rightarrow> nat \<Rightarrow> logfile \<Rightarrow> goerr option \<times> logfile" where
  "lf_seek out n f =
     (if lf_closed f then (Some errFileClosed, f)
      else case out of None \<Rightarrow> (None, f\<lparr>lf_pos := n\<rparr>) | Some (e, _) \<Rightarrow> (Some e, f))"

definition lf_close :: "(goerr \<times> nat) option \<Rightarrow> logfile \<Rightarrow> goerr option \<times> logfile" where
  "lf_close out f =
     (if lf_closed f then (Some errFileClosed, f)
      else (map_option fst out, f\<lparr>lf_closed := True\<rparr>))"

text \<open>\<^verbatim>\<open>io.NewSectionReader(f, off, n)\<close>, read to its end: at most \<open>n\<close> bytes from \<open>off\<close>.\<close>

definition lf_section :: "logfile \<Rightarrow> nat \<Rightarrow> nat \<Rightarrow> bytes" where
  "lf_section f off n = take n (drop off (lf_content f))"

text \<open>
  \<^verbatim>\<open>io.Copy(w, io.NewSectionReader(f, off, n))\<close>: the error, the count and the bytes that \<^verbatim>\<open>w\<close>
  received; it may fail after some of them.
\<close>

definition lf_copy :: "(goerr \<times> nat) option \<Rightarrow> nat \<Rightarrow> nat \<Rightarrow> logfile \<Rightarrow> goerr option \<times> nat \<times> bytes" where
  "lf_copy out off n f =
     (if lf_closed f then (Some errFileClosed, 0, [])
      else let input = lf_section f off n
           in case out of
                None \<Rightarrow> (None, length input, input)
              | Some (e, m) \<Rightarrow> (Some e, length (take m input), take m input))"

section \<open>The filesystem\<close>

text \<open>
  Files live under inode numbers; a handle is an inode number. \<open>fs_cur\<close> is the directory
  as the process sees it, \<open>fs_dur\<close> as it stood at the last directory sync.
\<close>

record fsys =
  fs_inode :: "nat \<Rightarrow> logfile"
  fs_cur :: "string \<Rightarrow> nat option"
  fs_dur :: "string \<Rightarrow> nat option"
  fs_next :: nat

definition emptyFile :: logfile where
  "emptyFile = \<lparr>lf_content = [], lf_synced = [], lf_pos = 0, lf_closed = False\<rparr>"

definition fs_upd :: "nat \<Rightarrow> logfile \<Rightarrow> fsys \<Rightarrow> fsys" where
  "fs_upd h f fs = fs\<lparr>fs_inode := (fs_inode fs)(h := f)\<rparr>"

definition fs_new :: "string \<Rightarrow> fsys \<Rightarrow> nat \<times> fsys" where
  "fs_new path fs =
     (let h = fs_next fs
      in (h, fs\<lparr>fs_inode := (fs_inode fs)(h := emptyFile), fs_cur := (fs_cur fs)(path \<mapsto> h),
               fs_next := Suc h\<rparr>))"

definition fsOpenFile :: "(goerr \<times> nat) option \<Rightarrow> string \<Rightarrow> fsys \<Rightarrow> nat result \<times> fsys" where
  "fsOpenFile out path fs =
     (case out of
        Some (e, _) \<Rightarrow> (Inl e, fs)
      | None \<Rightarrow> (case fs_cur fs path of
            None \<Rightarrow> (let (h, fs') = fs_new path fs in (Inr h, fs'))
          | Some h \<Rightarrow> (Inr h, fs_upd h ((fs_inode fs h)\<lparr>lf_pos := 0, lf_closed := False\<rparr>) fs)))"

definition fsCreate :: "(goerr \<times> nat) option \<Rightarrow> string \<Rightarrow> fsys \<Rightarrow> nat result \<times> fsys" where
  "fsCreate out path fs =
     (case out of
        Some (e, _) \<Rightarrow> (Inl e, fs)
      | None \<Rightarrow> (case fs_cur fs path of
            None \<Rightarrow> (let (h, fs') = fs_new path fs in (Inr h, fs'))
          | Some h \<Rightarrow>
              (Inr h, fs_upd h ((fs_inode fs h)\<lparr>lf_content := [], lf_pos := 0, lf_closed := False\<rparr>) fs)))"

definition fsRename :: "(goerr \<times> nat) option \<Rightarrow> string \<Rightarrow> string \<Rightarrow> fsys \<Rightarrow> goerr option \<times> fsys" where
  "fsRename out old new fs =
     (case out of
        Some (e, _) \<Rightarrow> (Some e, fs)
      | None \<Rightarrow> (None, fs\<lparr>fs_cur := (fs_cur fs)(old := None, new := fs_cur fs old)\<rparr>))"

definition fsRemove :: "(goerr \<times> nat) option \<Rightarrow> string \<Rightarrow> fsys \<Rightarrow> goerr option \<times> fsys" where
  "fsRemove out path fs =
     (case out of
        Some (e, _) \<Rightarrow> (Some e, fs)
      | None \<Rightarrow> (None, fs\<lparr>fs_cur := (fs_cur fs)(path := None)\<rparr>))"

text \<open>Best effort: a failure to open or sync the directory is not reported.\<close>

definition fsSyncDir :: "(goerr \<times> nat) option \<Rightarrow> string \<Rightarrow> fsys \<Rightarrow> fsys" where
  "fsSyncDir out path fs = (case out of None \<Rightarrow> fs\<lparr>fs_dur := fs_cur fs\<rparr> | Some _ \<Rightarrow> fs)"

lemma overwrite_end [simp]: "p = length c \<Longrightarrow> overwrite c p b = c @ b"
  by (simp add: overwrite_def)

lemma length_overwrite: "p \<le> length c \<Longrightarrow> length (overwrite c p b) = max (length c) (p + length b)"
  by (simp add: overwrite_def)

lemma fs_upd_sel [simp]:
  "fs_inode (fs_upd h f fs) h = f"
  "i \<noteq> h \<Longrightarrow> fs_inode (fs_upd h f fs) i = fs_inode fs i"
  "fs_cur (fs_upd h f fs) = fs_cur fs" "fs_dur (fs_upd h f fs) = fs_dur fs"
  "fs_next (fs_upd h f fs) = fs_next fs"
  by (simp_all add: fs_upd_def)

end
