(* ===== verification/Header.thy ===== *)
theory Header
  imports Encrypt Fs
begin

text \<open>
  \<^verbatim>\<open>prepareHeader\<close> of \<^verbatim>\<open>src/wal.go\<close>: how \<^verbatim>\<open>Open\<close> classifies a log file by its header and
  reconciles it with the caller's key. The result is the offset where records begin, or
  an error; the file comes back as the function leaves it.
\<close>

section \<open>Classification\<close>

definition writeFresh :: "io_env \<Rightarrow> bytes \<Rightarrow> logfile \<Rightarrow> nat result \<times> logfile" where
  "writeFresh env expected f =
     (case lf_truncate (env ''reset torn log header'') 0 f of
        (Some e, f) \<Rightarrow> (Inl e, f)
      | (None, f) \<Rightarrow> (case lf_seek (env ''seek for log header'') 0 f of
          (Some e, f) \<Rightarrow> (Inl e, f)
        | (None, f) \<Rightarrow> (case lf_write (env ''write log header'') expected f of
            (Some e, f) \<Rightarrow> (Inl e, f)
          | (None, f) \<Rightarrow> (case lf_sync (env ''sync log header'') f of
              (Some e, f) \<Rightarrow> (Inl e, f)
            | (None, f) \<Rightarrow> (Inr (length expected), f)))))"

definition prepareHeader :: "io_env \<Rightarrow> logfile \<Rightarrow> walCipher option \<Rightarrow> nat result \<times> logfile" where
  "prepareHeader env f wc =
     (case env ''stat log'' of Some (e, _) \<Rightarrow> (Inl e, f) | None \<Rightarrow>
      let sz = lf_size f;
          expected = headerFor wc;
          hdrSize = length expected
      in if sz = 0 then writeFresh env expected f
         else case env ''read log header'' of Some (e, _) \<Rightarrow> (Inl e, f) | None \<Rightarrow>
         let got = take (min sz logHeaderSizeV2) (lf_content f)
         in if sz < hdrSize \<and> got = take sz expected then writeFresh env expected f
            else if sz < logHeaderSize \<or> take (length logMagic) got \<noteq> logMagic
            then (if wc \<noteq> None then (Inl ErrNotEncrypted, f) else (Inr 0, f))
            else if checksumIEEE (take 12 got) \<noteq> getUint32 (take 4 (drop 12 got))
            then (case env ''read past corrupt header'' of Some (e, _) \<Rightarrow> (Inl e, f) | None \<Rightarrow>
                  let rest = lf_section f logHeaderSize (sz - logHeaderSize)
                  in if scanForRecord rest \<noteq> None then (Inl ErrCorrupt, f)
                     else writeFresh env expected f)
            else let version = getUint32 (take 4 (drop 8 got))
                 in if logFormatVersion < version then (Inl ErrNewerFormat, f)
                    else let fileEncrypted = (encFormatVersion \<le> version)
                         in if fileEncrypted \<and> wc = None then (Inl ErrKeyRequired, f)
                            else if \<not> fileEncrypted \<and> wc \<noteq> None then (Inl ErrNotEncrypted, f)
                            else if \<not> fileEncrypted then (Inr logHeaderSize, f)
                            else if sz < logHeaderSizeV2 then writeFresh env expected f
                            else if take (hdrKCVOffset - hdrFlagsOffset) (drop hdrFlagsOffset got)
                                    \<noteq> take (hdrKCVOffset - hdrFlagsOffset) (drop hdrFlagsOffset expected)
                            then (Inl ErrCipherMismatch, f)
                            else if take (logHeaderSizeV2 - hdrKCVOffset) (drop hdrKCVOffset got)
                                    \<noteq> take (logHeaderSizeV2 - hdrKCVOffset) (drop hdrKCVOffset expected)
                            then (Inl ErrWrongKey, f)
                            else (Inr logHeaderSizeV2, f))"

section \<open>Shapes of headers\<close>

lemma length_logMagic [simp, frame_simps]: "length logMagic = 8"
  by (simp add: logMagic_def)

text \<open>The 16-byte prefix every header opens with, by version.\<close>

definition hdrPrefix :: "32 word \<Rightarrow> bytes" where
  "hdrPrefix v = logMagic @ putUint32 v @ putUint32 (checksumIEEE (logMagic @ putUint32 v))"

lemma length_hdrPrefix [simp, frame_simps]: "length (hdrPrefix v) = 16"
  by (simp add: hdrPrefix_def)

lemma hdrPrefix_fields [simp]:
  "take 8 (hdrPrefix v) = logMagic"
  "getUint32 (drop 12 (hdrPrefix v)) = checksumIEEE (take 12 (hdrPrefix v))"
  "getUint32 (take 4 (drop 8 (hdrPrefix v))) = v"
  by (simp_all add: hdrPrefix_def)

lemma logHeader_prefix: "logHeader = hdrPrefix 1"
  by (simp add: logHeader_def hdrPrefix_def Let_def)

text \<open>The key-check value of a cipher.\<close>

definition wcKCV :: "walCipher \<Rightarrow> bytes" where
  "wcKCV c = aead_seal (wc_kcv c) (replicate (aead_nonceSize (wc_kcv c)) 0) kcvConst
               (hdrPrefix 2 @ putUint32 (wcFlags c))"

lemma wcHeader_split: "wcHeader c = hdrPrefix 2 @ putUint32 (wcFlags c) @ wcKCV c"
  by (simp add: wcHeader_def wcKCV_def hdrPrefix_def Let_def)

text \<open>What the header code relies on of a cipher: a 24-byte key-check value.\<close>

definition kcv_ok :: "walCipher option \<Rightarrow> bool" where
  "kcv_ok wc \<longleftrightarrow> (case wc of None \<Rightarrow> True | Some c \<Rightarrow> length (wcKCV c) = 24)"

lemma kcv_ok_None [simp]: "kcv_ok None"
  by (simp add: kcv_ok_def)

lemma kcv_ok_newWalCipher:
  assumes "newWalCipher hkdf aesNew master = Inr c"
  shows "kcv_ok (Some c)"
proof -
  obtain E where "wc_kcv c = gcm E" using newWalCipher_gcm [OF assms] by blast
  then show ?thesis
    by (simp add: kcv_ok_def wcKCV_def gcm_aead.seal_length) (simp add: gcm_def kcvConst_def)
qed

lemma length_headerFor: "kcv_ok wc \<Longrightarrow> length (headerFor wc) = (if wc = None then 16 else 44)"
  by (auto simp: headerFor_def logHeader_prefix wcHeader_split kcv_ok_def split: option.splits)

section \<open>Behaviour\<close>

lemma writeFresh_ok:
  assumes "\<not> lf_closed f"
  shows "writeFresh io_ok h f =
    (Inr (length h), f\<lparr>lf_content := h, lf_synced := h, lf_pos := length h\<rparr>)"
  using assms
  by (simp add: writeFresh_def lf_truncate_def lf_seek_def lf_write_def lf_sync_def Let_def lf_size_def)

text \<open>An empty file, or one that holds a strict prefix of the header, starts over.\<close>

lemma prepareHeader_torn:
  assumes "kcv_ok wc" "\<not> lf_closed f" "n < length (headerFor wc)" "lf_content f = take n (headerFor wc)"
  shows "prepareHeader io_ok f wc =
    (Inr (length (headerFor wc)),
     f\<lparr>lf_content := headerFor wc, lf_synced := headerFor wc, lf_pos := length (headerFor wc)\<rparr>)"
proof -
  have "n \<le> 44" using assms(1,3) by (simp add: length_headerFor split: if_splits)
  then show ?thesis using assms
    by (simp add: prepareHeader_def writeFresh_ok lf_size_def Let_def)
qed

text \<open>The rest of the classification reads a file at least as long as a plain header.\<close>

lemma prepareHeader_prefix:
  assumes c: "lf_content f = hdrPrefix v @ rest"
    and nt: "\<not> (lf_size f < length (headerFor wc) \<and> lf_content f = take (lf_size f) (headerFor wc))"
  shows "prepareHeader io_ok f wc =
    (if 2 < v then (Inl ErrNewerFormat, f)
     else case wc of
         None \<Rightarrow> if v < 2 then (Inr 16, f) else (Inl ErrKeyRequired, f)
       | Some k \<Rightarrow>
           if v < 2 then (Inl ErrNotEncrypted, f)
           else if length rest < 28 then writeFresh io_ok (wcHeader k) f
           else if take 4 rest \<noteq> putUint32 (wcFlags k) then (Inl ErrCipherMismatch, f)
           else if take 24 (drop 4 rest) \<noteq> take 24 (wcKCV k) then (Inl ErrWrongKey, f)
           else (Inr 44, f))"
proof -
  have sz: "lf_size f = 16 + length rest" by (simp add: lf_size_def c)
  have got: "take (min (lf_size f) 44) (lf_content f) = hdrPrefix v @ take 28 rest"
    by (cases "length rest \<le> 28") (simp_all add: c sz min_def)
  have nt': "\<not> (lf_size f < length (headerFor wc) \<and> hdrPrefix v @ take 28 rest = take (lf_size f) (headerFor wc))"
  proof
    assume *: "lf_size f < length (headerFor wc) \<and> hdrPrefix v @ take 28 rest = take (lf_size f) (headerFor wc)"
    then have "length (hdrPrefix v @ take 28 rest) = lf_size f" by simp
    then have "take 28 rest = rest" using sz by simp
    with * nt c show False by simp
  qed
  have body: "prepareHeader io_ok f wc =
     (if 2 < v then (Inl ErrNewerFormat, f)
      else if 2 \<le> v \<and> wc = None then (Inl ErrKeyRequired, f)
      else if \<not> 2 \<le> v \<and> wc \<noteq> None then (Inl ErrNotEncrypted, f)
      else if \<not> 2 \<le> v then (Inr 16, f)
      else if length rest < 28 then writeFresh io_ok (headerFor wc) f
      else if take 4 rest \<noteq> take 4 (drop 16 (headerFor wc)) then (Inl ErrCipherMismatch, f)
      else if take 24 (drop 4 (take 28 rest)) \<noteq> take 24 (drop 20 (headerFor wc)) then (Inl ErrWrongKey, f)
      else (Inr 44, f))"
    unfolding prepareHeader_def Let_def option.case logHeaderSizeV2_def got if_not_P [OF nt']
    by (simp add: sz)
  show ?thesis
  proof (cases "v = 2")
    case True
    then show ?thesis unfolding body
      by (cases wc) (simp_all add: headerFor_def wcHeader_split drop_take)
  next
    case False
    then show ?thesis unfolding body by (cases wc) (auto simp: not_le not_less)
  qed
qed

text \<open>With working I/O, an error leaves the file exactly as it was.\<close>

lemma prepareHeader_error_frame:
  assumes "\<not> lf_closed f" "prepareHeader io_ok f wc = (Inl e, f')"
  shows "f' = f"
  using assms
  by (auto simp: prepareHeader_def writeFresh_ok Let_def split: if_splits)

lemma prepareHeader_result:
  assumes "\<not> lf_closed f" "prepareHeader io_ok f wc = (Inr n, f')"
  shows "f' = f \<or> n = length (headerFor wc) \<and>
    f' = f\<lparr>lf_content := headerFor wc, lf_synced := headerFor wc, lf_pos := length (headerFor wc)\<rparr>"
  using assms
  by (auto simp: prepareHeader_def writeFresh_ok Let_def split: if_splits)

lemma prepareHeader_own:
  assumes "kcv_ok wc" "\<not> lf_closed f" "lf_content f = headerFor wc @ rest"
  shows "prepareHeader io_ok f wc = (Inr (length (headerFor wc)), f)"
proof (cases wc)
  case None
  with assms show ?thesis
    by (subst prepareHeader_prefix [where v = 1 and rest = rest])
      (simp_all add: headerFor_def logHeader_prefix lf_size_def)
next
  case (Some k)
  with assms show ?thesis
    by (subst prepareHeader_prefix [where v = 2 and rest = "putUint32 (wcFlags k) @ wcKCV k @ rest"])
      (simp_all add: headerFor_def wcHeader_split lf_size_def kcv_ok_def)
qed

text \<open>The ciphers that \<^verbatim>\<open>Open\<close> passes to the header code.\<close>

definition header_cipher ::
    "(bytes \<Rightarrow> string \<Rightarrow> nat \<Rightarrow> bytes result) \<Rightarrow> (bytes \<Rightarrow> (block \<Rightarrow> block) result) \<Rightarrow> walCipher option \<Rightarrow> bool" where
  "header_cipher hkdf aesNew wc \<longleftrightarrow> wc = None \<or> (\<exists>master c. wc = Some c \<and> newWalCipher hkdf aesNew master = Inr c)"

lemma header_cipher_kcv: "header_cipher hkdf aesNew wc \<Longrightarrow> kcv_ok wc"
  using kcv_ok_newWalCipher by (auto simp: header_cipher_def)

text \<open>A prefix of another version is not the start of the expected header.\<close>

lemma hdrPrefix_inj: "hdrPrefix v = hdrPrefix w \<Longrightarrow> v = w"
  by (metis hdrPrefix_fields(3))

lemma other_version_not_torn:
  assumes "c = hdrPrefix v @ rest" "v \<noteq> (if wc = None then 1 else 2)"
  shows "c \<noteq> take n (headerFor wc)"
proof
  assume eq: "c = take n (headerFor wc)"
  let ?w = "if wc = None then 1 else 2 :: 32 word"
  obtain r where h: "headerFor wc = hdrPrefix ?w @ r"
    by (cases wc) (auto simp: headerFor_def logHeader_prefix wcHeader_split)
  have "hdrPrefix v = take 16 (take n (hdrPrefix ?w @ r))" using eq h assms(1) by (metis append_eq_conv_conj length_hdrPrefix)
  moreover have "16 \<le> n" using arg_cong [OF calculation, of length] by simp
  ultimately have "hdrPrefix v = hdrPrefix ?w" by simp
  with hdrPrefix_inj assms(2) show False by blast
qed

section \<open>Properties\<close>

text \<open>
  Header round trip: on an empty file, or one where a crash cut the writing of its header
  short, \<^verbatim>\<open>prepareHeader\<close> writes the whole header, syncs it and puts the records behind it; the
  same call on the file it leaves, with any records appended, accepts it unchanged.
\<close>

theorem header_written_then_accepted:
  assumes "header_cipher hkdf aesNew wc" "\<not> lf_closed f"
    and "n < length (headerFor wc)" "lf_content f = take n (headerFor wc)"
  shows "\<exists>f'. prepareHeader io_ok f wc = (Inr (length (headerFor wc)), f') \<and>
    lf_content f' = headerFor wc \<and> lf_synced f' = headerFor wc \<and> lf_pos f' = length (headerFor wc) \<and>
    prepareHeader io_ok (f'\<lparr>lf_content := headerFor wc @ recs\<rparr>) wc =
      (Inr (length (headerFor wc)), f'\<lparr>lf_content := headerFor wc @ recs\<rparr>)"
proof -
  note kcv = header_cipher_kcv [OF assms(1)]
  note t = prepareHeader_torn [OF kcv assms(2-4)]
  let ?f = "f\<lparr>lf_content := headerFor wc, lf_synced := headerFor wc, lf_pos := length (headerFor wc)\<rparr>"
  have "prepareHeader io_ok (?f\<lparr>lf_content := headerFor wc @ recs\<rparr>) wc =
      (Inr (length (headerFor wc)), ?f\<lparr>lf_content := headerFor wc @ recs\<rparr>)"
    by (rule prepareHeader_own [OF kcv]) (use assms(2) in simp_all)
  with t show ?thesis by (intro exI [of _ ?f]) simp
qed

theorem header_written_then_accepted_witness:
  "\<exists>f'. prepareHeader io_ok (emptyFile\<lparr>lf_content := take 5 logHeader\<rparr>) None = (Inr 16, f') \<and>
     lf_content f' = logHeader \<and> prepareHeader io_ok (f'\<lparr>lf_content := logHeader @ [1]\<rparr>) None =
       (Inr 16, f'\<lparr>lf_content := logHeader @ [1]\<rparr>)"
  using header_written_then_accepted [of "\<lambda>_ _ _. Inr []" "\<lambda>_. Inr id" None "emptyFile\<lparr>lf_content := take 5 logHeader\<rparr>" 5 "[1]"]
  by (auto simp: header_cipher_def headerFor_def emptyFile_def logHeader_prefix)



end
