(* ===== verification/Db.thy ===== *)
theory Db
  imports State Header "HOL-Library.While_Combinator"
begin

text \<open>
  The database handle of \<^verbatim>\<open>src/db.go\<close>: its options, its fields, the append path of the log,
  the direct reads and writes, \<^verbatim>\<open>Sync\<close> and \<^verbatim>\<open>Close\<close>, and the group-commit wait of
  \<^verbatim>\<open>src/groupcommit.go\<close> as one goroutine runs it (theory \<open>GroupCommit\<close> has the concurrent
  one). Time is an argument: \<open>now\<close> is \<^verbatim>\<open>time.Now().UnixNano()\<close>. A write takes the
  single-writer lock; the functions here are what runs once the lock is free.
\<close>

section \<open>Options\<close>

datatype SyncPolicy = SyncAlways | SyncEverySecond | SyncNever

record options =
  o_syncPolicy :: SyncPolicy
  o_autoCompact :: bool
  o_compactMinSize :: int
  o_compactGrowthPct :: int
  o_sweepInterval :: int
  o_truncateAtCorrupt :: bool
  o_encKey :: "bytes option"

definition defaultOptions :: options where
  "defaultOptions =
     \<lparr>o_syncPolicy = SyncAlways, o_autoCompact = True, o_compactMinSize = 32 * 2 ^ 20,
      o_compactGrowthPct = 100, o_sweepInterval = 500 * 1000000,
      o_truncateAtCorrupt = False, o_encKey = None\<rparr>"

definition WithSyncPolicy :: "SyncPolicy \<Rightarrow> options \<Rightarrow> options" where
  "WithSyncPolicy p o' = o'\<lparr>o_syncPolicy := p\<rparr>"

definition WithAutoCompact :: "int \<Rightarrow> int \<Rightarrow> options \<Rightarrow> options" where
  "WithAutoCompact minSize growthPct o' =
     o'\<lparr>o_autoCompact := True, o_compactMinSize := minSize, o_compactGrowthPct := growthPct\<rparr>"

definition WithAutoCompactDisabled :: "options \<Rightarrow> options" where
  "WithAutoCompactDisabled o' = o'\<lparr>o_autoCompact := False\<rparr>"

definition WithTruncateAtCorruption :: "options \<Rightarrow> options" where
  "WithTruncateAtCorruption o' = o'\<lparr>o_truncateAtCorrupt := True\<rparr>"

definition WithSweepInterval :: "int \<Rightarrow> options \<Rightarrow> options" where
  "WithSweepInterval d o' = o'\<lparr>o_sweepInterval := d\<rparr>"

text \<open>The copy \<^verbatim>\<open>append([]byte(nil), key...)\<close> of an empty key is a nil slice.\<close>

definition WithEncryptionKey :: "bytes \<Rightarrow> options \<Rightarrow> options" where
  "WithEncryptionKey key o' = o'\<lparr>o_encKey := (if key = [] then None else Some key)\<rparr>"

section \<open>The handle\<close>

record groupSync =
  gs_synced :: nat
  gs_syncing :: bool
  gs_err :: "goerr option"

text \<open>
  \<open>db_file\<close> is a handle into \<open>db_fs\<close>. \<open>db_writerMu\<close> says that a writable transaction
  holds the writer lock. \<^verbatim>\<open>wbuf\<close> is a scratch buffer with no state of its own; the
  channels of the background loops carry no data.
\<close>

record ('k, 'v, 'm, 'n, 'e, 'j) db =
  db_path :: string
  db_keyCodec :: "'k codec"
  db_valCodec :: "'v codec"
  db_cipher :: "walCipher option"
  db_policy :: SyncPolicy
  db_autoCompact :: bool
  db_compactMinSize :: int
  db_compactGrowthPct :: int
  db_sweepInterval :: int
  db_writerMu :: bool
  db_state :: "('k, 'v, 'm, 'n, 'e, 'j) dbState"
  db_file :: nat
  db_fs :: fsys
  db_walSize :: nat
  db_baseSize :: nat
  db_fileEpoch :: nat
  db_appendSeq :: nat
  db_closed :: bool
  db_compacting :: bool
  db_writeErr :: "goerr option"
  db_syncErr :: "goerr option"
  db_compactErr :: "goerr option"
  db_sweepErr :: "goerr option"
  db_gsync :: groupSync

abbreviation the_file :: "('k, 'v, 'm, 'n, 'e, 'j) db \<Rightarrow> logfile" where
  "the_file db \<equiv> fs_inode (db_fs db) (db_file db)"

definition set_file :: "logfile \<Rightarrow> ('k, 'v, 'm, 'n, 'e, 'j) db \<Rightarrow> ('k, 'v, 'm, 'n, 'e, 'j) db" where
  "set_file f db = db\<lparr>db_fs := fs_upd (db_file db) f (db_fs db)\<rparr>"

section \<open>The append path\<close>

definition canWrite :: "('k, 'v, 'm, 'n, 'e, 'j) db \<Rightarrow> goerr option" where
  "canWrite db = (if db_closed db then Some ErrClosed else db_writeErr db)"

text \<open>Go's integer division truncates towards zero.\<close>

definition quot100 :: "int \<Rightarrow> int" where
  "quot100 x = (if x < 0 then - ((- x) div 100) else x div 100)"

text \<open>
  The compaction that \<^verbatim>\<open>maybeAutoCompact\<close> spawns runs on its own; the flag says it is due.
\<close>

definition maybeAutoCompact :: "('k, 'v, 'm, 'n, 'e, 'j) db \<Rightarrow> ('k, 'v, 'm, 'n, 'e, 'j) db" where
  "maybeAutoCompact db =
     (if \<not> db_autoCompact db \<or> db_compacting db \<or> db_closed db \<or> db_writeErr db \<noteq> None then db
      else if int (db_walSize db) < db_compactMinSize db then db
      else if int (db_walSize db) - int (db_baseSize db)
              < quot100 (int64_wrap (int (db_baseSize db) * db_compactGrowthPct db)) then db
      else db\<lparr>db_compacting := True\<rparr>)"

definition writeLog ::
    "io_env \<Rightarrow> bytes \<Rightarrow> ('k, 'v, 'm, 'n, 'e, 'j) db \<Rightarrow> goerr option \<times> ('k, 'v, 'm, 'n, 'e, 'j) db" where
  "writeLog env buf db =
     (case lf_write (env ''log append'') buf (the_file db) of
        (Some e, f) \<Rightarrow> (Some e, (set_file f db)\<lparr>db_writeErr := Some e\<rparr>)
      | (None, f) \<Rightarrow>
          (None, maybeAutoCompact
             ((set_file f db)\<lparr>db_appendSeq := db_appendSeq db + 1,
                              db_walSize := db_walSize db + length buf\<rparr>)))"

definition appendToLog ::
    "io_env \<Rightarrow> rand \<Rightarrow> byte \<Rightarrow> bytes \<Rightarrow> bytes \<Rightarrow> ('k, 'v, 'm, 'n, 'e, 'j) db
       \<Rightarrow> goerr option \<times> ('k, 'v, 'm, 'n, 'e, 'j) db" where
  "appendToLog env rnd op key val db =
     (case appendSealedRecord [] (db_cipher db) rnd op key val of
        Inl e \<Rightarrow> (Some e, db)
      | Inr buf \<Rightarrow> writeLog env buf db)"

section \<open>Group commit, one goroutine\<close>

definition markDurable :: "('k, 'v, 'm, 'n, 'e, 'j) db \<Rightarrow> ('k, 'v, 'm, 'n, 'e, 'j) db" where
  "markDurable db =
     db\<lparr>db_gsync := (db_gsync db)\<lparr>gs_synced := max (gs_synced (db_gsync db)) (db_appendSeq db)\<rparr>\<rparr>"

text \<open>
  The leader's turn of the loop. No other goroutine runs, so the file handle read before
  the fsync is still the current one after it.
\<close>

definition leaderSync :: "io_env \<Rightarrow> ('k, 'v, 'm, 'n, 'e, 'j) db \<Rightarrow> ('k, 'v, 'm, 'n, 'e, 'j) db" where
  "leaderSync env db =
     (if db_closed db
      then db\<lparr>db_gsync := (db_gsync db)\<lparr>gs_err := Some ErrClosed\<rparr>\<rparr>
      else case lf_sync (env ''group sync'') (the_file db) of
          (Some e, f) \<Rightarrow>
            (set_file f db)\<lparr>db_writeErr := (if db_writeErr db = None then Some e else db_writeErr db),
                            db_gsync := (db_gsync db)\<lparr>gs_err := Some e\<rparr>\<rparr>
        | (None, f) \<Rightarrow> markDurable (set_file f db))"

definition waitDurable ::
    "io_env \<Rightarrow> nat \<Rightarrow> ('k, 'v, 'm, 'n, 'e, 'j) db \<Rightarrow> goerr option \<times> ('k, 'v, 'm, 'n, 'e, 'j) db" where
  "waitDurable env seq db =
     (if db_policy db \<noteq> SyncAlways then (None, db)
      else let db = while (\<lambda>db. gs_synced (db_gsync db) < seq \<and> gs_err (db_gsync db) = None)
                      (leaderSync env) db
           in (if seq \<le> gs_synced (db_gsync db) then None else gs_err (db_gsync db), db))"

section \<open>Direct writes\<close>

definition setInternal ::
    "('k::linorder, 'v, 'm, 'n, 'e, 'j) trees \<Rightarrow> io_env \<Rightarrow> rand \<Rightarrow> 'k \<Rightarrow> 'v \<Rightarrow> int
       \<Rightarrow> ('k, 'v, 'm, 'n, 'e, 'j) db \<Rightarrow> goerr option \<times> ('k, 'v, 'm, 'n, 'e, 'j) db" where
  "setInternal B env rnd key v deadline db =
     (case Encode (db_keyCodec db) key of Inl e \<Rightarrow> (Some e, db) | Inr kb \<Rightarrow>
      case Encode (db_valCodec db) v of Inl e \<Rightarrow> (Some e, db) | Inr vb \<Rightarrow>
      let (op, vb) = (if 0 < deadline then (opSetTTL, prependDeadline deadline vb) else (opSet, vb));
          (err, db) = (case canWrite db of
             None \<Rightarrow> appendToLog env rnd op kb vb db
           | Some e \<Rightarrow> (Some e, db));
          db = (if err = None then db\<lparr>db_state := stateSet B key v deadline (db_state db)\<rparr> else db);
          seq = db_appendSeq db
      in case err of Some e \<Rightarrow> (Some e, db) | None \<Rightarrow> waitDurable env seq db)"

definition dbSet ::
    "('k::linorder, 'v, 'm, 'n, 'e, 'j) trees \<Rightarrow> io_env \<Rightarrow> rand \<Rightarrow> 'k \<Rightarrow> 'v
       \<Rightarrow> ('k, 'v, 'm, 'n, 'e, 'j) db \<Rightarrow> goerr option \<times> ('k, 'v, 'm, 'n, 'e, 'j) db" where
  "dbSet B env rnd key v db = setInternal B env rnd key v 0 db"

text \<open>\<^verbatim>\<open>time.Now().Add(ttl).UnixNano()\<close>, an \<^verbatim>\<open>int64\<close> computation that wraps.\<close>

definition deadlineAt :: "int \<Rightarrow> int \<Rightarrow> int" where
  "deadlineAt now ttl = int64_wrap (now + ttl)"

definition dbSetTTL ::
    "('k::linorder, 'v, 'm, 'n, 'e, 'j) trees \<Rightarrow> io_env \<Rightarrow> rand \<Rightarrow> int \<Rightarrow> 'k \<Rightarrow> 'v \<Rightarrow> int
       \<Rightarrow> ('k, 'v, 'm, 'n, 'e, 'j) db \<Rightarrow> goerr option \<times> ('k, 'v, 'm, 'n, 'e, 'j) db" where
  "dbSetTTL B env rnd now key v ttl db =
     (if ttl \<le> 0 then (Some (ErrNew ''ttl must be positive''), db)
      else setInternal B env rnd key v (deadlineAt now ttl) db)"

definition dbDelete ::
    "('k::linorder, 'v, 'm, 'n, 'e, 'j) trees \<Rightarrow> io_env \<Rightarrow> rand \<Rightarrow> int \<Rightarrow> 'k
       \<Rightarrow> ('k, 'v, 'm, 'n, 'e, 'j) db \<Rightarrow> bool result \<times> ('k, 'v, 'm, 'n, 'e, 'j) db" where
  "dbDelete B env rnd now key db =
     (case Encode (db_keyCodec db) key of Inl e \<Rightarrow> (Inl e, db) | Inr kb \<Rightarrow>
      let err = canWrite db
      in if err = None \<and> \<not> m_contains (dataOps B) (st_data (db_state db)) key then (Inr False, db)
         else let isVisible = \<not> expired B key now (db_state db);
                  (err, db) = (case err of
                     None \<Rightarrow> appendToLog env rnd opDelete kb [] db
                   | Some e \<Rightarrow> (Some e, db));
                  db = (if err = None then db\<lparr>db_state := fst (stateDelete B key (db_state db))\<rparr> else db);
                  seq = db_appendSeq db
              in case err of
                   Some e \<Rightarrow> (Inl e, db)
                 | None \<Rightarrow> (case waitDurable env seq db of
                       (Some e, db) \<Rightarrow> (Inl e, db)
                     | (None, db) \<Rightarrow> (Inr isVisible, db)))"

section \<open>Reads\<close>

definition dbTTL ::
    "('k::linorder, 'v, 'm, 'n, 'e, 'j) trees \<Rightarrow> int \<Rightarrow> 'k \<Rightarrow> ('k, 'v, 'm, 'n, 'e, 'j) db \<Rightarrow> int option" where
  "dbTTL B now key db =
     (case m_get (ttlOps B) (st_ttl (db_state db)) key of
        None \<Rightarrow> None
      | Some dl \<Rightarrow> if dl \<le> now then None else Some (int64_wrap (dl - now)))"

definition dbGet ::
    "('k::linorder, 'v, 'm, 'n, 'e, 'j) trees \<Rightarrow> int \<Rightarrow> 'k \<Rightarrow> ('k, 'v, 'm, 'n, 'e, 'j) db \<Rightarrow> 'v option" where
  "dbGet B now key db = stateGet B key now (db_state db)"

definition dbContains ::
    "('k::linorder, 'v, 'm, 'n, 'e, 'j) trees \<Rightarrow> int \<Rightarrow> 'k \<Rightarrow> ('k, 'v, 'm, 'n, 'e, 'j) db \<Rightarrow> bool" where
  "dbContains B now key db = (dbGet B now key db \<noteq> None)"

definition dbLen :: "('k::linorder, 'v, 'm, 'n, 'e, 'j) trees \<Rightarrow> ('k, 'v, 'm, 'n, 'e, 'j) db \<Rightarrow> nat" where
  "dbLen B db = m_len (dataOps B) (st_data (db_state db))"

definition dbLiveLen :: "('k::linorder, 'v, 'm, 'n, 'e, 'j) trees \<Rightarrow> int \<Rightarrow> ('k, 'v, 'm, 'n, 'e, 'j) db \<Rightarrow> int" where
  "dbLiveLen B now db = liveLen B now (db_state db)"

text \<open>
  The iterators differ in the walk over the primary tree they filter; \<open>yield\<close> is the loop
  body.
\<close>

definition dbAll where
  "dbAll B now db yield c =
     iterPairs (\<lambda>k. expired B k now (db_state db)) (m_all (dataOps B) (st_data (db_state db))) yield c"

definition dbKeys where
  "dbKeys B now db yield c =
     iterPairs (\<lambda>k. expired B k now (db_state db)) (m_all (dataOps B) (st_data (db_state db)))
       (\<lambda>c k v. yield c k) c"

definition dbValues where
  "dbValues B now db yield c =
     iterPairs (\<lambda>k. expired B k now (db_state db)) (m_all (dataOps B) (st_data (db_state db)))
       (\<lambda>c k v. yield c v) c"

definition dbAscend where
  "dbAscend B now from' db yield c =
     iterPairs (\<lambda>k. expired B k now (db_state db)) (m_ascend (dataOps B) (st_data (db_state db)) from') yield c"

definition dbBackward where
  "dbBackward B now db yield c =
     iterPairs (\<lambda>k. expired B k now (db_state db)) (m_backward (dataOps B) (st_data (db_state db))) yield c"

definition dbDescend where
  "dbDescend B now from' db yield c =
     iterPairs (\<lambda>k. expired B k now (db_state db)) (m_descend (dataOps B) (st_data (db_state db)) from') yield c"

section \<open>Sync and Close\<close>

definition dbSync ::
    "io_env \<Rightarrow> ('k, 'v, 'm, 'n, 'e, 'j) db \<Rightarrow> goerr option \<times> ('k, 'v, 'm, 'n, 'e, 'j) db" where
  "dbSync env db =
     (if db_closed db then (Some ErrClosed, db)
      else case lf_sync (env ''sync'') (the_file db) of
          (Some e, f) \<Rightarrow> (Some e, set_file f db)
        | (None, f) \<Rightarrow> (None, markDurable (set_file f db)))"

text \<open>The errors that \<^verbatim>\<open>errors.Join\<close> collects; the empty list is nil.\<close>

definition closeFinish ::
    "io_env \<Rightarrow> ('k, 'v, 'm, 'n, 'e, 'j) db \<Rightarrow> goerr list \<times> ('k, 'v, 'm, 'n, 'e, 'j) db" where
  "closeFinish env db =
     (let errs = List.map_filter id [db_syncErr db, db_compactErr db, db_sweepErr db];
          (errs, db) = (case lf_sync (env ''final sync'') (the_file db) of
             (Some e, f) \<Rightarrow> (errs @ [e], set_file f db)
           | (None, f) \<Rightarrow> (errs, markDurable (set_file f db)));
          (errs, db) = (case lf_close (env ''close file'') (the_file db) of
             (Some e, f) \<Rightarrow> (errs @ [e], set_file f db)
           | (None, f) \<Rightarrow> (errs, set_file f db))
      in (errs, db))"

text \<open>
  The lock is dropped between the two halves, for the background goroutines to end;
  \<open>dbClose\<close> runs them with nothing in between.
\<close>

definition dbClose ::
    "io_env \<Rightarrow> ('k, 'v, 'm, 'n, 'e, 'j) db \<Rightarrow> goerr list \<times> ('k, 'v, 'm, 'n, 'e, 'j) db" where
  "dbClose env db = (if db_closed db then ([], db) else closeFinish env (db\<lparr>db_closed := True\<rparr>))"

text \<open>One tick of the background syncer.\<close>

definition backgroundSync :: "io_env \<Rightarrow> ('k, 'v, 'm, 'n, 'e, 'j) db \<Rightarrow> ('k, 'v, 'm, 'n, 'e, 'j) db" where
  "backgroundSync env db =
     (if db_closed db then db
      else case lf_sync (env ''background sync'') (the_file db) of
          (Some e, f) \<Rightarrow>
            (set_file f db)\<lparr>db_syncErr := (if db_syncErr db = None then Some e else db_syncErr db)\<rparr>
        | (None, f) \<Rightarrow> set_file f db)"

end
