(* ===== verification/Tx.thy ===== *)
theory Tx
  imports Db
begin

text \<open>
  Transactions and savepoints, \<^verbatim>\<open>src/tx.go\<close> and \<^verbatim>\<open>src/savepoint.go\<close>. A transaction owns a
  private copy of the state and the framed records of its writes. Savepoints are objects
  the caller keeps pointers to, so they live in a store from addresses to savepoints; a
  transaction's stack holds addresses.
\<close>

section \<open>Data\<close>

record ('k, 'v, 'm, 'n, 'e, 'j) savepoint =
  sp_state :: "('k, 'v, 'm, 'n, 'e, 'j) dbState"
  sp_pendingLen :: nat
  sp_nops :: nat
  sp_active :: bool

type_synonym ('k, 'v, 'm, 'n, 'e, 'j) spstore = "nat \<Rightarrow> ('k, 'v, 'm, 'n, 'e, 'j) savepoint option"

record ('k, 'v, 'm, 'n, 'e, 'j) tx =
  tx_state :: "('k, 'v, 'm, 'n, 'e, 'j) dbState"
  tx_writable :: bool
  tx_pending :: bytes
  tx_nops :: nat
  tx_saves :: "nat list"
  tx_done :: bool

section \<open>Savepoints\<close>

text \<open>Clearing \<^verbatim>\<open>active\<close> on the savepoints at some addresses.\<close>

definition deactivate ::
    "nat list \<Rightarrow> ('k, 'v, 'm, 'n, 'e, 'j) spstore \<Rightarrow> ('k, 'v, 'm, 'n, 'e, 'j) spstore" where
  "deactivate as hp =
     (\<lambda>a. if a \<in> set as then map_option (\<lambda>sp. sp\<lparr>sp_active := False\<rparr>) (hp a) else hp a)"

definition txSavepoint ::
    "('k::linorder, 'v, 'm, 'n, 'e, 'j) trees \<Rightarrow> nat \<Rightarrow> ('k, 'v, 'm, 'n, 'e, 'j) spstore
       \<Rightarrow> ('k, 'v, 'm, 'n, 'e, 'j) tx
       \<Rightarrow> (('k, 'v, 'm, 'n, 'e, 'j) spstore \<times> ('k, 'v, 'm, 'n, 'e, 'j) tx) result" where
  "txSavepoint B addr hp tx =
     (if tx_done tx then Inl ErrTxClosed
      else Inr (hp(addr \<mapsto> \<lparr>sp_state = stateCopy B (tx_state tx), sp_pendingLen = length (tx_pending tx),
                          sp_nops = tx_nops tx, sp_active = True\<rparr>),
                tx\<lparr>tx_saves := tx_saves tx @ [addr]\<rparr>))"

text \<open>The backwards search for a pointer on the stack.\<close>

fun findFrom :: "nat \<Rightarrow> nat list \<Rightarrow> nat \<Rightarrow> nat option" where
  "findFrom 0 saves sp = None"
| "findFrom (Suc i) saves sp = (if saves ! i = sp then Some i else findFrom i saves sp)"

definition findSave ::
    "('k, 'v, 'm, 'n, 'e, 'j) spstore \<Rightarrow> nat option \<Rightarrow> ('k, 'v, 'm, 'n, 'e, 'j) tx
       \<Rightarrow> (nat \<times> ('k, 'v, 'm, 'n, 'e, 'j) savepoint) result" where
  "findSave hp ptr tx =
     (if tx_done tx then Inl ErrTxClosed
      else case ptr of
          None \<Rightarrow> Inl ErrSavepointInvalid
        | Some a \<Rightarrow> (case hp a of
              None \<Rightarrow> Inl ErrSavepointInvalid
            | Some sp \<Rightarrow>
                if \<not> sp_active sp then Inl ErrSavepointInvalid
                else (case findFrom (length (tx_saves tx)) (tx_saves tx) a of
                        None \<Rightarrow> Inl ErrSavepointInvalid
                      | Some i \<Rightarrow> Inr (i, sp))))"

definition txRollbackTo ::
    "('k::linorder, 'v, 'm, 'n, 'e, 'j) trees \<Rightarrow> ('k, 'v, 'm, 'n, 'e, 'j) spstore \<Rightarrow> nat option
       \<Rightarrow> ('k, 'v, 'm, 'n, 'e, 'j) tx
       \<Rightarrow> (('k, 'v, 'm, 'n, 'e, 'j) spstore \<times> ('k, 'v, 'm, 'n, 'e, 'j) tx) result" where
  "txRollbackTo B hp ptr tx =
     (case findSave hp ptr tx of
        Inl e \<Rightarrow> Inl e
      | Inr (i, sp) \<Rightarrow>
          Inr (deactivate (drop (i + 1) (tx_saves tx)) hp,
               tx\<lparr>tx_state := stateCopy B (sp_state sp), tx_saves := take (i + 1) (tx_saves tx),
                  tx_pending := take (sp_pendingLen sp) (tx_pending tx), tx_nops := sp_nops sp\<rparr>))"

definition txRelease ::
    "('k, 'v, 'm, 'n, 'e, 'j) spstore \<Rightarrow> nat option \<Rightarrow> ('k, 'v, 'm, 'n, 'e, 'j) tx
       \<Rightarrow> (('k, 'v, 'm, 'n, 'e, 'j) spstore \<times> ('k, 'v, 'm, 'n, 'e, 'j) tx) result" where
  "txRelease hp ptr tx =
     (case findSave hp ptr tx of
        Inl e \<Rightarrow> Inl e
      | Inr (i, sp) \<Rightarrow>
          Inr (deactivate (drop i (tx_saves tx)) hp, tx\<lparr>tx_saves := take i (tx_saves tx)\<rparr>))"

definition releaseSaves ::
    "('k, 'v, 'm, 'n, 'e, 'j) spstore \<Rightarrow> ('k, 'v, 'm, 'n, 'e, 'j) tx
       \<Rightarrow> ('k, 'v, 'm, 'n, 'e, 'j) spstore \<times> ('k, 'v, 'm, 'n, 'e, 'j) tx" where
  "releaseSaves hp tx = (deactivate (tx_saves tx) hp, tx\<lparr>tx_saves := []\<rparr>)"

section \<open>Begin, Commit, Rollback\<close>

definition dbBegin ::
    "('k::linorder, 'v, 'm, 'n, 'e, 'j) trees \<Rightarrow> bool \<Rightarrow> ('k, 'v, 'm, 'n, 'e, 'j) db
       \<Rightarrow> ('k, 'v, 'm, 'n, 'e, 'j) tx result \<times> ('k, 'v, 'm, 'n, 'e, 'j) db" where
  "dbBegin B writable db =
     (case (if writable then canWrite db else if db_closed db then Some ErrClosed else None) of
        Some e \<Rightarrow> (Inl e, db)
      | None \<Rightarrow>
          (Inr \<lparr>tx_state = stateCopy B (db_state db), tx_writable = writable, tx_pending = [],
                tx_nops = 0, tx_saves = [], tx_done = False\<rparr>,
           if writable then db\<lparr>db_writerMu := True\<rparr> else db))"

definition batchPrefix :: "nat \<Rightarrow> bytes" where
  "batchPrefix nops = appendRecord [] opBatch [] (putUint64 (word_of_nat nops))"

definition txCommit ::
    "io_env \<Rightarrow> ('k, 'v, 'm, 'n, 'e, 'j) spstore \<Rightarrow> ('k, 'v, 'm, 'n, 'e, 'j) db \<Rightarrow> ('k, 'v, 'm, 'n, 'e, 'j) tx
       \<Rightarrow> goerr option \<times> ('k, 'v, 'm, 'n, 'e, 'j) spstore \<times> ('k, 'v, 'm, 'n, 'e, 'j) db
            \<times> ('k, 'v, 'm, 'n, 'e, 'j) tx" where
  "txCommit env hp db tx =
     (if tx_done tx then (Some ErrTxClosed, hp, db, tx)
      else let tx = tx\<lparr>tx_done := True\<rparr>;
               (hp, tx) = releaseSaves hp tx
           in if \<not> tx_writable tx then (None, hp, db, tx)
              else let err = canWrite db
                   in if err \<noteq> None \<or> tx_nops tx = 0 then (err, hp, db\<lparr>db_writerMu := False\<rparr>, tx)
                      else let buf = (if 1 < tx_nops tx then batchPrefix (tx_nops tx) @ tx_pending tx
                                      else tx_pending tx)
                           in (case writeLog env buf db of
                                 (Some e, db) \<Rightarrow> (Some e, hp, db\<lparr>db_writerMu := False\<rparr>, tx)
                               | (None, db) \<Rightarrow>
                                   (let db = db\<lparr>db_state := tx_state tx, db_writerMu := False\<rparr>;
                                        (err, db) = waitDurable env (db_appendSeq db) db
                                    in (err, hp, db, tx))))"

definition txRollback ::
    "('k, 'v, 'm, 'n, 'e, 'j) spstore \<Rightarrow> ('k, 'v, 'm, 'n, 'e, 'j) db \<Rightarrow> ('k, 'v, 'm, 'n, 'e, 'j) tx
       \<Rightarrow> ('k, 'v, 'm, 'n, 'e, 'j) spstore \<times> ('k, 'v, 'm, 'n, 'e, 'j) db \<times> ('k, 'v, 'm, 'n, 'e, 'j) tx" where
  "txRollback hp db tx =
     (if tx_done tx then (hp, db, tx)
      else let tx = tx\<lparr>tx_done := True\<rparr>;
               (hp, tx) = releaseSaves hp tx
           in (hp, if tx_writable tx then db\<lparr>db_writerMu := False\<rparr> else db, tx))"

section \<open>Writes\<close>

definition txSetInternal ::
    "('k::linorder, 'v, 'm, 'n, 'e, 'j) trees \<Rightarrow> rand \<Rightarrow> ('k, 'v, 'm, 'n, 'e, 'j) db \<Rightarrow> 'k \<Rightarrow> 'v \<Rightarrow> int
       \<Rightarrow> ('k, 'v, 'm, 'n, 'e, 'j) tx \<Rightarrow> goerr option \<times> ('k, 'v, 'm, 'n, 'e, 'j) tx" where
  "txSetInternal B rnd db key v deadline tx =
     (if tx_done tx then (Some ErrTxClosed, tx)
      else if \<not> tx_writable tx then (Some ErrTxNotWritable, tx)
      else case Encode (db_keyCodec db) key of Inl e \<Rightarrow> (Some e, tx) | Inr kb \<Rightarrow>
           case Encode (db_valCodec db) v of Inl e \<Rightarrow> (Some e, tx) | Inr vb \<Rightarrow>
           let (op, vb) = (if 0 < deadline then (opSetTTL, prependDeadline deadline vb) else (opSet, vb))
           in case appendSealedRecord (tx_pending tx) (db_cipher db) rnd op kb vb of
                Inl e \<Rightarrow> (Some e, tx)
              | Inr pending \<Rightarrow>
                  (None, tx\<lparr>tx_pending := pending, tx_nops := tx_nops tx + 1,
                            tx_state := stateSet B key v deadline (tx_state tx)\<rparr>))"

definition txSet ::
    "('k::linorder, 'v, 'm, 'n, 'e, 'j) trees \<Rightarrow> rand \<Rightarrow> ('k, 'v, 'm, 'n, 'e, 'j) db \<Rightarrow> 'k \<Rightarrow> 'v
       \<Rightarrow> ('k, 'v, 'm, 'n, 'e, 'j) tx \<Rightarrow> goerr option \<times> ('k, 'v, 'm, 'n, 'e, 'j) tx" where
  "txSet B rnd db key v tx = txSetInternal B rnd db key v 0 tx"

definition txSetTTL ::
    "('k::linorder, 'v, 'm, 'n, 'e, 'j) trees \<Rightarrow> rand \<Rightarrow> int \<Rightarrow> ('k, 'v, 'm, 'n, 'e, 'j) db \<Rightarrow> 'k \<Rightarrow> 'v \<Rightarrow> int
       \<Rightarrow> ('k, 'v, 'm, 'n, 'e, 'j) tx \<Rightarrow> goerr option \<times> ('k, 'v, 'm, 'n, 'e, 'j) tx" where
  "txSetTTL B rnd now db key v ttl tx =
     (if ttl \<le> 0 then (Some (ErrNew ''ttl must be positive''), tx)
      else txSetInternal B rnd db key v (deadlineAt now ttl) tx)"

text \<open>The part of a delete that the single delete and the range delete share.\<close>

definition txDrop ::
    "('k::linorder, 'v, 'm, 'n, 'e, 'j) trees \<Rightarrow> 'k \<Rightarrow> bytes \<Rightarrow> ('k, 'v, 'm, 'n, 'e, 'j) tx
       \<Rightarrow> ('k, 'v, 'm, 'n, 'e, 'j) tx" where
  "txDrop B key kb tx =
     tx\<lparr>tx_pending := appendRecord (tx_pending tx) opDelete kb [], tx_nops := tx_nops tx + 1,
        tx_state := fst (stateDelete B key (tx_state tx))\<rparr>"

definition txDelete ::
    "('k::linorder, 'v, 'm, 'n, 'e, 'j) trees \<Rightarrow> int \<Rightarrow> ('k, 'v, 'm, 'n, 'e, 'j) db \<Rightarrow> 'k
       \<Rightarrow> ('k, 'v, 'm, 'n, 'e, 'j) tx \<Rightarrow> bool result \<times> ('k, 'v, 'm, 'n, 'e, 'j) tx" where
  "txDelete B now db key tx =
     (if tx_done tx then (Inl ErrTxClosed, tx)
      else if \<not> tx_writable tx then (Inl ErrTxNotWritable, tx)
      else if \<not> m_contains (dataOps B) (st_data (tx_state tx)) key then (Inr False, tx)
      else case Encode (db_keyCodec db) key of
          Inl e \<Rightarrow> (Inl e, tx)
        | Inr kb \<Rightarrow> (Inr (\<not> expired B key now (tx_state tx)), txDrop B key kb tx))"

text \<open>The first loop of \<^verbatim>\<open>DeleteRange\<close> stops at the first key not below \<open>max\<close>.\<close>

fun encodeAll :: "('k \<Rightarrow> bytes result) \<Rightarrow> 'k list \<Rightarrow> bytes list result" where
  "encodeAll enc [] = Inr []"
| "encodeAll enc (k # ks) =
     (case enc k of Inl e \<Rightarrow> Inl e | Inr kb \<Rightarrow>
      case encodeAll enc ks of Inl e \<Rightarrow> Inl e | Inr kbs \<Rightarrow> Inr (kb # kbs))"

fun dropAll ::
    "('k::linorder, 'v, 'm, 'n, 'e, 'j) trees \<Rightarrow> int \<Rightarrow> ('k \<times> bytes) list \<Rightarrow> nat
       \<Rightarrow> ('k, 'v, 'm, 'n, 'e, 'j) tx \<Rightarrow> nat \<times> ('k, 'v, 'm, 'n, 'e, 'j) tx" where
  "dropAll B now [] n tx = (n, tx)"
| "dropAll B now ((k, kb) # ks) n tx =
     dropAll B now ks (if expired B k now (tx_state tx) then n else n + 1) (txDrop B k kb tx)"

definition txDeleteRange ::
    "('k::linorder, 'v, 'm, 'n, 'e, 'j) trees \<Rightarrow> int \<Rightarrow> ('k, 'v, 'm, 'n, 'e, 'j) db \<Rightarrow> 'k \<Rightarrow> 'k
       \<Rightarrow> ('k, 'v, 'm, 'n, 'e, 'j) tx \<Rightarrow> nat result \<times> ('k, 'v, 'm, 'n, 'e, 'j) tx" where
  "txDeleteRange B now db lo hi tx =
     (if tx_done tx then (Inl ErrTxClosed, tx)
      else if \<not> tx_writable tx then (Inl ErrTxNotWritable, tx)
      else let keys = takeWhile (\<lambda>k. k < hi) (map fst (m_ascend (dataOps B) (st_data (tx_state tx)) lo))
           in case encodeAll (Encode (db_keyCodec db)) keys of
                Inl e \<Rightarrow> (Inl e, tx)
              | Inr encoded \<Rightarrow>
                  (let (n, tx) = dropAll B now (zip keys encoded) 0 tx in (Inr n, tx)))"

section \<open>Reads\<close>

definition txGet where
  "txGet B now key tx = (if tx_done tx then None else stateGet B key now (tx_state tx))"

definition txContains where
  "txContains B now key tx = (txGet B now key tx \<noteq> None)"

definition txTTL ::
    "('k::linorder, 'v, 'm, 'n, 'e, 'j) trees \<Rightarrow> int \<Rightarrow> 'k \<Rightarrow> ('k, 'v, 'm, 'n, 'e, 'j) tx \<Rightarrow> int option" where
  "txTTL B now key tx =
     (if tx_done tx then None
      else case m_get (ttlOps B) (st_ttl (tx_state tx)) key of
          None \<Rightarrow> None
        | Some dl \<Rightarrow> if dl \<le> now then None else Some (int64_wrap (dl - now)))"

definition txLen :: "('k::linorder, 'v, 'm, 'n, 'e, 'j) trees \<Rightarrow> ('k, 'v, 'm, 'n, 'e, 'j) tx \<Rightarrow> nat" where
  "txLen B tx = (if tx_done tx then 0 else m_len (dataOps B) (st_data (tx_state tx)))"

definition txLiveLen :: "('k::linorder, 'v, 'm, 'n, 'e, 'j) trees \<Rightarrow> int \<Rightarrow> ('k, 'v, 'm, 'n, 'e, 'j) tx \<Rightarrow> int" where
  "txLiveLen B now tx = (if tx_done tx then 0 else liveLen B now (tx_state tx))"

definition txAll where
  "txAll B now tx yield c =
     (if tx_done tx then c
      else iterPairs (\<lambda>k. expired B k now (tx_state tx)) (m_all (dataOps B) (st_data (tx_state tx))) yield c)"

definition txKeys where
  "txKeys B now tx yield c =
     (if tx_done tx then c
      else iterPairs (\<lambda>k. expired B k now (tx_state tx)) (m_all (dataOps B) (st_data (tx_state tx)))
             (\<lambda>c k v. yield c k) c)"

definition txValues where
  "txValues B now tx yield c =
     (if tx_done tx then c
      else iterPairs (\<lambda>k. expired B k now (tx_state tx)) (m_all (dataOps B) (st_data (tx_state tx)))
             (\<lambda>c k v. yield c v) c)"

definition txBackward where
  "txBackward B now tx yield c =
     (if tx_done tx then c
      else iterPairs (\<lambda>k. expired B k now (tx_state tx)) (m_backward (dataOps B) (st_data (tx_state tx))) yield c)"

definition txDescend where
  "txDescend B now from' tx yield c =
     (if tx_done tx then c
      else iterPairs (\<lambda>k. expired B k now (tx_state tx)) (m_descend (dataOps B) (st_data (tx_state tx)) from') yield c)"

definition txAscend where
  "txAscend B now from' tx yield c =
     (if tx_done tx then c
      else iterPairs (\<lambda>k. expired B k now (tx_state tx)) (m_ascend (dataOps B) (st_data (tx_state tx)) from') yield c)"

section \<open>View and Update\<close>

text \<open>
  What the caller's function does: it may use the transaction and the database, and it
  returns nil, returns an error or panics. The panic passes through \<^verbatim>\<open>Update\<close> and \<^verbatim>\<open>View\<close>.
\<close>

datatype outcome = Returned "goerr option" | Panicked

definition dbView ::
    "('k::linorder, 'v, 'm, 'n, 'e, 'j) trees
       \<Rightarrow> (('k, 'v, 'm, 'n, 'e, 'j) spstore \<Rightarrow> ('k, 'v, 'm, 'n, 'e, 'j) db \<Rightarrow> ('k, 'v, 'm, 'n, 'e, 'j) tx
             \<Rightarrow> outcome \<times> ('k, 'v, 'm, 'n, 'e, 'j) spstore \<times> ('k, 'v, 'm, 'n, 'e, 'j) db
                  \<times> ('k, 'v, 'm, 'n, 'e, 'j) tx)
       \<Rightarrow> ('k, 'v, 'm, 'n, 'e, 'j) spstore \<Rightarrow> ('k, 'v, 'm, 'n, 'e, 'j) db
       \<Rightarrow> outcome \<times> ('k, 'v, 'm, 'n, 'e, 'j) spstore \<times> ('k, 'v, 'm, 'n, 'e, 'j) db" where
  "dbView B fn hp db =
     (case dbBegin B False db of
        (Inl e, db) \<Rightarrow> (Returned (Some e), hp, db)
      | (Inr tx, db) \<Rightarrow>
          (let (res, hp, db, tx) = fn hp db tx; (hp, db, tx) = txRollback hp db tx in (res, hp, db)))"

definition dbUpdate ::
    "('k::linorder, 'v, 'm, 'n, 'e, 'j) trees \<Rightarrow> io_env
       \<Rightarrow> (('k, 'v, 'm, 'n, 'e, 'j) spstore \<Rightarrow> ('k, 'v, 'm, 'n, 'e, 'j) db \<Rightarrow> ('k, 'v, 'm, 'n, 'e, 'j) tx
             \<Rightarrow> outcome \<times> ('k, 'v, 'm, 'n, 'e, 'j) spstore \<times> ('k, 'v, 'm, 'n, 'e, 'j) db
                  \<times> ('k, 'v, 'm, 'n, 'e, 'j) tx)
       \<Rightarrow> ('k, 'v, 'm, 'n, 'e, 'j) spstore \<Rightarrow> ('k, 'v, 'm, 'n, 'e, 'j) db
       \<Rightarrow> outcome \<times> ('k, 'v, 'm, 'n, 'e, 'j) spstore \<times> ('k, 'v, 'm, 'n, 'e, 'j) db" where
  "dbUpdate B env fn hp db =
     (case dbBegin B True db of
        (Inl e, db) \<Rightarrow> (Returned (Some e), hp, db)
      | (Inr tx, db) \<Rightarrow>
          (case fn hp db tx of
             (Panicked, hp, db, tx) \<Rightarrow>
               (let (hp, db, tx) = txRollback hp db tx in (Panicked, hp, db))
           | (Returned (Some e), hp, db, tx) \<Rightarrow>
               (let (hp, db, tx) = txRollback hp db tx in (Returned (Some e), hp, db))
           | (Returned None, hp, db, tx) \<Rightarrow>
               (let (err, hp, db, tx) = txCommit env hp db tx in (Returned err, hp, db))))"

definition dbDeleteRange ::
    "('k::linorder, 'v, 'm, 'n, 'e, 'j) trees \<Rightarrow> io_env \<Rightarrow> int \<Rightarrow> 'k \<Rightarrow> 'k \<Rightarrow> ('k, 'v, 'm, 'n, 'e, 'j) db
       \<Rightarrow> nat result \<times> ('k, 'v, 'm, 'n, 'e, 'j) db" where
  "dbDeleteRange B env now lo hi db =
     (let n = (case dbBegin B True db of
                 (Inl e, _) \<Rightarrow> 0
               | (Inr tx, db1) \<Rightarrow> (case txDeleteRange B now db1 lo hi tx of
                    (Inl e, _) \<Rightarrow> 0 | (Inr n, _) \<Rightarrow> n));
          (res, hp, db') = dbUpdate B env
            (\<lambda>hp db tx. case txDeleteRange B now db lo hi tx of
               (Inl e, tx) \<Rightarrow> (Returned (Some e), hp, db, tx)
             | (Inr _, tx) \<Rightarrow> (Returned None, hp, db, tx)) (\<lambda>_. None) db
      in (case res of
            Returned None \<Rightarrow> Inr n
          | Returned (Some e) \<Rightarrow> Inl e
          | Panicked \<Rightarrow> Inl ErrTxClosed, db'))"

end
