(* ===== verification/Open.thy ===== *)
theory Open
  imports Tx
begin

text \<open>
  \<^verbatim>\<open>Open\<close> of \<^verbatim>\<open>src/db.go\<close>: the callback that applies a replayed record to the state, and
  the whole of the function, from the option list to the handle, with every error path
  closing the file it opened.
\<close>

definition compactSuffix :: string where
  "compactSuffix = ''.compact''"

definition applyRecord ::
    "('k::linorder, 'v, 'm, 'n, 'e, 'j) trees \<Rightarrow> walCipher option \<Rightarrow> 'k codec \<Rightarrow> 'v codec
       \<Rightarrow> ('k, 'v, 'm, 'n, 'e, 'j) dbState \<Rightarrow> walRecord \<Rightarrow> ('k, 'v, 'm, 'n, 'e, 'j) dbState result" where
  "applyRecord B wc keyCodec valCodec s rec =
     (case openRecord wc (rec_op rec) (rec_key rec) (rec_val rec) of Inl e \<Rightarrow> Inl e | Inr (keyBytes, valBytes) \<Rightarrow>
      case Decode keyCodec keyBytes of Inl e \<Rightarrow> Inl e | Inr key \<Rightarrow>
      if rec_op rec = opSet
      then (case Decode valCodec valBytes of Inl e \<Rightarrow> Inl e | Inr val \<Rightarrow> Inr (stateSet B key val 0 s))
      else if rec_op rec = opSetTTL
      then (if length valBytes < ttlPrefixSize then Inl (ErrNew ''malformed ttl record'')
            else let deadline = int64_of_uint64 (getUint64 valBytes)
                 in case Decode valCodec (drop ttlPrefixSize valBytes) of
                      Inl e \<Rightarrow> Inl e
                    | Inr val \<Rightarrow> Inr (stateSet B key val deadline s))
      else if rec_op rec = opDelete then Inr (fst (stateDelete B key s))
      else Inr s)"

definition closeFile :: "io_env \<Rightarrow> nat \<Rightarrow> fsys \<Rightarrow> fsys" where
  "closeFile env h fs = fs_upd h (snd (lf_close (env ''close'') (fs_inode fs h))) fs"

text \<open>
  What follows the replay: \<open>f\<close> is the open file, \<open>validLen\<close> and \<open>parsedLen\<close> are absolute.
  The result is an error or the file as appends find it.
\<close>

definition openTail :: "io_env \<Rightarrow> bool \<Rightarrow> nat \<Rightarrow> nat \<Rightarrow> logfile \<Rightarrow> goerr option \<times> logfile" where
  "openTail env truncateAtCorrupt validLen parsedLen f =
     (let damage =
            (if env ''stat tail'' = None \<and> parsedLen < lf_size f \<and> \<not> truncateAtCorrupt
             then (case env ''read unparsed tail'' of
                     Some (e, _) \<Rightarrow> Some e
                   | None \<Rightarrow>
                       if scanForRecord (lf_section f parsedLen (lf_size f - parsedLen)) \<noteq> None
                       then Some ErrCorrupt else None)
             else None)
      in case damage of
           Some e \<Rightarrow> (Some e, f)
         | None \<Rightarrow>
             (case (if env ''stat end'' = None \<and> validLen < lf_size f
                    then lf_truncate (env ''truncate torn tail'') validLen f else (None, f)) of
                (Some e, f) \<Rightarrow> (Some e, f)
              | (None, f) \<Rightarrow> lf_seek (env ''seek to end'') validLen f))"

text \<open>The options in force, and the cipher they ask for (none without a key).\<close>

definition openOptions :: "(options \<Rightarrow> options) list \<Rightarrow> options" where
  "openOptions opts = fold (\<lambda>opt o'. opt o') opts defaultOptions"

definition openCipher ::
    "(bytes \<Rightarrow> string \<Rightarrow> nat \<Rightarrow> bytes result) \<Rightarrow> (bytes \<Rightarrow> (block \<Rightarrow> block) result) \<Rightarrow> options
       \<Rightarrow> walCipher option result" where
  "openCipher hkdf aesNew o' =
     (case o_encKey o' of
        None \<Rightarrow> Inr None
      | Some key \<Rightarrow> (case newWalCipher hkdf aesNew key of Inl e \<Rightarrow> Inl e | Inr c \<Rightarrow> Inr (Some c)))"

text \<open>The handle at the end.\<close>

definition newHandle ::
    "string \<Rightarrow> 'k codec \<Rightarrow> 'v codec \<Rightarrow> walCipher option \<Rightarrow> options \<Rightarrow> ('k, 'v, 'm, 'n, 'e, 'j) dbState
       \<Rightarrow> nat \<Rightarrow> fsys \<Rightarrow> nat \<Rightarrow> ('k, 'v, 'm, 'n, 'e, 'j) db" where
  "newHandle path kc vc wc o' state h fs validLen =
     \<lparr>db_path = path, db_keyCodec = kc, db_valCodec = vc, db_cipher = wc,
      db_policy = o_syncPolicy o', db_autoCompact = o_autoCompact o',
      db_compactMinSize = o_compactMinSize o', db_compactGrowthPct = o_compactGrowthPct o',
      db_sweepInterval = o_sweepInterval o', db_writerMu = False, db_state = state,
      db_file = h, db_fs = fs, db_walSize = validLen, db_baseSize = validLen,
      db_fileEpoch = 0, db_appendSeq = 0, db_closed = False, db_compacting = False,
      db_writeErr = None, db_syncErr = None, db_compactErr = None, db_sweepErr = None,
      db_gsync = \<lparr>gs_synced = 0, gs_syncing = False, gs_err = None\<rparr>\<rparr>"

definition openDB ::
    "('k::linorder, 'v, 'm, 'n, 'e, 'j) trees \<Rightarrow> (bytes \<Rightarrow> string \<Rightarrow> nat \<Rightarrow> bytes result)
       \<Rightarrow> (bytes \<Rightarrow> (block \<Rightarrow> block) result) \<Rightarrow> io_env \<Rightarrow> string \<Rightarrow> 'k codec \<Rightarrow> 'v codec
       \<Rightarrow> (options \<Rightarrow> options) list \<Rightarrow> fsys \<Rightarrow> ('k, 'v, 'm, 'n, 'e, 'j) db result \<times> fsys" where
  "openDB B hkdf aesNew env path keyCodec valCodec opts fs =
     (let o' = openOptions opts
      in case openCipher hkdf aesNew o' of
           Inl e \<Rightarrow> (Inl e, fs)
         | Inr wc \<Rightarrow>
      let fs = snd (fsRemove (env ''remove temp'') (path @ compactSuffix) fs)
      in case fsOpenFile (env ''open'') path fs of
           (Inl e, fs) \<Rightarrow> (Inl e, fs)
         | (Inr h, fs) \<Rightarrow>
      let fs = fsSyncDir (env ''sync dir'') path fs
      in case prepareHeader env (fs_inode fs h) wc of
           (Inl e, f) \<Rightarrow> (Inl e, closeFile env h (fs_upd h f fs))
         | (Inr dataStart, f) \<Rightarrow>
      case lf_seek (env ''seek to records'') dataStart f of
           (Some e, f) \<Rightarrow> (Inl e, closeFile env h (fs_upd h f fs))
         | (None, f) \<Rightarrow>
      let input = drop (lf_pos f) (lf_content f);
          rd = (case env ''read log'' of
                  None \<Rightarrow> \<lparr>rd_bytes = input, rd_end = None\<rparr>
                | Some (e, n) \<Rightarrow> \<lparr>rd_bytes = take n input, rd_end = Some e\<rparr>)
      in case replayLog rd (applyRecord B wc keyCodec valCodec) (newDBState B) of
           (_, _, Some e, _) \<Rightarrow> (Inl e, closeFile env h (fs_upd h f fs))
         | (valid, parsed, None, state) \<Rightarrow>
      let validLen = valid + dataStart; parsedLen = parsed + dataStart
      in case openTail env (o_truncateAtCorrupt o') validLen parsedLen f of
           (Some e, f) \<Rightarrow> (Inl e, closeFile env h (fs_upd h f fs))
         | (None, f) \<Rightarrow>
      let fs = fs_upd h f fs
      in (Inr (newHandle path keyCodec valCodec wc o' state h fs validLen), fs))"

end
