(* ===== verification/Compact.thy ===== *)
theory Compact
  imports Open
begin

text \<open>
  Compaction, \<^verbatim>\<open>src/compact.go\<close>. \<^verbatim>\<open>Compact\<close> lets writers run between its two critical
  sections, so it is three definitions: \<open>compactStart\<close> (phase A, under the lock),
  \<open>compactStream\<close> (the snapshot into a temporary file, no lock) and \<open>compactFinish\<close>
  (phase B, under the lock). \<open>dbCompact\<close> runs them with nothing in between.
\<close>

section \<open>The buffered writer\<close>

text \<open>
  \<^verbatim>\<open>bufio.NewWriterSize(f, 1<<20)\<close>: its buffer and the file behind it. A write that does
  not fit fills the buffer, flushes it, and goes to the file directly when the rest is
  larger than the buffer.
\<close>

definition bufSize :: nat where
  "bufSize = 2 ^ 20"

definition bufDirect ::
    "(goerr \<times> nat) option \<Rightarrow> bytes \<Rightarrow> logfile \<Rightarrow> goerr option \<times> bytes \<times> logfile" where
  "bufDirect out p f =
     (if bufSize < length p then (let (err, f) = lf_write out p f in (err, [], f))
      else (None, p, f))"

definition bufWrite ::
    "(goerr \<times> nat) option \<Rightarrow> bytes \<Rightarrow> bytes \<Rightarrow> logfile \<Rightarrow> goerr option \<times> bytes \<times> logfile" where
  "bufWrite out p buf f =
     (let avail = bufSize - length buf
      in if length p \<le> avail then (None, buf @ p, f)
         else if buf = [] then bufDirect out p f
         else case lf_write out (buf @ take avail p) f of
             (Some e, f) \<Rightarrow> (Some e, buf @ take avail p, f)
           | (None, f) \<Rightarrow> bufDirect out (drop avail p) f)"

definition bufFlush ::
    "(goerr \<times> nat) option \<Rightarrow> bytes \<Rightarrow> logfile \<Rightarrow> goerr option \<times> logfile" where
  "bufFlush out buf f = (if buf = [] then (None, f) else lf_write out buf f)"

section \<open>The snapshot\<close>

text \<open>
  \<open>wenv i\<close> and \<open>rnds i\<close> are the outcome of the write and the random bytes of the \<open>i\<close>-th
  pair of the walk.
\<close>

fun snapLoop ::
    "('k::linorder, 'v, 'm, 'n, 'e, 'j) trees \<Rightarrow> (nat \<Rightarrow> (goerr \<times> nat) option) \<Rightarrow> (nat \<Rightarrow> rand)
       \<Rightarrow> int \<Rightarrow> ('k, 'v, 'm, 'n, 'e, 'j) db \<Rightarrow> ('k, 'v, 'm, 'n, 'e, 'j) dbState
       \<Rightarrow> nat \<Rightarrow> ('k \<times> 'v) list \<Rightarrow> nat \<Rightarrow> bytes \<Rightarrow> logfile \<Rightarrow> nat result \<times> bytes \<times> logfile" where
  "snapLoop B wenv rnds now db snap i [] n buf f = (Inr n, buf, f)"
| "snapLoop B wenv rnds now db snap i ((k, v) # kvs) n buf f =
     (if expired B k now snap then snapLoop B wenv rnds now db snap (i + 1) kvs n buf f
      else case Encode (db_keyCodec db) k of Inl e \<Rightarrow> (Inl e, buf, f) | Inr kb \<Rightarrow>
           case Encode (db_valCodec db) v of Inl e \<Rightarrow> (Inl e, buf, f) | Inr vb \<Rightarrow>
           let (op, vb) = (case m_get (ttlOps B) (st_ttl snap) k of
                             Some dl \<Rightarrow> (opSetTTL, prependDeadline dl vb)
                           | None \<Rightarrow> (opSet, vb))
           in case appendSealedRecord [] (db_cipher db) (rnds i) op kb vb of
                Inl e \<Rightarrow> (Inl e, buf, f)
              | Inr rec \<Rightarrow> (case bufWrite (wenv i) rec buf f of
                  (Some e, buf, f) \<Rightarrow> (Inl e, buf, f)
                | (None, buf, f) \<Rightarrow>
                    snapLoop B wenv rnds now db snap (i + 1) kvs (n + length rec) buf f))"

definition writeSnapshot ::
    "('k::linorder, 'v, 'm, 'n, 'e, 'j) trees \<Rightarrow> io_env \<Rightarrow> (nat \<Rightarrow> (goerr \<times> nat) option)
       \<Rightarrow> (nat \<Rightarrow> rand) \<Rightarrow> int \<Rightarrow> ('k, 'v, 'm, 'n, 'e, 'j) db \<Rightarrow> ('k, 'v, 'm, 'n, 'e, 'j) dbState
       \<Rightarrow> logfile \<Rightarrow> nat result \<times> logfile" where
  "writeSnapshot B env wenv rnds now db snap f =
     (case snapLoop B wenv rnds now db snap 0 (m_all (dataOps B) (st_data snap)) 0 [] f of
        (Inl e, buf, f) \<Rightarrow> (Inl e, f)
      | (Inr n, buf, f) \<Rightarrow> (case bufFlush (env ''flush snapshot'') buf f of
            (Some e, f) \<Rightarrow> (Inl e, f)
          | (None, f) \<Rightarrow> (Inr n, f)))"

section \<open>The phases\<close>

definition compactStart ::
    "('k::linorder, 'v, 'm, 'n, 'e, 'j) trees \<Rightarrow> ('k, 'v, 'm, 'n, 'e, 'j) db
       \<Rightarrow> (('k, 'v, 'm, 'n, 'e, 'j) dbState \<times> nat) result" where
  "compactStart B db =
     (if db_closed db then Inl ErrClosed
      else case db_writeErr db of
          Some e \<Rightarrow> Inl e
        | None \<Rightarrow> Inr (stateCopy B (db_state db), db_walSize db))"

definition discard :: "io_env \<Rightarrow> nat \<Rightarrow> string \<Rightarrow> fsys \<Rightarrow> fsys" where
  "discard env tmp tmpPath fs = snd (fsRemove (env ''remove temp'') tmpPath (closeFile env tmp fs))"

definition compactStream ::
    "('k::linorder, 'v, 'm, 'n, 'e, 'j) trees \<Rightarrow> io_env \<Rightarrow> (nat \<Rightarrow> (goerr \<times> nat) option)
       \<Rightarrow> (nat \<Rightarrow> rand) \<Rightarrow> int \<Rightarrow> ('k, 'v, 'm, 'n, 'e, 'j) dbState \<Rightarrow> ('k, 'v, 'm, 'n, 'e, 'j) db
       \<Rightarrow> (nat \<times> nat) result \<times> ('k, 'v, 'm, 'n, 'e, 'j) db" where
  "compactStream B env wenv rnds now snap db =
     (let tmpPath = db_path db @ compactSuffix
      in case fsCreate (env ''create temp'') tmpPath (db_fs db) of
           (Inl e, fs) \<Rightarrow> (Inl e, db\<lparr>db_fs := fs\<rparr>)
         | (Inr tmp, fs) \<Rightarrow>
             (case lf_write (env ''write compacted log header'') (headerFor (db_cipher db)) (fs_inode fs tmp) of
                (Some e, f) \<Rightarrow> (Inl e, db\<lparr>db_fs := discard env tmp tmpPath (fs_upd tmp f fs)\<rparr>)
              | (None, f) \<Rightarrow> (case writeSnapshot B env wenv rnds now db snap f of
                  (Inl e, f) \<Rightarrow> (Inl e, db\<lparr>db_fs := discard env tmp tmpPath (fs_upd tmp f fs)\<rparr>)
                | (Inr snapBytes, f) \<Rightarrow> (Inr (tmp, snapBytes), db\<lparr>db_fs := fs_upd tmp f fs\<rparr>))))"

definition compactFinish ::
    "io_env \<Rightarrow> nat \<Rightarrow> nat \<Rightarrow> nat \<Rightarrow> ('k, 'v, 'm, 'n, 'e, 'j) db
       \<Rightarrow> goerr option \<times> ('k, 'v, 'm, 'n, 'e, 'j) db" where
  "compactFinish env tmp snapBytes tailStart db =
     (let tmpPath = db_path db @ compactSuffix;
          fail = (\<lambda>e fs. (Some e, db\<lparr>db_fs := discard env tmp tmpPath fs\<rparr>))
      in if db_closed db then fail ErrClosed (db_fs db)
         else case db_writeErr db of Some e \<Rightarrow> fail e (db_fs db) | None \<Rightarrow>
         let tailLen = db_walSize db - tailStart
         in case (if 0 < tailLen
                  then lf_write (env ''copy log tail'') (lf_section (the_file db) tailStart tailLen)
                         (fs_inode (db_fs db) tmp)
                  else (None, fs_inode (db_fs db) tmp)) of
              (Some e, f) \<Rightarrow> fail e (fs_upd tmp f (db_fs db))
            | (None, f) \<Rightarrow>
         case lf_sync (env ''sync compacted log'') f of
              (Some e, f) \<Rightarrow> fail e (fs_upd tmp f (db_fs db))
            | (None, f) \<Rightarrow>
         case fsRename (env ''swap compacted log'') tmpPath (db_path db) (fs_upd tmp f (db_fs db)) of
              (Some e, fs) \<Rightarrow> fail e fs
            | (None, fs) \<Rightarrow>
         let fs = fsSyncDir (env ''sync dir'') (db_path db) fs;
             fs = closeFile env (db_file db) fs;
             sz = length (headerFor (db_cipher db)) + snapBytes + tailLen
         in (None, markDurable (db\<lparr>db_fs := fs, db_file := tmp, db_walSize := sz, db_baseSize := sz,
                                   db_fileEpoch := db_fileEpoch db + 1\<rparr>)))"

definition dbCompact ::
    "('k::linorder, 'v, 'm, 'n, 'e, 'j) trees \<Rightarrow> io_env \<Rightarrow> (nat \<Rightarrow> (goerr \<times> nat) option)
       \<Rightarrow> (nat \<Rightarrow> rand) \<Rightarrow> int \<Rightarrow> ('k, 'v, 'm, 'n, 'e, 'j) db
       \<Rightarrow> goerr option \<times> ('k, 'v, 'm, 'n, 'e, 'j) db" where
  "dbCompact B env wenv rnds now db =
     (case compactStart B db of
        Inl e \<Rightarrow> (Some e, db)
      | Inr (snap, tailStart) \<Rightarrow> (case compactStream B env wenv rnds now snap db of
            (Inl e, db) \<Rightarrow> (Some e, db)
          | (Inr (tmp, snapBytes), db) \<Rightarrow> compactFinish env tmp snapBytes tailStart db))"

text \<open>
  The goroutine that \<^verbatim>\<open>maybeAutoCompact\<close> spawns: the compaction, then a critical section of
  its own that records the outcome.
\<close>

definition autoCompactEnd ::
    "goerr option \<Rightarrow> ('k, 'v, 'm, 'n, 'e, 'j) db \<Rightarrow> ('k, 'v, 'm, 'n, 'e, 'j) db" where
  "autoCompactEnd err db =
     (let db = db\<lparr>db_compacting := False\<rparr>
      in case err of
           None \<Rightarrow> db
         | Some e \<Rightarrow>
             if e \<noteq> ErrClosed \<and> db_compactErr db = None then db\<lparr>db_compactErr := Some e\<rparr> else db)"

definition autoCompactRun ::
    "('k::linorder, 'v, 'm, 'n, 'e, 'j) trees \<Rightarrow> io_env \<Rightarrow> (nat \<Rightarrow> (goerr \<times> nat) option)
       \<Rightarrow> (nat \<Rightarrow> rand) \<Rightarrow> int \<Rightarrow> ('k, 'v, 'm, 'n, 'e, 'j) db \<Rightarrow> ('k, 'v, 'm, 'n, 'e, 'j) db" where
  "autoCompactRun B env wenv rnds now db =
     (let (err, db) = dbCompact B env wenv rnds now db in autoCompactEnd err db)"

end
