(* ===== verification/LogInv.thy ===== *)
theory LogInv
  imports Open
begin

text \<open>
  What the log means. A record denotes an operation on the abstract map of theory \<open>State\<close>;
  the log denotes the operations of its items in order. The invariant \<open>log_inv\<close> ties a
  database to its log file: the file holds the header and the items, and the state is what
  their operations make of the empty map, up to entries that had expired when a compaction
  dropped them. The locale \<open>wal_db\<close> collects what the database relies on (trees, codecs,
  cipher); every operation of the handle preserves the invariant.
\<close>

section \<open>Operations that records denote\<close>

datatype ('k, 'v) logOp = LSet 'k 'v int | LDel 'k | LNop

type_synonym ('k, 'v) amap = "'k \<Rightarrow> ('v \<times> int option) option"

fun apOp :: "('k, 'v) logOp \<Rightarrow> ('k, 'v) amap \<Rightarrow> ('k, 'v) amap" where
  "apOp (LSet k v dl) m = m(k \<mapsto> (v, dl_opt dl))"
| "apOp (LDel k) m = m(k := None)"
| "apOp LNop m = m"

abbreviation apOps :: "('k, 'v) logOp list \<Rightarrow> ('k, 'v) amap \<Rightarrow> ('k, 'v) amap" where
  "apOps ops m \<equiv> fold apOp ops m"

definition recOp :: "walCipher option \<Rightarrow> 'k codec \<Rightarrow> 'v codec \<Rightarrow> walRecord \<Rightarrow> ('k, 'v) logOp result" where
  "recOp wc kc vc rec =
     (case openRecord wc (rec_op rec) (rec_key rec) (rec_val rec) of Inl e \<Rightarrow> Inl e | Inr (kb, vb) \<Rightarrow>
      case Decode kc kb of Inl e \<Rightarrow> Inl e | Inr key \<Rightarrow>
      if rec_op rec = opSet then (case Decode vc vb of Inl e \<Rightarrow> Inl e | Inr val \<Rightarrow> Inr (LSet key val 0))
      else if rec_op rec = opSetTTL
      then (if length vb < 8 then Inl (ErrNew ''malformed ttl record'')
            else case Decode vc (drop 8 vb) of Inl e \<Rightarrow> Inl e
                 | Inr val \<Rightarrow> Inr (LSet key val (int64_of_uint64 (getUint64 vb))))
      else if rec_op rec = opDelete then Inr (LDel key) else Inr LNop)"

fun stateOp :: "('k::linorder, 'v, 'm, 'n, 'e, 'j) trees \<Rightarrow> ('k, 'v) logOp
     \<Rightarrow> ('k, 'v, 'm, 'n, 'e, 'j) dbState \<Rightarrow> ('k, 'v, 'm, 'n, 'e, 'j) dbState" where
  "stateOp B (LSet k v dl) s = stateSet B k v dl s"
| "stateOp B (LDel k) s = fst (stateDelete B k s)"
| "stateOp B LNop s = s"

lemma applyRecord_recOp:
  "applyRecord B wc kc vc s r = (case recOp wc kc vc r of Inl e \<Rightarrow> Inl e | Inr opn \<Rightarrow> Inr (stateOp B opn s))"
  by (auto simp: applyRecord_def recOp_def Let_def split: sum.splits prod.splits)

definition denotes ::
    "walCipher option \<Rightarrow> 'k codec \<Rightarrow> 'v codec \<Rightarrow> walRecord list \<Rightarrow> ('k, 'v) logOp list \<Rightarrow> bool" where
  "denotes wc kc vc rs ops \<longleftrightarrow> list_all2 (\<lambda>r opn. recOp wc kc vc r = Inr opn) rs ops"

lemma denotes_Nil [simp]: "denotes wc kc vc [] ops \<longleftrightarrow> ops = []"
  by (simp add: denotes_def)

lemma denotes_single [simp]: "denotes wc kc vc [r] ops \<longleftrightarrow> (\<exists>opn. ops = [opn] \<and> recOp wc kc vc r = Inr opn)"
  by (auto simp: denotes_def list_all2_Cons1)

lemma denotes_append: "denotes wc kc vc rs ops \<Longrightarrow> denotes wc kc vc rs' ops' \<Longrightarrow> denotes wc kc vc (rs @ rs') (ops @ ops')"
  by (simp add: denotes_def list_all2_appendI)

lemma denotes_take: "denotes wc kc vc rs ops \<Longrightarrow> denotes wc kc vc (take n rs) (take n ops)"
  by (simp add: denotes_def)

lemma denotes_length: "denotes wc kc vc rs ops \<Longrightarrow> length rs = length ops"
  by (auto simp: denotes_def dest: list_all2_lengthD)

lemma denotes_split:
  "denotes wc kc vc (rs @ rs') ops \<longleftrightarrow>
     denotes wc kc vc rs (take (length rs) ops) \<and> denotes wc kc vc rs' (drop (length rs) ops)"
proof
  assume "denotes wc kc vc (rs @ rs') ops"
  then obtain a b where "ops = a @ b" "denotes wc kc vc rs a" "denotes wc kc vc rs' b" "length a = length rs"
    by (auto simp: denotes_def list_all2_append1)
  then show "denotes wc kc vc rs (take (length rs) ops) \<and> denotes wc kc vc rs' (drop (length rs) ops)" by simp
next
  assume "denotes wc kc vc rs (take (length rs) ops) \<and> denotes wc kc vc rs' (drop (length rs) ops)"
  then show "denotes wc kc vc (rs @ rs') ops" using denotes_append by fastforce
qed

lemma applyAll_denotes:
  "applyAll (applyRecord B wc kc vc) s rs = Inr s' \<longleftrightarrow>
     (\<exists>ops. denotes wc kc vc rs ops \<and> s' = fold (stateOp B) ops s)"
proof (induction rs arbitrary: s)
  case Nil
  then show ?case by auto
next
  case (Cons r rs)
  show ?case
  proof (cases "recOp wc kc vc r")
    case (Inl e)
    then show ?thesis by (simp add: applyRecord_recOp [of B wc kc vc s r] denotes_def list_all2_Cons1)
  next
    case (Inr opn)
    then have "applyAll (applyRecord B wc kc vc) s (r # rs) = applyAll (applyRecord B wc kc vc) (stateOp B opn s) rs"
      by (simp add: applyRecord_recOp [of B wc kc vc s r])
    moreover have "denotes wc kc vc (r # rs) ops \<longleftrightarrow> (\<exists>ops'. ops = opn # ops' \<and> denotes wc kc vc rs ops')" for ops
      using Inr by (auto simp: denotes_def list_all2_Cons1)
    ultimately show ?thesis by (auto simp: Cons.IH)
  qed
qed

section \<open>Agreement up to expired entries\<close>

definition dead :: "int \<Rightarrow> ('v \<times> int option) option \<Rightarrow> bool" where
  "dead t e \<longleftrightarrow> (case e of None \<Rightarrow> True | Some x \<Rightarrow> \<not> entry_live t x)"

text \<open>The two maps look alike to every reader whose clock shows \<open>t\<close> or later.\<close>

definition agree :: "int \<Rightarrow> ('k, 'v) amap \<Rightarrow> ('k, 'v) amap \<Rightarrow> bool" where
  "agree t m m' \<longleftrightarrow> (\<forall>k. m k = m' k \<or> dead t (m k) \<and> dead t (m' k))"

lemma agree_refl [simp]: "agree t m m"
  by (simp add: agree_def)

lemma dead_mono: "dead t e \<Longrightarrow> t \<le> t' \<Longrightarrow> dead t' e"
  by (cases e; cases "snd (the e)") (auto simp: dead_def split_pairs)

lemma agree_mono: "agree t m m' \<Longrightarrow> t \<le> t' \<Longrightarrow> agree t' m m'"
  unfolding agree_def by (meson dead_mono)

lemma agree_trans: "agree t m m' \<Longrightarrow> agree t m' m'' \<Longrightarrow> agree t m m''"
  unfolding agree_def by metis

lemma agree_sym: "agree t m m' \<Longrightarrow> agree t m' m"
  unfolding agree_def by metis

lemma agree_apOp: "agree t m m' \<Longrightarrow> agree t (apOp opn m) (apOp opn m')"
  by (cases opn) (auto simp: agree_def)

lemma agree_apOps: "agree t m m' \<Longrightarrow> agree t (apOps ops m) (apOps ops m')"
  by (induction ops arbitrary: m m') (auto simp: agree_apOp)

lemma agree_visible: "agree t m m' \<Longrightarrow> t \<le> now \<Longrightarrow> visible now m = visible now m'"
proof
  fix k assume "agree t m m'" "t \<le> now"
  then have "m k = m' k \<or> dead now (m k) \<and> dead now (m' k)" unfolding agree_def by (meson dead_mono)
  then show "visible now m k = visible now m' k"
    by (auto simp: visible_def dead_def split: option.splits)
qed

section \<open>The invariant\<close>

definition amap_ok :: "('k \<Rightarrow> bool) \<Rightarrow> ('v \<Rightarrow> bool) \<Rightarrow> ('k, 'v) amap \<Rightarrow> bool" where
  "amap_ok vK vV m \<longleftrightarrow> (\<forall>k v dl. m k = Some (v, dl) \<longrightarrow> vK k \<and> vV v \<and> (\<forall>d. dl = Some d \<longrightarrow> int64_range d \<and> 0 < d))"

fun op_ok :: "('k \<Rightarrow> bool) \<Rightarrow> ('v \<Rightarrow> bool) \<Rightarrow> ('k, 'v) logOp \<Rightarrow> bool" where
  "op_ok vK vV (LSet k v dl) \<longleftrightarrow> vK k \<and> vV v \<and> int64_range dl"
| "op_ok vK vV (LDel k) \<longleftrightarrow> vK k"
| "op_ok vK vV LNop \<longleftrightarrow> True"

lemma amap_ok_empty [simp]: "amap_ok vK vV Map.empty"
  by (simp add: amap_ok_def)

lemma amap_ok_apOp: "amap_ok vK vV m \<Longrightarrow> op_ok vK vV opn \<Longrightarrow> amap_ok vK vV (apOp opn m)"
  by (cases opn) (auto simp: amap_ok_def dl_opt_def split: if_splits)

lemma amap_ok_apOps: "amap_ok vK vV m \<Longrightarrow> list_all (op_ok vK vV) ops \<Longrightarrow> amap_ok vK vV (apOps ops m)"
  by (induction ops arbitrary: m) (auto simp: amap_ok_apOp)

text \<open>Headers that \<^verbatim>\<open>Open\<close> accepts without rewriting: its own, none (legacy), or version 0.\<close>

definition hdr_ok :: "walCipher option \<Rightarrow> bytes \<Rightarrow> bool" where
  "hdr_ok wc hdr \<longleftrightarrow> hdr = headerFor wc \<or> wc = None \<and> (hdr = [] \<or> hdr = hdrPrefix 0)"

text \<open>What a failed append may leave: the start of one item.\<close>

definition torn_item :: "walCipher option \<Rightarrow> 'k codec \<Rightarrow> 'v codec \<Rightarrow> bytes \<Rightarrow> bool" where
  "torn_item wc kc vc bs \<longleftrightarrow>
     (\<exists>it n ops. item_ok it \<and> denotes wc kc vc (itemRecs it) ops \<and> bs = take n (itemBytes it))"

lemma torn_item_Nil [simp]: "torn_item wc kc vc []"
  unfolding torn_item_def by (intro exI [of _ "Batch [] []"] exI [of _ 0]) simp

definition fs_wf :: "fsys \<Rightarrow> bool" where
  "fs_wf fs \<longleftrightarrow> (\<forall>p i. fs_cur fs p = Some i \<longrightarrow> i < fs_next fs) \<and> inj_on (fs_cur fs) (dom (fs_cur fs))"

definition file_inv ::
    "('k, 'v, 'm, 'n, 'e, 'j) db \<Rightarrow> bytes \<Rightarrow> logItem list \<Rightarrow> ('k, 'v) logOp list \<Rightarrow> bool" where
  "file_inv db hdr its ops \<longleftrightarrow>
     hdr_ok (db_cipher db) hdr \<and> list_all item_ok its \<and>
     denotes (db_cipher db) (db_keyCodec db) (db_valCodec db) (logRecs its) ops \<and>
     db_walSize db = length (hdr @ logBytes its) \<and>
     (\<exists>tail. lf_content (the_file db) = hdr @ logBytes its @ tail \<and>
        torn_item (db_cipher db) (db_keyCodec db) (db_valCodec db) tail \<and>
        (db_writeErr db = None \<longrightarrow> tail = [] \<and> lf_pos (the_file db) = db_walSize db)) \<and>
     (\<not> db_closed db \<longrightarrow> \<not> lf_closed (the_file db)) \<and>
     gs_synced (db_gsync db) \<le> db_appendSeq db \<and>
     (0 < gs_synced (db_gsync db) \<and> gs_synced (db_gsync db) = db_appendSeq db \<longrightarrow>
        take (db_walSize db) (lf_synced (the_file db)) = hdr @ logBytes its) \<and>
     fs_wf (db_fs db) \<and> fs_cur (db_fs db) (db_path db) = Some (db_file db)"

definition state_inv ::
    "('k::linorder, 'v, 'm, 'n, 'e, 'j) trees \<Rightarrow> ('k \<Rightarrow> bool) \<Rightarrow> ('v \<Rightarrow> bool) \<Rightarrow> int
       \<Rightarrow> ('k, 'v, 'm, 'n, 'e, 'j) dbState \<Rightarrow> ('k, 'v) logOp list \<Rightarrow> bool" where
  "state_inv B vK vV t s ops \<longleftrightarrow>
     state_wf B s \<and> amap_ok vK vV (view B s) \<and> agree t (view B s) (apOps ops Map.empty)"

definition log_inv ::
    "('k::linorder, 'v, 'm, 'n, 'e, 'j) trees \<Rightarrow> ('k \<Rightarrow> bool) \<Rightarrow> ('v \<Rightarrow> bool) \<Rightarrow> int
       \<Rightarrow> ('k, 'v, 'm, 'n, 'e, 'j) db \<Rightarrow> bytes \<Rightarrow> logItem list \<Rightarrow> ('k, 'v) logOp list \<Rightarrow> bool" where
  "log_inv B vK vV t db hdr its ops \<longleftrightarrow>
     file_inv db hdr its ops \<and> state_inv B vK vV t (db_state db) ops"

section \<open>The append path\<close>

lemma set_file_sel [simp]:
  "db_fs (set_file f db) = fs_upd (db_file db) f (db_fs db)"
  "db_path (set_file f db) = db_path db" "db_keyCodec (set_file f db) = db_keyCodec db"
  "db_valCodec (set_file f db) = db_valCodec db" "db_cipher (set_file f db) = db_cipher db"
  "db_policy (set_file f db) = db_policy db" "db_writerMu (set_file f db) = db_writerMu db"
  "db_state (set_file f db) = db_state db" "db_file (set_file f db) = db_file db"
  "db_walSize (set_file f db) = db_walSize db" "db_appendSeq (set_file f db) = db_appendSeq db"
  "db_closed (set_file f db) = db_closed db" "db_writeErr (set_file f db) = db_writeErr db"
  "db_gsync (set_file f db) = db_gsync db" "db_fileEpoch (set_file f db) = db_fileEpoch db"
  by (simp_all add: set_file_def)

lemma maybeAutoCompact_eq: "\<exists>b. maybeAutoCompact db = db\<lparr>db_compacting := b\<rparr>"
  by (auto simp: maybeAutoCompact_def intro: exI [of _ "db_compacting db"])

lemma fs_wf_upd [simp]: "fs_wf (fs_upd h f fs) \<longleftrightarrow> fs_wf fs"
  by (simp add: fs_wf_def)

text \<open>What a write of the log leaves of a handle, apart from the file.\<close>

definition same_handle :: "('k, 'v, 'm, 'n, 'e, 'j) db \<Rightarrow> ('k, 'v, 'm, 'n, 'e, 'j) db \<Rightarrow> bool" where
  "same_handle db db' \<longleftrightarrow>
     db_path db' = db_path db \<and> db_keyCodec db' = db_keyCodec db \<and> db_valCodec db' = db_valCodec db \<and>
     db_cipher db' = db_cipher db \<and> db_policy db' = db_policy db \<and> db_closed db' = db_closed db \<and>
     db_writerMu db' = db_writerMu db \<and> db_file db' = db_file db \<and> db_fileEpoch db' = db_fileEpoch db \<and>
     fs_cur (db_fs db') = fs_cur (db_fs db) \<and> fs_dur (db_fs db') = fs_dur (db_fs db) \<and>
     fs_next (db_fs db') = fs_next (db_fs db) \<and>
     (\<forall>i. i \<noteq> db_file db \<longrightarrow> fs_inode (db_fs db') i = fs_inode (db_fs db) i)"

lemma same_handle_refl [simp]: "same_handle db db"
  by (simp add: same_handle_def)

lemma same_handle_trans: "same_handle a b \<Longrightarrow> same_handle b c \<Longrightarrow> same_handle a c"
  by (simp add: same_handle_def)

lemma writeLog_None:
  assumes inv: "file_inv db hdr its ops" and cw: "canWrite db = None"
    and it: "item_ok it" "denotes (db_cipher db) (db_keyCodec db) (db_valCodec db) (itemRecs it) ops'"
    and w: "writeLog env (itemBytes it) db = (None, db')"
  shows "file_inv db' hdr (its @ [it]) (ops @ ops')" "same_handle db db'" "db_state db' = db_state db"
    "db_writeErr db' = None" "db_appendSeq db' = db_appendSeq db + 1" "db_gsync db' = db_gsync db"
    "lf_synced (the_file db') = lf_synced (the_file db)"
proof -
  have c: "\<not> db_closed db" "db_writeErr db = None" using cw by (auto simp: canWrite_def split: if_splits)
  then have f: "\<not> lf_closed (the_file db)" "lf_content (the_file db) = hdr @ logBytes its"
      "lf_pos (the_file db) = length (hdr @ logBytes its)"
    using inv by (auto simp: file_inv_def)
  let ?f = "(the_file db)\<lparr>lf_content := hdr @ logBytes its @ itemBytes it,
      lf_pos := length (hdr @ logBytes its) + length (itemBytes it)\<rparr>"
  let ?d = "(set_file ?f db)\<lparr>db_appendSeq := db_appendSeq db + 1,
      db_walSize := db_walSize db + length (itemBytes it)\<rparr>"
  have "lf_write (env ''log append'') (itemBytes it) (the_file db) = (None, ?f)"
    using w f by (auto simp: writeLog_def lf_write_def Let_def split: prod.splits option.splits)
  with w have "db' = maybeAutoCompact ?d" by (simp add: writeLog_def)
  then obtain b where d: "db' = ?d\<lparr>db_compacting := b\<rparr>" using maybeAutoCompact_eq by metis
  show "file_inv db' hdr (its @ [it]) (ops @ ops')"
    using inv it c by (auto simp: file_inv_def d denotes_append)
  show "same_handle db db'" "db_state db' = db_state db" "db_writeErr db' = None"
    "db_appendSeq db' = db_appendSeq db + 1" "db_gsync db' = db_gsync db"
    "lf_synced (the_file db') = lf_synced (the_file db)"
    using c by (simp_all add: d same_handle_def)
qed

lemma writeLog_Some:
  assumes inv: "file_inv db hdr its ops" and cw: "canWrite db = None"
    and it: "item_ok it" "denotes (db_cipher db) (db_keyCodec db) (db_valCodec db) (itemRecs it) ops'"
    and w: "writeLog env (itemBytes it) db = (Some e, db')"
  shows "file_inv db' hdr its ops" "same_handle db db'" "db_state db' = db_state db"
    "db_writeErr db' = Some e" "db_appendSeq db' = db_appendSeq db" "db_gsync db' = db_gsync db"
    "lf_synced (the_file db') = lf_synced (the_file db)"
proof -
  have c: "\<not> db_closed db" "db_writeErr db = None" using cw by (auto simp: canWrite_def split: if_splits)
  then have f: "\<not> lf_closed (the_file db)" "lf_content (the_file db) = hdr @ logBytes its"
      "lf_pos (the_file db) = length (hdr @ logBytes its)"
    using inv by (auto simp: file_inv_def)
  obtain n where n: "env ''log append'' = Some (e, n)"
    using w f by (auto simp: writeLog_def lf_write_def Let_def split: prod.splits option.splits)
  let ?f = "(the_file db)\<lparr>lf_content := hdr @ logBytes its @ take n (itemBytes it),
      lf_pos := length (hdr @ logBytes its) + length (take n (itemBytes it))\<rparr>"
  have d: "db' = (set_file ?f db)\<lparr>db_writeErr := Some e\<rparr>"
    using w f n by (simp add: writeLog_def lf_write_def Let_def)
  have "torn_item (db_cipher db) (db_keyCodec db) (db_valCodec db) (take n (itemBytes it))"
    using it unfolding torn_item_def by blast
  then show "file_inv db' hdr its ops"
    using inv c by (auto simp: file_inv_def d)
  show "same_handle db db'" "db_state db' = db_state db" "db_writeErr db' = Some e"
    "db_appendSeq db' = db_appendSeq db" "db_gsync db' = db_gsync db"
    "lf_synced (the_file db') = lf_synced (the_file db)"
    by (simp_all add: d same_handle_def)
qed

section \<open>The durability wait\<close>

lemma leaderSync_settles:
  "seq \<le> db_appendSeq db \<Longrightarrow>
   \<not> (gs_synced (db_gsync (leaderSync env db)) < seq \<and> gs_err (db_gsync (leaderSync env db)) = None)"
  by (auto simp: leaderSync_def markDurable_def split: prod.splits option.splits)

text \<open>
  One turn as leader settles the wait: the loop body either covers every append so far or
  sets the sticky error, so the loop ends.
\<close>

lemma waitDurable_once:
  assumes "db_policy db = SyncAlways" "seq \<le> db_appendSeq db"
  shows "waitDurable env seq db =
    (let db' = (if gs_synced (db_gsync db) < seq \<and> gs_err (db_gsync db) = None then leaderSync env db else db)
     in (if seq \<le> gs_synced (db_gsync db') then None else gs_err (db_gsync db'), db'))"
proof -
  let ?b = "\<lambda>db :: ('a, 'b, 'c, 'd, 'e, 'f) db. gs_synced (db_gsync db) < seq \<and> gs_err (db_gsync db) = None"
  have step: "\<not> ?b (leaderSync env db)"
    by (rule leaderSync_settles [OF assms(2)])
  have halt: "while ?b (leaderSync env) x = x" if "\<not> ?b x" for x
    by (subst while_unfold) (simp only: that if_False)
  have "while ?b (leaderSync env) db = (if ?b db then leaderSync env db else db)"
    by (subst while_unfold) (simp only: halt [OF step])
  then show ?thesis using assms(1) by (simp add: waitDurable_def Let_def)
qed

text \<open>A sync of the log file, successful or not, keeps the invariant.\<close>

lemma file_inv_synced:
  assumes "file_inv db hdr its ops"
  shows "file_inv (markDurable (set_file ((the_file db)\<lparr>lf_synced := lf_content (the_file db)\<rparr>) db)) hdr its ops"
  using assms by (auto simp: file_inv_def markDurable_def)

lemma lf_sync_cases:
  "lf_sync out f = (None, f\<lparr>lf_synced := lf_content f\<rparr>) \<and> \<not> lf_closed f \<or> (\<exists>e. lf_sync out f = (Some e, f))"
  by (auto simp: lf_sync_def split: option.splits)

lemma set_file_same [simp]: "set_file (the_file db) db = db"
  by (simp add: set_file_def fs_upd_def)

lemma leaderSync_inv:
  assumes "file_inv db hdr its ops"
  shows "file_inv (leaderSync env db) hdr its ops" "same_handle db (leaderSync env db)"
    "db_state (leaderSync env db) = db_state db" "db_appendSeq (leaderSync env db) = db_appendSeq db"
    "lf_content (the_file (leaderSync env db)) = lf_content (the_file db)"
proof -
  have c: "leaderSync env db = db\<lparr>db_gsync := (db_gsync db)\<lparr>gs_err := Some ErrClosed\<rparr>\<rparr> \<or>
      (\<exists>e. leaderSync env db = db\<lparr>db_writeErr := (if db_writeErr db = None then Some e else db_writeErr db),
                            db_gsync := (db_gsync db)\<lparr>gs_err := Some e\<rparr>\<rparr>) \<or>
      leaderSync env db = markDurable (set_file ((the_file db)\<lparr>lf_synced := lf_content (the_file db)\<rparr>) db)"
  proof (cases "db_closed db")
    case True
    then show ?thesis by (simp add: leaderSync_def)
  next
    case False
    note un = leaderSync_def if_not_P [OF False]
    from lf_sync_cases [of "env ''group sync''" "the_file db"] show ?thesis
    proof (elim disjE exE conjE)
      assume "lf_sync (env ''group sync'') (the_file db) = (None, (the_file db)\<lparr>lf_synced := lf_content (the_file db)\<rparr>)"
      then show ?thesis unfolding un by (intro disjI2) (simp only: prod.case option.case)
    next
      fix e assume "lf_sync (env ''group sync'') (the_file db) = (Some e, the_file db)"
      then show ?thesis unfolding un
        by (intro disjI2 disjI1 exI [of _ e]) (simp only: prod.case option.case set_file_same)
    qed
  qed
  show "file_inv (leaderSync env db) hdr its ops"
    using c
  proof (elim disjE exE)
    fix e assume "leaderSync env db = db\<lparr>db_writeErr := (if db_writeErr db = None then Some e else db_writeErr db),
        db_gsync := (db_gsync db)\<lparr>gs_err := Some e\<rparr>\<rparr>"
    then show ?thesis using assms by (auto simp: file_inv_def)
  next
    assume "leaderSync env db = db\<lparr>db_gsync := (db_gsync db)\<lparr>gs_err := Some ErrClosed\<rparr>\<rparr>"
    then show ?thesis using assms by (auto simp: file_inv_def)
  qed (simp only: file_inv_synced [OF assms])
  show "same_handle db (leaderSync env db)" "db_state (leaderSync env db) = db_state db"
    "db_appendSeq (leaderSync env db) = db_appendSeq db"
    "lf_content (the_file (leaderSync env db)) = lf_content (the_file db)"
    using c by (elim disjE exE; simp add: same_handle_def markDurable_def)+
qed

lemma waitDurable_inv:
  assumes "file_inv db hdr its ops" "seq \<le> db_appendSeq db" "waitDurable env seq db = (r, db')"
  shows "file_inv db' hdr its ops" "same_handle db db'" "db_state db' = db_state db"
    "db_appendSeq db' = db_appendSeq db"
    "lf_content (the_file db') = lf_content (the_file db)"
proof -
  have "db' = db \<or> db' = leaderSync env db"
  proof (cases "db_policy db = SyncAlways")
    case True
    from assms(3) show ?thesis by (auto simp: waitDurable_once [OF True assms(2)] Let_def)
  next
    case False
    with assms(3) show ?thesis by (simp add: waitDurable_def)
  qed
  then show "file_inv db' hdr its ops" "same_handle db db'" "db_state db' = db_state db"
    "db_appendSeq db' = db_appendSeq db" "lf_content (the_file db') = lf_content (the_file db)"
    using assms(1) leaderSync_inv [OF assms(1), of env] by auto
qed

text \<open>Success under \<^verbatim>\<open>SyncAlways\<close> means that the log up to its valid size is on stable storage.\<close>

lemma waitDurable_durable:
  assumes "file_inv db hdr its ops" "0 < db_appendSeq db" "db_policy db = SyncAlways"
    and "waitDurable env (db_appendSeq db) db = (None, db')"
  shows "take (db_walSize db') (lf_synced (the_file db')) = hdr @ logBytes its"
proof -
  have seq: "db_appendSeq db' = db_appendSeq db" and inv: "file_inv db' hdr its ops"
    using waitDurable_inv [OF assms(1) _ assms(4)] by simp_all
  have "db_appendSeq db \<le> gs_synced (db_gsync db')"
  proof (rule ccontr)
    assume n: "\<not> db_appendSeq db \<le> gs_synced (db_gsync db')"
    with assms(4) have "gs_err (db_gsync db') = None"
      by (auto simp: waitDurable_once [OF assms(3) order_refl] Let_def split: if_splits)
    moreover have "\<not> (gs_synced (db_gsync db') < db_appendSeq db \<and> gs_err (db_gsync db') = None)"
      using assms(4) leaderSync_settles [OF order_refl [of "db_appendSeq db"], of env]
      by (auto simp: waitDurable_once [OF assms(3) order_refl] Let_def split: if_splits)
    ultimately show False using n by simp
  qed
  then show ?thesis using inv seq assms(2) by (auto simp: file_inv_def)
qed

section \<open>What the database relies on\<close>

text \<open>
  The trees meet their contracts, the codecs decode what they encode and only valid values,
  and sealed records open to what was sealed.
\<close>

locale wal_db = state_trees B + sealer wc + key: codec kc vK + val: codec vc vV
  for B :: "('k::linorder, 'v, 'm, 'n, 'e, 'j) trees" and wc and kc :: "'k codec" and vK
    and vc :: "'v codec" and vV +
  assumes key_decoded: "Decode kc b = Inr k \<Longrightarrow> vK k"
    and val_decoded: "Decode vc b = Inr v \<Longrightarrow> vV v"
    and header_kcv: "kcv_ok wc"

text \<open>The encodings stay below the bound that the reader puts on keys and values.\<close>

definition key_fits :: "'k codec \<Rightarrow> 'k \<Rightarrow> bool" where
  "key_fits kc k \<longleftrightarrow> (\<forall>kb. Encode kc k = Inr kb \<longrightarrow> length kb \<le> maxPartLen)"

definition fits :: "walCipher option \<Rightarrow> 'k codec \<Rightarrow> 'v codec \<Rightarrow> 'k \<Rightarrow> 'v \<Rightarrow> bool" where
  "fits wc kc vc k v \<longleftrightarrow> key_fits kc k \<and>
     (\<forall>vb. Encode vc v = Inr vb \<longrightarrow> 8 + length vb + sealOverhead wc opSet \<le> maxPartLen)"

definition norm_dl :: "int \<Rightarrow> int" where
  "norm_dl dl = (if 0 < dl then dl else 0)"

lemma dl_opt_norm [simp]: "dl_opt (norm_dl dl) = dl_opt dl"
  by (simp add: dl_opt_def norm_dl_def)

lemma int64_range_norm [simp]: "int64_range dl \<Longrightarrow> int64_range (norm_dl dl)"
  by (simp add: norm_dl_def int64_range_def)

lemma norm_dl_0 [simp]: "norm_dl 0 = 0"
  by (simp add: norm_dl_def)

context wal_db
begin

lemma recOp_ok: "recOp wc kc vc r = Inr opn \<Longrightarrow> op_ok vK vV opn"
  by (auto simp: recOp_def key_decoded val_decoded split: sum.splits if_splits prod.splits)
    (simp_all add: int64_range_def)

lemma denotes_ok: "denotes wc kc vc rs ops \<Longrightarrow> list_all (op_ok vK vV) ops"
  unfolding denotes_def by (induction rule: list_all2_induct) (auto simp: recOp_ok)

text \<open>The record that a set writes denotes that set.\<close>

lemma set_record:
  assumes "vK k" "vV v" "int64_range dl" "fits wc kc vc k v"
    and kb: "Encode kc k = Inr kb" and vb: "Encode vc v = Inr vb"
    and opn: "(op, vb') = (if 0 < dl then (opSetTTL, prependDeadline dl vb) else (opSet, vb))"
    and ap: "appendSealedRecord dst wc rnd op kb vb' = Inr bs"
  shows "\<exists>r. bs = dst @ frame r \<and> member_ok r \<and> recOp wc kc vc r = Inr (LSet k v (norm_dl dl))"
proof -
  from sealed_frame [OF ap] obtain sv where sv: "bs = dst @ frame \<lparr>rec_op = op, rec_key = kb, rec_val = sv\<rparr>"
      "length sv = length vb' + sealOverhead wc op" "openRecord wc op kb sv = Inr (kb, vb')"
    by blast
  let ?r = "\<lparr>rec_op = op, rec_key = kb, rec_val = sv\<rparr>"
  have op: "op = (if 0 < dl then opSetTTL else opSet)" and vb': "vb' = (if 0 < dl then prependDeadline dl vb else vb)"
    using opn by (auto split: if_splits)
  have so: "sealOverhead wc op = sealOverhead wc opSet" using op by (simp add: sealOverhead_def split: option.splits)
  have "length sv \<le> maxPartLen" "length kb \<le> maxPartLen"
    using sv(2) so vb' kb vb assms(4) by (auto simp: fits_def key_fits_def prependDeadline_def)
  then have m: "member_ok ?r" using op by (auto simp: member_ok_def frame_ok_def)
  have "recOp wc kc vc ?r = Inr (LSet k v (norm_dl dl))"
    using sv(3) op vb' key.decode_encode [OF assms(1) kb] val.decode_encode [OF assms(2) vb] assms(3)
    by (simp add: recOp_def prependDeadline_def norm_dl_def)
  with sv(1) m show ?thesis by blast
qed

lemma delete_record:
  assumes "vK k" "key_fits kc k" and kb: "Encode kc k = Inr kb"
  shows "member_ok \<lparr>rec_op = opDelete, rec_key = kb, rec_val = []\<rparr> \<and>
    recOp wc kc vc \<lparr>rec_op = opDelete, rec_key = kb, rec_val = []\<rparr> = Inr (LDel k)"
  using assms key.decode_encode [OF assms(1) kb]
  by (auto simp: member_ok_def frame_ok_def key_fits_def recOp_def openRecord_def split: option.splits)

lemma appendSealed_delete: "appendSealedRecord dst wc rnd opDelete kb [] =
    Inr (dst @ frame \<lparr>rec_op = opDelete, rec_key = kb, rec_val = []\<rparr>)"
  by (simp add: appendSealedRecord_def appendRecord_frame split: option.splits)

lemma state_inv_op:
  assumes "state_inv B vK vV t s ops" "op_ok vK vV opn"
  shows "state_inv B vK vV t (stateOp B opn s) (ops @ [opn])"
proof -
  have v: "view B (stateOp B opn s) = apOp opn (view B s)" "state_wf B (stateOp B opn s)"
    using assms(1) by (cases opn; simp add: state_inv_def view_set view_delete state_wf_set state_wf_delete)+
  show ?thesis using assms by (simp add: state_inv_def v amap_ok_apOp agree_apOp)
qed

lemma stateSet_norm: "stateSet B k v (norm_dl dl) s = stateSet B k v dl s"
  by (simp add: stateSet_def norm_dl_def Let_def)

end

section \<open>Direct writes\<close>

lemma file_inv_frame [simp]:
  "file_inv (db\<lparr>db_state := s\<rparr>) hdr its ops = file_inv db hdr its ops"
  "file_inv (db\<lparr>db_writerMu := w\<rparr>) hdr its ops = file_inv db hdr its ops"
  "file_inv (db\<lparr>db_compacting := c\<rparr>) hdr its ops = file_inv db hdr its ops"
  "file_inv (db\<lparr>db_syncErr := e\<rparr>) hdr its ops = file_inv db hdr its ops"
  "file_inv (db\<lparr>db_compactErr := e\<rparr>) hdr its ops = file_inv db hdr its ops"
  "file_inv (db\<lparr>db_sweepErr := e\<rparr>) hdr its ops = file_inv db hdr its ops"
  by (simp_all add: file_inv_def)

text \<open>The log up to its valid size is on stable storage.\<close>

definition log_durable :: "('k, 'v, 'm, 'n, 'e, 'j) db \<Rightarrow> bool" where
  "log_durable db \<longleftrightarrow> db_walSize db \<le> length (lf_synced (the_file db)) \<and>
     take (db_walSize db) (lf_synced (the_file db)) = take (db_walSize db) (lf_content (the_file db))"

lemma log_durableI:
  assumes "file_inv db hdr its ops" "take (db_walSize db) (lf_synced (the_file db)) = hdr @ logBytes its"
  shows "log_durable db"
proof -
  have w: "db_walSize db = length (hdr @ logBytes its)" using assms(1) by (simp add: file_inv_def)
  have "db_walSize db \<le> length (lf_synced (the_file db))"
    using arg_cong [OF assms(2), of length] w by simp
  moreover have "take (db_walSize db) (lf_content (the_file db)) = hdr @ logBytes its"
    using assms(1) by (auto simp: file_inv_def)
  ultimately show ?thesis using assms(2) by (simp add: log_durable_def)
qed

text \<open>Reading the valid part of the log file.\<close>

lemma log_section:
  assumes "file_inv db hdr its ops"
  shows "lf_section (the_file db) a n = take n (drop a (lf_content (the_file db)))"
    "take (db_walSize db) (lf_content (the_file db)) = hdr @ logBytes its"
    "a + n \<le> db_walSize db \<Longrightarrow> lf_section (the_file db) a n = take n (drop a (hdr @ logBytes its))"
proof -
  obtain tail where t: "lf_content (the_file db) = (hdr @ logBytes its) @ tail"
    and w: "db_walSize db = length (hdr @ logBytes its)" using assms by (auto simp: file_inv_def)
  show "lf_section (the_file db) a n = take n (drop a (lf_content (the_file db)))" by (simp add: lf_section_def)
  show "take (db_walSize db) (lf_content (the_file db)) = hdr @ logBytes its" by (simp add: t w)
  show "lf_section (the_file db) a n = take n (drop a (hdr @ logBytes its))" if "a + n \<le> db_walSize db"
  proof -
    have "n \<le> length (drop a (hdr @ logBytes its))" using that unfolding w by simp
    then show ?thesis unfolding lf_section_def t by (subst drop_append, subst take_append) simp
  qed
qed

lemma lf_copy_log:
  assumes inv: "file_inv db hdr its ops" and le: "a + n \<le> db_walSize db"
    and run: "lf_copy out a n (the_file db) = (err, c, bs)"
  shows "c = length bs" "c \<le> n" "bs = take c (drop a (hdr @ logBytes its))" "err = None \<Longrightarrow> c = n"
proof -
  let ?in = "take n (drop a (hdr @ logBytes its))"
  have s: "lf_section (the_file db) a n = ?in" by (rule log_section(3) [OF inv le])
  have "n \<le> length (drop a (hdr @ logBytes its))" using le inv by (simp add: file_inv_def)
  then have n: "length ?in = n" by (simp only: length_take min_absorb2)
  note r = run [unfolded lf_copy_def Let_def s]
  have "\<exists>m. bs = take m ?in \<and> c = length bs \<and> (err = None \<longrightarrow> c = n)"
  proof (cases "lf_closed (the_file db)")
    case True
    then show ?thesis using r by (intro exI [of _ 0]) auto
  next
    case False
    note r' = r [unfolded if_not_P [OF False]]
    show ?thesis
    proof (cases out)
      case None
      then show ?thesis using r' n by (intro exI [of _ n]) (auto simp only: option.case prod.inject take_all order_refl)
    next
      case (Some em)
      obtain e m where "em = (e, m)" by (cases em)
      then have "(Some e, length (take m ?in), take m ?in) = (err, c, bs)" using r' by (simp only: Some option.case prod.case)
      then show ?thesis by (intro exI [of _ m]) (simp only: prod.inject, blast)
    qed
  qed
  then obtain m where m: "bs = take m ?in" "c = length bs" "err = None \<Longrightarrow> c = n" by blast
  have c: "c = min m n" unfolding m(1,2) length_take [of m] n by simp
  show "c = length bs" by (rule m(2))
  show "c = n" if "err = None" using that by (rule m(3))
  show "c \<le> n" unfolding c by (rule min.cobounded2)
  show "bs = take c (drop a (hdr @ logBytes its))" unfolding m(1) c by (simp only: take_take)
qed

text \<open>An append and the wait behind it, as a direct write and a commit run them.\<close>

lemma commit_item:
  assumes inv: "file_inv db hdr its ops" and cw: "canWrite db = None"
    and it: "item_ok it" "denotes (db_cipher db) (db_keyCodec db) (db_valCodec db) (itemRecs it) ops'"
    and wl: "writeLog env (itemBytes it) db = (None, db1)"
    and d: "d = db1\<lparr>db_state := s, db_writerMu := w\<rparr>"
    and wait: "waitDurable env (db_appendSeq db1) d = (r, db2)"
  shows "file_inv db2 hdr (its @ [it]) (ops @ ops')" "db_state db2 = s"
    "same_handle (db\<lparr>db_writerMu := w\<rparr>) db2"
    "r = None \<and> db_policy db = SyncAlways \<longrightarrow> log_durable db2"
proof -
  note w1 = writeLog_None [OF inv cw it wl]
  have inv1: "file_inv d hdr (its @ [it]) (ops @ ops')" using w1(1) by (simp add: d)
  have seq: "db_appendSeq db1 = db_appendSeq d" by (simp add: d)
  note wait' = wait [unfolded seq]
  note w2 = waitDurable_inv [OF inv1 order_refl wait']
  show "file_inv db2 hdr (its @ [it]) (ops @ ops')" by (rule w2(1))
  show "db_state db2 = s" using w2(3) by (simp add: d)
  show "same_handle (db\<lparr>db_writerMu := w\<rparr>) db2"
    using w1(2) w2(2) by (simp add: d same_handle_def)
  show "r = None \<and> db_policy db = SyncAlways \<longrightarrow> log_durable db2"
  proof
    assume r: "r = None \<and> db_policy db = SyncAlways"
    then have "db_policy d = SyncAlways" "0 < db_appendSeq d"
      using w1(2,5) by (simp_all add: d same_handle_def)
    with waitDurable_durable [OF inv1 _ _ wait' [unfolded conjunct1 [OF r]]]
    show "log_durable db2" by (intro log_durableI [OF w2(1)])
  qed
qed

text \<open>The handle was opened with these codecs and this cipher.\<close>

definition handle_of ::
    "walCipher option \<Rightarrow> 'k codec \<Rightarrow> 'v codec \<Rightarrow> ('k, 'v, 'm, 'n, 'e, 'j) db \<Rightarrow> bool" where
  "handle_of wc kc vc db \<longleftrightarrow> db_cipher db = wc \<and> db_keyCodec db = kc \<and> db_valCodec db = vc"

context wal_db
begin

lemma single_record:
  assumes "file_inv db hdr its ops" "handle_of wc kc vc db" "member_ok r" "recOp wc kc vc r = Inr opn"
    and "canWrite db = None"
  shows "item_ok (Single r)" "denotes (db_cipher db) (db_keyCodec db) (db_valCodec db) (itemRecs (Single r)) [opn]"
  using assms by (simp_all add: handle_of_def)

lemma setInternal_cases:
  assumes inv: "log_inv B vK vV t db hdr its ops" and "handle_of wc kc vc db"
    and ok: "vK k" "vV v" "int64_range dl" "fits wc kc vc k v"
    and run: "setInternal B env rnd k v dl db = (r, db')"
  shows "(r \<noteq> None \<and> log_inv B vK vV t db' hdr its ops \<and> db_state db' = db_state db \<and> same_handle db db') \<or>
    (\<exists>it. log_inv B vK vV t db' hdr (its @ [it]) (ops @ [LSet k v (norm_dl dl)]) \<and>
       db_state db' = stateSet B k v dl (db_state db) \<and> same_handle db db' \<and>
       (r = None \<and> db_policy db = SyncAlways \<longrightarrow> log_durable db'))"
    (is "?fail \<or> ?ok")
proof -
  have m: "db_cipher db = wc" "db_keyCodec db = kc" "db_valCodec db = vc" using \<open>handle_of wc kc vc db\<close> by (simp_all add: handle_of_def)
  have finv: "file_inv db hdr its ops" and sinv: "state_inv B vK vV t (db_state db) ops"
    using inv by (simp_all add: log_inv_def)
  have fail: ?fail if "db' = db" "r \<noteq> None" using that inv by simp
  show ?thesis
  proof (cases "\<exists>kb vb. Encode kc k = Inr kb \<and> Encode vc v = Inr vb \<and> canWrite db = None")
    case False
    with run have "db' = db \<and> r \<noteq> None"
      unfolding setInternal_def m by (auto simp: Let_def split: sum.splits option.splits if_splits dest: sym)
    with fail show ?thesis by simp
  next
    case True
    then obtain kb vb where kb: "Encode kc k = Inr kb" and vb: "Encode vc v = Inr vb" and cw: "canWrite db = None"
      by blast
    obtain op vb' where opn: "(op, vb') = (if 0 < dl then (opSetTTL, prependDeadline dl vb) else (opSet, vb))"
      by (metis prod.exhaust)
    show ?thesis
    proof (cases "appendSealedRecord [] wc rnd op kb vb'")
      case (Inl e)
      with run have "db' = db \<and> r \<noteq> None"
        unfolding setInternal_def m kb vb sum.case opn [symmetric] by (auto simp: Let_def cw appendToLog_def m)
      with fail show ?thesis by simp
    next
      case (Inr bs)
      from set_record [OF ok kb vb opn Inr] obtain rc where rc: "bs = frame rc" "member_ok rc"
          "recOp wc kc vc rc = Inr (LSet k v (norm_dl dl))" by auto
      note it = single_record [OF finv \<open>handle_of wc kc vc db\<close> rc(2,3) cw]
      obtain wr db1 where wl: "writeLog env (itemBytes (Single rc)) db = (wr, db1)" by (metis prod.exhaust)
      show ?thesis
      proof (cases wr)
        case (Some e)
        note w = writeLog_Some [OF finv cw it wl [unfolded Some]]
        have "db' = db1 \<and> r = Some e"
          using run wl Some unfolding setInternal_def m kb vb sum.case opn [symmetric]
          by (simp add: Let_def cw appendToLog_def m Inr rc(1))
        with w(1,2,3) sinv show ?thesis by (simp add: log_inv_def)
      next
        case None
        let ?s = "stateSet B k v dl (db_state db)"
        note w = writeLog_None [OF finv cw it wl [unfolded None]]
        let ?d = "db1\<lparr>db_state := ?s, db_writerMu := db_writerMu db1\<rparr>"
        have wait: "waitDurable env (db_appendSeq db1) ?d = (r, db')"
          using run wl None w(3) unfolding setInternal_def m kb vb sum.case opn [symmetric]
          by (simp add: Let_def cw appendToLog_def m Inr rc(1))
        note c = commit_item [OF finv cw it wl [unfolded None] refl wait]
        have "op_ok vK vV (LSet k v (norm_dl dl))" using ok by simp
        from state_inv_op [OF sinv this] have "state_inv B vK vV t ?s (ops @ [LSet k v (norm_dl dl)])"
          by (simp add: stateSet_norm)
        moreover have "same_handle db db'" using c(3) w(2) by (simp add: same_handle_def)
        ultimately show ?thesis using c by (intro disjI2 exI [of _ "Single rc"]) (simp add: log_inv_def)
      qed
    qed
  qed
qed

lemma dbDelete_cases:
  assumes inv: "log_inv B vK vV t db hdr its ops" and "handle_of wc kc vc db" and ok: "vK k" "key_fits kc k"
    and run: "dbDelete B env rnd now k db = (r, db')"
  shows "(log_inv B vK vV t db' hdr its ops \<and> db_state db' = db_state db \<and> same_handle db db' \<and>
      (r = Inr False \<and> view B (db_state db) k = None \<or> (\<exists>e. r = Inl e))) \<or>
    (\<exists>it. log_inv B vK vV t db' hdr (its @ [it]) (ops @ [LDel k]) \<and>
       db_state db' = fst (stateDelete B k (db_state db)) \<and> same_handle db db' \<and>
       (r = Inr (visible now (view B (db_state db)) k \<noteq> None) \<or> (\<exists>e. r = Inl e)) \<and>
       ((\<exists>b. r = Inr b) \<and> db_policy db = SyncAlways \<longrightarrow> log_durable db'))"
    (is "?fail \<or> ?ok")
proof -
  have m: "db_cipher db = wc" "db_keyCodec db = kc" "db_valCodec db = vc" using \<open>handle_of wc kc vc db\<close> by (simp_all add: handle_of_def)
  have finv: "file_inv db hdr its ops" and sinv: "state_inv B vK vV t (db_state db) ops"
    using inv by (simp_all add: log_inv_def)
  have wf: "state_wf B (db_state db)" using sinv by (simp add: state_inv_def)
  show ?thesis
  proof (cases "\<exists>kb. Encode kc k = Inr kb \<and> canWrite db = None")
    case False
    with run have "db' = db \<and> (\<exists>e. r = Inl e)"
      unfolding dbDelete_def m by (auto simp: Let_def split: sum.splits option.splits if_splits)
    with inv show ?thesis by simp
  next
    case True
    then obtain kb where kb: "Encode kc k = Inr kb" and cw: "canWrite db = None" by blast
    show ?thesis
    proof (cases "m_contains (dataOps B) (st_data (db_state db)) k")
      case False
      with run have "db' = db \<and> r = Inr False" unfolding dbDelete_def m kb by (simp add: cw)
      moreover have "view B (db_state db) k = None" using False by (simp add: view_def d.contains_get)
      ultimately show ?thesis using inv by simp
    next
      case has: True
      let ?rc = "\<lparr>rec_op = opDelete, rec_key = kb, rec_val = []\<rparr>"
      have rc: "member_ok ?rc" "recOp wc kc vc ?rc = Inr (LDel k)" using delete_record [OF ok kb] by simp_all
      note it = single_record [OF finv \<open>handle_of wc kc vc db\<close> rc cw]
      obtain wr db1 where wl: "writeLog env (itemBytes (Single ?rc)) db = (wr, db1)" by (metis prod.exhaust)
      have ap: "appendToLog env rnd opDelete kb [] db = (wr, db1)"
        using wl by (simp add: appendToLog_def m appendSealed_delete del: opDelete_def)
      have vis: "\<not> expired B k now (db_state db) \<longleftrightarrow> visible now (view B (db_state db)) k \<noteq> None"
        using has get_visible [OF wf, of k now] by (auto simp: stateGet_def d.contains_get dest: sym)
      show ?thesis
      proof (cases wr)
        case (Some e)
        note w = writeLog_Some [OF finv cw it wl [unfolded Some]]
        have "db' = db1 \<and> r = Inl e"
          using run ap Some has unfolding dbDelete_def m kb sum.case by (simp add: Let_def cw)
        with w(1,2,3) sinv show ?thesis by (simp add: log_inv_def)
      next
        case None
        let ?s = "fst (stateDelete B k (db_state db))"
        note w = writeLog_None [OF finv cw it wl [unfolded None]]
        let ?d = "db1\<lparr>db_state := ?s, db_writerMu := db_writerMu db1\<rparr>"
        obtain wr' db2 where wait: "waitDurable env (db_appendSeq db1) ?d = (wr', db2)" by (metis prod.exhaust)
        have r: "db' = db2 \<and> r = (case wr' of None \<Rightarrow> Inr (\<not> expired B k now (db_state db)) | Some e \<Rightarrow> Inl e)"
          using run ap None has w(3) wait unfolding dbDelete_def m kb sum.case
          by (simp add: Let_def cw split: option.splits)
        note c = commit_item [OF finv cw it wl [unfolded None] refl wait]
        have "state_inv B vK vV t ?s (ops @ [LDel k])"
          using state_inv_op [OF sinv, of "LDel k"] ok by simp
        moreover have "same_handle db db2" using c(3) w(2) by (simp add: same_handle_def)
        ultimately show ?thesis using c r vis
          by (intro disjI2 exI [of _ "Single ?rc"]) (simp add: log_inv_def split: option.splits)
      qed
    qed
  qed
qed

end

end
