(* ===== verification/TxInv.thy ===== *)
theory TxInv
  imports LogInv
begin

text \<open>
  What a transaction carries: the frames in its buffer are records that denote the
  operations that lead from the state it began with to its private state; each active
  savepoint remembers a prefix of them. The step relation \<open>txStep\<close> has the operations a
  caller may run on a writable transaction; the invariant holds in every reachable state,
  and a commit appends exactly its operations to the log, as one item.
\<close>

section \<open>The invariant of a transaction\<close>

definition save_ok ::
    "('k::linorder, 'v, 'm, 'n, 'e, 'j) trees \<Rightarrow> ('k \<Rightarrow> bool) \<Rightarrow> ('v \<Rightarrow> bool) \<Rightarrow> ('k, 'v) amap
       \<Rightarrow> walRecord list \<Rightarrow> ('k, 'v) logOp list \<Rightarrow> ('k, 'v, 'm, 'n, 'e, 'j) savepoint \<Rightarrow> bool" where
  "save_ok B vK vV v0 rs ops sp \<longleftrightarrow>
     sp_active sp \<and> sp_nops sp \<le> length rs \<and> sp_pendingLen sp = length (frames (take (sp_nops sp) rs)) \<and>
     state_wf B (sp_state sp) \<and> amap_ok vK vV (view B (sp_state sp)) \<and>
     view B (sp_state sp) = apOps (take (sp_nops sp) ops) v0"

text \<open>The stack is ordered by the number of operations its savepoints cover.\<close>

definition saves_ok ::
    "('k::linorder, 'v, 'm, 'n, 'e, 'j) trees \<Rightarrow> ('k \<Rightarrow> bool) \<Rightarrow> ('v \<Rightarrow> bool) \<Rightarrow> ('k, 'v) amap
       \<Rightarrow> walRecord list \<Rightarrow> ('k, 'v) logOp list \<Rightarrow> ('k, 'v, 'm, 'n, 'e, 'j) spstore \<Rightarrow> nat list \<Rightarrow> bool" where
  "saves_ok B vK vV v0 rs ops hp saves \<longleftrightarrow>
     distinct saves \<and> list_all (\<lambda>a. \<exists>sp. hp a = Some sp \<and> save_ok B vK vV v0 rs ops sp) saves \<and>
     sorted (map (\<lambda>a. sp_nops (the (hp a))) saves)"

definition tx_inv ::
    "('k::linorder, 'v, 'm, 'n, 'e, 'j) trees \<Rightarrow> ('k \<Rightarrow> bool) \<Rightarrow> ('v \<Rightarrow> bool)
       \<Rightarrow> ('k, 'v, 'm, 'n, 'e, 'j) db \<Rightarrow> ('k, 'v) amap \<Rightarrow> ('k, 'v, 'm, 'n, 'e, 'j) spstore
       \<Rightarrow> ('k, 'v, 'm, 'n, 'e, 'j) tx \<Rightarrow> walRecord list \<Rightarrow> ('k, 'v) logOp list \<Rightarrow> bool" where
  "tx_inv B vK vV db v0 hp tx rs ops \<longleftrightarrow>
     tx_pending tx = frames rs \<and> tx_nops tx = length rs \<and> list_all member_ok rs \<and>
     denotes (db_cipher db) (db_keyCodec db) (db_valCodec db) rs ops \<and>
     state_wf B (tx_state tx) \<and> amap_ok vK vV (view B (tx_state tx)) \<and>
     view B (tx_state tx) = apOps ops v0 \<and> saves_ok B vK vV v0 rs ops hp (tx_saves tx)"

lemma save_ok_append:
  assumes "save_ok B vK vV v0 rs ops sp" "length rs = length ops"
  shows "save_ok B vK vV v0 (rs @ rs') (ops @ ops') sp"
  using assms by (auto simp: save_ok_def)

lemma saves_ok_append:
  assumes "saves_ok B vK vV v0 rs ops hp saves" "length rs = length ops"
  shows "saves_ok B vK vV v0 (rs @ rs') (ops @ ops') hp saves"
  using assms save_ok_append [OF _ assms(2), of B vK vV v0] unfolding saves_ok_def list_all_iff by blast

section \<open>Writes\<close>

lemma tx_inv_extend:
  assumes "tx_inv B vK vV db v0 hp tx rs ops" "member_ok r"
    and "recOp (db_cipher db) (db_keyCodec db) (db_valCodec db) r = Inr opn"
    and "tx_pending tx' = tx_pending tx @ frame r" "tx_nops tx' = tx_nops tx + 1"
    and "tx_saves tx' = tx_saves tx" "state_wf B (tx_state tx')"
    and "view B (tx_state tx') = apOp opn (view B (tx_state tx))" "op_ok vK vV opn"
  shows "tx_inv B vK vV db v0 hp tx' (rs @ [r]) (ops @ [opn])"
  using assms denotes_length [of "db_cipher db" "db_keyCodec db" "db_valCodec db" rs ops]
  by (auto simp: tx_inv_def denotes_append saves_ok_append intro: amap_ok_apOp)

context wal_db
begin

lemma txSetInternal_inv:
  assumes inv: "tx_inv B vK vV db v0 hp tx rs ops" and h: "handle_of wc kc vc db"
    and ok: "vK k" "vV v" "int64_range dl" "fits wc kc vc k v"
    and run: "txSetInternal B rnd db k v dl tx = (r, tx')"
  shows "r \<noteq> None \<and> tx' = tx \<or>
    r = None \<and> (\<exists>rc. tx_inv B vK vV db v0 hp tx' (rs @ [rc]) (ops @ [LSet k v (norm_dl dl)]))"
proof -
  have m: "db_cipher db = wc" "db_keyCodec db = kc" "db_valCodec db = vc" using h by (simp_all add: handle_of_def)
  show ?thesis
  proof (cases "r = None")
    case False
    with run show ?thesis
      by (auto simp: txSetInternal_def m Let_def split: if_splits sum.splits)
  next
    case True
    from run True obtain kb vb where kb: "Encode kc k = Inr kb" and vb: "Encode vc v = Inr vb"
        and d: "\<not> tx_done tx" "tx_writable tx"
      by (auto simp: txSetInternal_def m split: if_splits sum.splits)
    obtain op vb' where opn: "(op, vb') = (if 0 < dl then (opSetTTL, prependDeadline dl vb) else (opSet, vb))"
      by (metis prod.exhaust)
    from run True d obtain pend where ap: "appendSealedRecord (tx_pending tx) wc rnd op kb vb' = Inr pend"
        and tx': "tx' = tx\<lparr>tx_pending := pend, tx_nops := tx_nops tx + 1,
                            tx_state := stateSet B k v dl (tx_state tx)\<rparr>"
      unfolding txSetInternal_def m kb vb sum.case opn [symmetric] by (auto simp: Let_def split: sum.splits)
    have wf: "state_wf B (tx_state tx)" using inv by (simp add: tx_inv_def)
    from set_record [OF ok kb vb opn ap] obtain rc where rc: "pend = tx_pending tx @ frame rc" "member_ok rc"
        "recOp wc kc vc rc = Inr (LSet k v (norm_dl dl))" by blast
    have "tx_inv B vK vV db v0 hp tx' (rs @ [rc]) (ops @ [LSet k v (norm_dl dl)])"
      using tx_inv_extend [OF inv, of rc "LSet k v (norm_dl dl)" tx'] rc ok wf
      by (simp add: tx' m state_wf_set view_set)
    with True show ?thesis by blast
  qed
qed

lemma txDrop_inv:
  assumes inv: "tx_inv B vK vV db v0 hp tx rs ops" and h: "handle_of wc kc vc db"
    and ok: "vK k" "key_fits kc k" and kb: "Encode kc k = Inr kb"
  shows "\<exists>rc. tx_inv B vK vV db v0 hp (txDrop B k kb tx) (rs @ [rc]) (ops @ [LDel k])"
proof -
  have m: "db_cipher db = wc" "db_keyCodec db = kc" "db_valCodec db = vc" using h by (simp_all add: handle_of_def)
  have wf: "state_wf B (tx_state tx)" using inv by (simp add: tx_inv_def)
  let ?rc = "\<lparr>rec_op = opDelete, rec_key = kb, rec_val = []\<rparr>"
  have "tx_inv B vK vV db v0 hp (txDrop B k kb tx) (rs @ [?rc]) (ops @ [LDel k])"
    using tx_inv_extend [OF inv, of ?rc "LDel k" "txDrop B k kb tx"] delete_record [OF ok kb] ok wf
    by (simp add: txDrop_def m state_wf_delete view_delete appendRecord_frame del: opDelete_def)
  then show ?thesis by blast
qed

lemma txDelete_inv:
  assumes inv: "tx_inv B vK vV db v0 hp tx rs ops" and h: "handle_of wc kc vc db"
    and ok: "vK k" "key_fits kc k" and run: "txDelete B now db k tx = (r, tx')"
  shows "tx' = tx \<or> (\<exists>rc. tx_inv B vK vV db v0 hp tx' (rs @ [rc]) (ops @ [LDel k])) \<and>
    r = Inr (visible now (view B (tx_state tx)) k \<noteq> None)"
proof (cases "tx' = tx")
  case False
  with run h obtain kb where kb: "Encode kc k = Inr kb" and tx': "tx' = txDrop B k kb tx"
      and r: "r = Inr (\<not> expired B k now (tx_state tx))" "m_contains (dataOps B) (st_data (tx_state tx)) k"
    by (auto simp: txDelete_def handle_of_def split: if_splits sum.splits)
  have "state_wf B (tx_state tx)" using inv by (simp add: tx_inv_def)
  from get_visible [OF this, of k now] r(2)
  have "\<not> expired B k now (tx_state tx) \<longleftrightarrow> visible now (view B (tx_state tx)) k \<noteq> None"
    by (auto simp: stateGet_def d.contains_get dest: sym)
  with txDrop_inv [OF inv h ok kb] tx' r(1) show ?thesis by simp
qed simp

lemma dropAll_inv:
  assumes "tx_inv B vK vV db v0 hp tx rs ops" "handle_of wc kc vc db"
    and "list_all (\<lambda>(k, kb). vK k \<and> key_fits kc k \<and> Encode kc k = Inr kb) kkbs"
    and "dropAll B now kkbs n tx = (n', tx')"
  shows "\<exists>rs'. tx_inv B vK vV db v0 hp tx' (rs @ rs') (ops @ map (\<lambda>p. LDel (fst p)) kkbs)"
  using assms(1,3,4)
proof (induction kkbs arbitrary: n tx rs ops)
  case Nil
  then show ?case by (auto intro: exI [of _ "[]"])
next
  case (Cons p kkbs)
  obtain k kb where p: "p = (k, kb)" by (cases p)
  from Cons.prems(2,3) p have k: "vK k" "key_fits kc k" "Encode kc k = Inr kb"
    and la: "list_all (\<lambda>(k, kb). vK k \<and> key_fits kc k \<and> Encode kc k = Inr kb) kkbs"
    and run: "dropAll B now kkbs (if expired B k now (tx_state tx) then n else n + 1) (txDrop B k kb tx) = (n', tx')"
    by simp_all
  from txDrop_inv [OF Cons.prems(1) assms(2) k] obtain rc
    where d: "tx_inv B vK vV db v0 hp (txDrop B k kb tx) (rs @ [rc]) (ops @ [LDel k])" by blast
  from Cons.IH [OF d la run] obtain rs'
    where "tx_inv B vK vV db v0 hp tx' ((rs @ [rc]) @ rs') ((ops @ [LDel k]) @ map (\<lambda>p. LDel (fst p)) kkbs)"
    by blast
  then show ?case using p by (intro exI [of _ "rc # rs'"]) simp
qed

text \<open>The count of a range delete: the keys that were visible before it.\<close>

lemma dropAll_count:
  assumes "state_wf B (tx_state tx)" "distinct (map fst kkbs)"
    and "set (map fst kkbs) \<subseteq> {k. view B (tx_state tx) k \<noteq> None}"
  shows "fst (dropAll B now kkbs n tx) =
    n + length (filter (\<lambda>k. visible now (view B (tx_state tx)) k \<noteq> None) (map fst kkbs))"
  using assms
proof (induction kkbs arbitrary: n tx)
  case Nil
  then show ?case by simp
next
  case (Cons p kkbs)
  obtain k kb where p: "p = (k, kb)" by (cases p)
  let ?tx = "txDrop B k kb tx" and ?v = "\<lambda>tx k. visible now (view B (tx_state tx)) k \<noteq> None"
  have v: "view B (tx_state ?tx) = (view B (tx_state tx))(k := None)" "state_wf B (tx_state ?tx)"
    using Cons.prems(1) by (simp_all add: txDrop_def view_delete state_wf_delete)
  have "k \<notin> fst ` set kkbs" using Cons.prems(2) p by simp
  then have same: "view B (tx_state ?tx) a = view B (tx_state tx) a" if "a \<in> fst ` set kkbs" for a
    using that v(1) by auto
  have "filter (?v ?tx) (map fst kkbs) = filter (?v tx) (map fst kkbs)"
    by (rule filter_cong [OF refl]) (auto simp: visible_def same)
  moreover have "expired B k now (tx_state tx) \<longleftrightarrow> \<not> ?v tx k"
    using Cons.prems(1,3) p expired_view [OF Cons.prems(1), of k] by (auto simp: visible_def)
  moreover have "set (map fst kkbs) \<subseteq> {a. view B (tx_state ?tx) a \<noteq> None}"
  proof
    fix a assume a: "a \<in> set (map fst kkbs)"
    with Cons.prems(3) have "view B (tx_state tx) a \<noteq> None" by (simp only: list.map set_simps) blast
    with same a show "a \<in> {a. view B (tx_state ?tx) a \<noteq> None}" by simp
  qed
  with Cons.IH [of ?tx] Cons.prems(2) v(2) p
  have "fst (dropAll B now kkbs m ?tx) = m + length (filter (?v ?tx) (map fst kkbs))" for m by simp
  ultimately show ?case using p by simp
qed

lemma encodeAll_Inr:
  "encodeAll enc ks = Inr kbs \<Longrightarrow> length kbs = length ks \<and> list_all (\<lambda>(k, kb). enc k = Inr kb) (zip ks kbs)"
  by (induction ks arbitrary: kbs) (auto split: sum.splits)

lemma fst_zip_map: "length kbs = length ks \<Longrightarrow> map (\<lambda>p. f (fst p)) (zip ks kbs) = map f ks"
  by (induction ks kbs rule: list_induct2') auto

lemma takeWhile_less_sorted: "sorted xs \<Longrightarrow> takeWhile (\<lambda>x. x < c) xs = filter (\<lambda>x. x < (c::'x::linorder)) xs"
  by (induction xs) (fastforce intro!: filter_False [symmetric])+

text \<open>The keys that the first loop of a range delete collects, in order.\<close>

lemma ascend_range:
  "takeWhile (\<lambda>k. k < hi) (map fst (m_ascend (dataOps B) (st_data s) lo)) =
   filter (\<lambda>k. lo \<le> k \<and> k < hi) (map fst (m_all (dataOps B) (st_data s)))"
proof -
  let ?ks = "map fst (m_all (dataOps B) (st_data s))"
  have "map fst (m_ascend (dataOps B) (st_data s) lo) = filter (\<lambda>k. lo \<le> k) ?ks"
    by (simp add: d.ascend_all filter_map comp_def)
  moreover have "sorted (filter (\<lambda>k. lo \<le> k) ?ks)"
    using d.all_sorted [of "st_data s"] by (simp add: strict_sorted_iff sorted_wrt_filter)
  then have "takeWhile (\<lambda>k. k < hi) (filter (\<lambda>k. lo \<le> k) ?ks) = filter (\<lambda>k. k < hi) (filter (\<lambda>k. lo \<le> k) ?ks)"
    by (rule takeWhile_less_sorted)
  ultimately show ?thesis by (simp add: conj_commute)
qed

lemma in_data: "k \<in> set (map fst (m_all (dataOps B) (st_data s))) \<longleftrightarrow> view B s k \<noteq> None"
  using d.keys_all [of "st_data s"] by (auto simp: view_def)

lemma txDeleteRange_inv:
  assumes inv: "tx_inv B vK vV db v0 hp tx rs ops" and h: "handle_of wc kc vc db"
    and fit: "\<And>k. lo \<le> k \<Longrightarrow> k < hi \<Longrightarrow> view B (tx_state tx) k \<noteq> None \<Longrightarrow> key_fits kc k"
    and run: "txDeleteRange B now db lo hi tx = (r, tx')"
  shows "(\<exists>e. r = Inl e) \<and> tx' = tx \<or>
    (\<exists>rs' ks. tx_inv B vK vV db v0 hp tx' (rs @ rs') (ops @ map LDel ks) \<and>
       set ks = {k. lo \<le> k \<and> k < hi \<and> view B (tx_state tx) k \<noteq> None}) \<and>
    r = Inr (card {k. lo \<le> k \<and> k < hi \<and> visible now (view B (tx_state tx)) k \<noteq> None})"
proof -
  let ?ks = "takeWhile (\<lambda>k. k < hi) (map fst (m_ascend (dataOps B) (st_data (tx_state tx)) lo))"
  have set: "set ?ks = {k. lo \<le> k \<and> k < hi \<and> view B (tx_state tx) k \<noteq> None}"
    using in_data [of _ "tx_state tx"] unfolding ascend_range by auto
  have valid: "list_all (\<lambda>k. vK k \<and> key_fits kc k) ?ks"
  proof -
    have "vK k" if "view B (tx_state tx) k \<noteq> None" for k
      using inv that unfolding tx_inv_def amap_ok_def by (metis not_None_eq surj_pair)
    then show ?thesis using fit unfolding list_all_iff set by blast
  qed
  show ?thesis
  proof (cases "\<exists>e. r = Inl e")
    case True
    with run show ?thesis by (auto simp: txDeleteRange_def Let_def split: if_splits sum.splits prod.splits)
  next
    case False
    with run h obtain kbs n where kbs: "encodeAll (Encode kc) ?ks = Inr kbs"
        and da: "dropAll B now (zip ?ks kbs) 0 tx = (n, tx')" and r: "r = Inr n"
      by (auto simp: txDeleteRange_def handle_of_def Let_def split: if_splits sum.splits prod.splits)
    note e = encodeAll_Inr [OF kbs]
    have wf: "state_wf B (tx_state tx)" using inv by (simp add: tx_inv_def)
    have dist: "distinct ?ks"
      using d.distinct_all [of "st_data (tx_state tx)"] unfolding ascend_range by simp
    have mf: "map fst (zip ?ks kbs) = ?ks" using e by simp
    have "n = length (filter (\<lambda>k. visible now (view B (tx_state tx)) k \<noteq> None) ?ks)"
      using dropAll_count [OF wf, of "zip ?ks kbs" now 0, unfolded mf, OF dist equalityD1 [OF set, THEN subset_trans]]
      by (simp only: da fst_conv add_0) blast
    also have "\<dots> = card (set (filter (\<lambda>k. visible now (view B (tx_state tx)) k \<noteq> None) ?ks))"
      by (rule distinct_card [symmetric]) (simp add: dist)
    also have "set (filter (\<lambda>k. visible now (view B (tx_state tx)) k \<noteq> None) ?ks) =
        {k. lo \<le> k \<and> k < hi \<and> visible now (view B (tx_state tx)) k \<noteq> None}"
      using set by (auto simp: visible_def split: option.splits)
    finally have count: "r = Inr (card {k. lo \<le> k \<and> k < hi \<and> visible now (view B (tx_state tx)) k \<noteq> None})"
      using r by simp
    have "list_all (\<lambda>(k, kb). vK k \<and> key_fits kc k \<and> Encode kc k = Inr kb) (zip ?ks kbs)"
      using e valid unfolding list_all_iff by (auto dest: set_zip_leftD)
    from dropAll_inv [OF inv h this da] obtain rs' where
      "tx_inv B vK vV db v0 hp tx' (rs @ rs') (ops @ map (\<lambda>p. LDel (fst p)) (zip ?ks kbs))" by blast
    then have "tx_inv B vK vV db v0 hp tx' (rs @ rs') (ops @ map LDel ?ks)"
      by (simp only: fst_zip_map [OF conjunct1 [OF e]])
    with set count show ?thesis by blast
  qed
qed

end

section \<open>Savepoints\<close>

lemma findFrom_Some: "findFrom n saves a = Some i \<Longrightarrow> i < n \<and> saves ! i = a"
  by (induction n) (auto split: if_splits)

lemma findSave_Inr:
  assumes "findSave hp ptr tx = Inr (i, sp)"
  shows "i < length (tx_saves tx)" "ptr = Some (tx_saves tx ! i)" "hp (tx_saves tx ! i) = Some sp"
  using assms by (auto simp: findSave_def dest!: findFrom_Some split: if_splits option.splits)

lemma deactivate_other [simp]: "a \<notin> set as \<Longrightarrow> deactivate as hp a = hp a"
  by (simp add: deactivate_def)

lemma save_ok_take:
  assumes "save_ok B vK vV v0 rs ops sp" "sp_nops sp \<le> n"
  shows "save_ok B vK vV v0 (take n rs) (take n ops) sp"
  using assms by (auto simp: save_ok_def min_absorb1)

text \<open>Dropping the top of the stack, and the operations above a bound for the rest.\<close>

lemma saves_ok_take:
  assumes ok: "saves_ok B vK vV v0 rs ops hp saves"
    and n: "\<And>a. a \<in> set (take j saves) \<Longrightarrow> sp_nops (the (hp a)) \<le> n"
  shows "saves_ok B vK vV v0 (take n rs) (take n ops) (deactivate (drop j saves) hp) (take j saves)"
proof -
  have dist: "distinct saves" using ok by (simp add: saves_ok_def)
  have same: "deactivate (drop j saves) hp a = hp a" if "a \<in> set (take j saves)" for a
    using that dist set_take_disj_set_drop_if_distinct [OF dist, of j j] by (intro deactivate_other) auto
  have "\<exists>sp. hp a = Some sp \<and> save_ok B vK vV v0 (take n rs) (take n ops) sp" if a: "a \<in> set (take j saves)" for a
  proof -
    obtain sp where "hp a = Some sp" "save_ok B vK vV v0 rs ops sp"
      using ok in_set_takeD [OF a] by (auto simp: saves_ok_def list_all_iff)
    with n [OF a] show ?thesis by (auto intro: save_ok_take)
  qed
  moreover have "map (\<lambda>a. sp_nops (the (deactivate (drop j saves) hp a))) (take j saves) =
      take j (map (\<lambda>a. sp_nops (the (hp a))) saves)"
    unfolding take_map by (rule map_cong [OF refl]) (simp add: same)
  ultimately show ?thesis using ok same
    by (simp add: saves_ok_def list_all_iff sorted_wrt_take)
qed

lemma tx_inv_nops_le:
  assumes "tx_inv B vK vV db v0 hp tx rs ops" "a \<in> set (tx_saves tx)"
  shows "sp_nops (the (hp a)) \<le> length rs"
  using assms by (auto simp: tx_inv_def saves_ok_def list_all_iff save_ok_def)

context wal_db
begin

lemma txSavepoint_inv:
  assumes inv: "tx_inv B vK vV db v0 hp tx rs ops" and fresh: "hp addr = None"
    and run: "txSavepoint B addr hp tx = Inr (hp', tx')"
  shows "tx_inv B vK vV db v0 hp' tx' rs ops" "tx_state tx' = tx_state tx"
    "\<exists>sp. hp' addr = Some sp \<and> sp_nops sp = length rs"
proof -
  let ?sp = "\<lparr>sp_state = stateCopy B (tx_state tx), sp_pendingLen = length (tx_pending tx),
              sp_nops = tx_nops tx, sp_active = True\<rparr>"
  have r: "hp' = hp(addr \<mapsto> ?sp)" "tx' = tx\<lparr>tx_saves := tx_saves tx @ [addr]\<rparr>"
    using run by (auto simp: txSavepoint_def split: if_splits)
  have len: "length rs = length ops" using inv by (auto simp: tx_inv_def dest: denotes_length)
  have new: "addr \<notin> set (tx_saves tx)"
    using inv fresh by (auto simp: tx_inv_def saves_ok_def list_all_iff)
  have sp: "save_ok B vK vV v0 rs ops ?sp"
    using inv len by (auto simp: tx_inv_def save_ok_def state_wf_copy view_copy)
  have nops: "a \<in> set (tx_saves tx) \<Longrightarrow> sp_nops (the (hp a)) \<le> tx_nops tx" for a
    using tx_inv_nops_le [OF inv] inv by (simp add: tx_inv_def)
  have old: "\<exists>sp. hp' a = Some sp \<and> save_ok B vK vV v0 rs ops sp" if "a \<in> set (tx_saves tx)" for a
    using inv that new by (auto simp: r tx_inv_def saves_ok_def list_all_iff)
  have eq: "map (\<lambda>a. sp_nops (the (hp' a))) (tx_saves tx) = map (\<lambda>a. sp_nops (the (hp a))) (tx_saves tx)"
    using new by (intro map_cong [OF refl]) (auto simp: r)
  have "saves_ok B vK vV v0 rs ops hp' (tx_saves tx @ [addr])"
    unfolding saves_ok_def using inv new sp old nops
    by (simp add: eq sorted_append list_all_iff tx_inv_def saves_ok_def) (simp add: r)
  then show "tx_inv B vK vV db v0 hp' tx' rs ops" using inv by (auto simp: tx_inv_def r)
  show "tx_state tx' = tx_state tx" by (simp add: r)
  show "\<exists>sp. hp' addr = Some sp \<and> sp_nops sp = length rs" using inv by (simp add: r tx_inv_def)
qed

lemma txRollbackTo_inv:
  assumes inv: "tx_inv B vK vV db v0 hp tx rs ops"
    and run: "txRollbackTo B hp ptr tx = Inr (hp', tx')"
  shows "\<exists>a sp. ptr = Some a \<and> hp a = Some sp \<and> sp_nops sp \<le> length rs \<and>
    tx_inv B vK vV db v0 hp' tx' (take (sp_nops sp) rs) (take (sp_nops sp) ops) \<and>
    view B (tx_state tx') = view B (sp_state sp) \<and> hp' a = Some sp \<and> a \<in> set (tx_saves tx')"
proof -
  obtain i sp where f: "findSave hp ptr tx = Inr (i, sp)"
    using run by (auto simp: txRollbackTo_def split: sum.splits)
  note fs = findSave_Inr [OF f]
  let ?n = "sp_nops sp"
  have r: "hp' = deactivate (drop (i + 1) (tx_saves tx)) hp"
      "tx' = tx\<lparr>tx_state := stateCopy B (sp_state sp), tx_saves := take (i + 1) (tx_saves tx),
                tx_pending := take (sp_pendingLen sp) (tx_pending tx), tx_nops := ?n\<rparr>"
    using run f by (simp_all add: txRollbackTo_def)
  have sok: "saves_ok B vK vV v0 rs ops hp (tx_saves tx)" using inv by (simp add: tx_inv_def)
  then have sp: "save_ok B vK vV v0 rs ops sp"
    using fs(1,3) by (auto simp: saves_ok_def list_all_length)
  have "saves_ok B vK vV v0 (take ?n rs) (take ?n ops) hp' (take (i + 1) (tx_saves tx))"
    unfolding r(1)
  proof (rule saves_ok_take [OF sok])
    fix a assume "a \<in> set (take (i + 1) (tx_saves tx))"
    then obtain j where j: "j \<le> i" "tx_saves tx ! j = a" by (auto simp: in_set_conv_nth less_Suc_eq_le)
    have "sorted (map (\<lambda>a. sp_nops (the (hp a))) (tx_saves tx))" using sok by (simp add: saves_ok_def)
    from sorted_nth_mono [OF this j(1)] fs(1,3) j show "sp_nops (the (hp a)) \<le> ?n" by simp
  qed
  moreover have "take (sp_pendingLen sp) (tx_pending tx) = frames (take ?n rs)"
  proof -
    have "frames rs = frames (take ?n rs) @ frames (drop ?n rs)"
      by (metis append_take_drop_id concat_append map_append)
    then show ?thesis using inv sp by (simp add: tx_inv_def save_ok_def)
  qed
  ultimately have "tx_inv B vK vV db v0 hp' tx' (take ?n rs) (take ?n ops)"
    using inv sp by (auto simp: r(2) tx_inv_def save_ok_def denotes_take state_wf_copy view_copy list_all_iff
        dest: in_set_takeD)
  moreover have i: "tx_saves tx ! i \<in> set (take (i + 1) (tx_saves tx))"
    using fs(1) by (simp add: take_Suc_conv_app_nth)
  have "distinct (tx_saves tx)" using sok by (simp add: saves_ok_def)
  from set_take_disj_set_drop_if_distinct [OF this, of "i + 1" "i + 1"] i
  have "tx_saves tx ! i \<notin> set (drop (i + 1) (tx_saves tx))" by auto
  ultimately show ?thesis using fs sp i
    by (intro exI [of _ "tx_saves tx ! i"] exI [of _ sp]) (simp add: r view_copy save_ok_def)
qed

lemma txRelease_inv:
  assumes inv: "tx_inv B vK vV db v0 hp tx rs ops" and run: "txRelease hp ptr tx = Inr (hp', tx')"
  shows "tx_inv B vK vV db v0 hp' tx' rs ops" "tx_state tx' = tx_state tx"
proof -
  obtain i sp where f: "findSave hp ptr tx = Inr (i, sp)"
    using run by (auto simp: txRelease_def split: sum.splits)
  have r: "hp' = deactivate (drop i (tx_saves tx)) hp" "tx' = tx\<lparr>tx_saves := take i (tx_saves tx)\<rparr>"
    using run f by (simp_all add: txRelease_def)
  have len: "length rs = length ops" using inv by (auto simp: tx_inv_def dest: denotes_length)
  have "saves_ok B vK vV v0 rs ops hp (tx_saves tx)" using inv by (simp add: tx_inv_def)
  from saves_ok_take [OF this, of i "length rs"] tx_inv_nops_le [OF inv] len
  have "saves_ok B vK vV v0 rs ops hp' (take i (tx_saves tx))" by (auto simp: r dest: in_set_takeD)
  then show "tx_inv B vK vV db v0 hp' tx' rs ops" "tx_state tx' = tx_state tx"
    using inv by (auto simp: tx_inv_def r)
qed

end

section \<open>Reachable transactions\<close>

text \<open>
  The operations of a caller on an open transaction, successful or not: the store of
  savepoints and the transaction before and after.
\<close>

inductive txStep ::
    "('k::linorder, 'v, 'm, 'n, 'e, 'j) trees \<Rightarrow> ('k \<Rightarrow> bool) \<Rightarrow> ('v \<Rightarrow> bool) \<Rightarrow> ('k, 'v, 'm, 'n, 'e, 'j) db
       \<Rightarrow> ('k, 'v, 'm, 'n, 'e, 'j) spstore \<times> ('k, 'v, 'm, 'n, 'e, 'j) tx
       \<Rightarrow> ('k, 'v, 'm, 'n, 'e, 'j) spstore \<times> ('k, 'v, 'm, 'n, 'e, 'j) tx \<Rightarrow> bool"
  for B vK vV db where
  step_set: "vK k \<Longrightarrow> vV v \<Longrightarrow> int64_range dl \<Longrightarrow> fits (db_cipher db) (db_keyCodec db) (db_valCodec db) k v \<Longrightarrow>
    txSetInternal B rnd db k v dl tx = (r, tx') \<Longrightarrow> txStep B vK vV db (hp, tx) (hp, tx')"
| step_delete: "vK k \<Longrightarrow> key_fits (db_keyCodec db) k \<Longrightarrow>
    txDelete B now db k tx = (r', tx') \<Longrightarrow> txStep B vK vV db (hp, tx) (hp, tx')"
| step_range: "(\<And>k. lo \<le> k \<Longrightarrow> k < hi \<Longrightarrow> view B (tx_state tx) k \<noteq> None \<Longrightarrow> key_fits (db_keyCodec db) k) \<Longrightarrow>
    txDeleteRange B now db lo hi tx = (r'', tx') \<Longrightarrow> txStep B vK vV db (hp, tx) (hp, tx')"
| step_savepoint: "hp addr = None \<Longrightarrow> txSavepoint B addr hp tx = Inr (hp', tx') \<Longrightarrow>
    txStep B vK vV db (hp, tx) (hp', tx')"
| step_rollbackTo: "txRollbackTo B hp ptr tx = Inr (hp', tx') \<Longrightarrow> txStep B vK vV db (hp, tx) (hp', tx')"
| step_release: "txRelease hp ptr tx = Inr (hp', tx') \<Longrightarrow> txStep B vK vV db (hp, tx) (hp', tx')"

inductive_cases txStepE: "txStep B vK vV db (hp, tx) (hp', tx')"

lemma txDrop_frame:
  "tx_done (txDrop B k kb tx) = tx_done tx" "tx_writable (txDrop B k kb tx) = tx_writable tx"
  by (simp_all add: txDrop_def)

lemma dropAll_frame:
  "tx_done (snd (dropAll B now kkbs n tx)) = tx_done tx \<and> tx_writable (snd (dropAll B now kkbs n tx)) = tx_writable tx"
  by (induction kkbs arbitrary: n tx) (auto simp: txDrop_frame)

lemma txStep_open:
  assumes "txStep B vK vV db (hp, tx) (hp', tx')"
  shows "tx_done tx' = tx_done tx \<and> tx_writable tx' = tx_writable tx"
  using assms
proof (cases rule: txStepE [consumes 1])
  case (3 lo hi now r)
  then show ?thesis using dropAll_frame [of B now _ 0 tx]
    by (auto simp: txDeleteRange_def Let_def split: if_splits sum.splits prod.splits) (metis snd_conv)+
qed (auto simp: txSetInternal_def txDelete_def txSavepoint_def txRollbackTo_def txRelease_def txDrop_frame Let_def
    split: if_splits sum.splits prod.splits)

context wal_db
begin

lemma txStep_inv:
  assumes "txStep B vK vV db (hp, tx) (hp', tx')" "handle_of wc kc vc db"
    and inv: "tx_inv B vK vV db v0 hp tx rs ops"
  shows "\<exists>rs' ops'. tx_inv B vK vV db v0 hp' tx' rs' ops'"
  using assms(1)
proof (cases rule: txStepE [consumes 1])
  case (1 k v dl rnd r)
  then show ?thesis using txSetInternal_inv [OF inv assms(2), of k v dl rnd r tx'] inv assms(2)
    by (auto simp: handle_of_def)
next
  case (2 k now r)
  then show ?thesis using txDelete_inv [OF inv assms(2), of k now r tx'] inv assms(2)
    by (auto simp: handle_of_def)
next
  case (3 lo hi now r)
  then show ?thesis using txDeleteRange_inv [OF inv assms(2), of lo hi now r tx'] inv assms(2)
    by (auto simp: handle_of_def)
next
  case (4 addr)
  then show ?thesis using txSavepoint_inv(1) [OF inv] by blast
next
  case (5 ptr)
  then show ?thesis using txRollbackTo_inv [OF inv] by blast
next
  case (6 ptr)
  then show ?thesis using txRelease_inv(1) [OF inv] by blast
qed

lemma txReach_inv:
  assumes "(txStep B vK vV db)\<^sup>*\<^sup>* (hp, tx) (hp', tx')" "handle_of wc kc vc db"
    and "tx_inv B vK vV db v0 hp tx rs ops"
  shows "(\<exists>rs' ops'. tx_inv B vK vV db v0 hp' tx' rs' ops') \<and>
    tx_done tx' = tx_done tx \<and> tx_writable tx' = tx_writable tx"
  using assms(1)
proof (induction "(hp', tx')" arbitrary: hp' tx' rule: rtranclp_induct)
  case base
  then show ?case using assms(3) by auto
next
  case (step y)
  obtain h t where y: "y = (h, t)" by (cases y)
  with step.hyps(3) obtain rs' ops' where i: "tx_inv B vK vV db v0 h t rs' ops'"
      "tx_done t = tx_done tx" "tx_writable t = tx_writable tx" by blast
  from txStep_inv [OF step.hyps(2) [unfolded y] assms(2) i(1)] txStep_open [OF step.hyps(2) [unfolded y]] i(2,3)
  show ?case by simp
qed

end

section \<open>Begin, commit and update\<close>

lemma batchPrefix_frame: "batchPrefix n = frame (batchHead [] n)"
  by (simp add: batchPrefix_def batchHead_def appendRecord_frame)

text \<open>The item a commit appends.\<close>

definition commitItem :: "walRecord list \<Rightarrow> logItem" where
  "commitItem rs = (if 1 < length rs then Batch [] rs else Single (hd rs))"

lemma commitItem_facts:
  assumes "rs \<noteq> []" "list_all member_ok rs" "length rs < 2 ^ 64"
  shows "item_ok (commitItem rs)" "itemRecs (commitItem rs) = rs"
    "itemBytes (commitItem rs) = (if 1 < length rs then batchPrefix (length rs) @ frames rs else frames rs)"
  using assms by (cases rs; cases "tl rs"; simp add: commitItem_def batchPrefix_frame)+

lemma txCommit_append:
  assumes "\<not> tx_done tx" "tx_writable tx" "canWrite db = None" "tx_nops tx \<noteq> 0"
    and "buf = (if 1 < tx_nops tx then batchPrefix (tx_nops tx) @ tx_pending tx else tx_pending tx)"
  shows "txCommit env hp db tx =
    (case writeLog env buf db of
       (Some e, db1) \<Rightarrow> (Some e, deactivate (tx_saves tx) hp, db1\<lparr>db_writerMu := False\<rparr>,
                         tx\<lparr>tx_done := True, tx_saves := []\<rparr>)
     | (None, db1) \<Rightarrow>
         (case waitDurable env (db_appendSeq db1) (db1\<lparr>db_state := tx_state tx, db_writerMu := False\<rparr>) of
            (err, db2) \<Rightarrow> (err, deactivate (tx_saves tx) hp, db2, tx\<lparr>tx_done := True, tx_saves := []\<rparr>)))"
  using assms by (simp add: txCommit_def releaseSaves_def Let_def cong: if_cong split: prod.split option.split)

context wal_db
begin

lemma dbBegin_inv:
  assumes "log_inv B vK vV t db hdr its ops" "dbBegin B True db = (Inr tx, db')"
  shows "tx_inv B vK vV db' (view B (db_state db)) hp tx [] []" "db' = db\<lparr>db_writerMu := True\<rparr>"
    "\<not> tx_done tx" "tx_writable tx" "view B (tx_state tx) = view B (db_state db)"
  using assms
  by (auto simp: dbBegin_def tx_inv_def saves_ok_def log_inv_def state_inv_def state_wf_copy view_copy
      split: option.splits)

lemma txCommit_cases:
  assumes inv: "log_inv B vK vV t db hdr its ops" and h: "handle_of wc kc vc db"
    and txi: "tx_inv B vK vV db (view B (db_state db)) hp tx rs tops"
    and st: "\<not> tx_done tx" "tx_writable tx" and n: "length rs < 2 ^ 64"
    and run: "txCommit env hp db tx = (r, hp', db', tx')"
  shows "tx_done tx' \<and> \<not> db_writerMu db' \<and> same_handle (db\<lparr>db_writerMu := False\<rparr>) db' \<and>
    (log_inv B vK vV t db' hdr its ops \<and> db_state db' = db_state db \<and>
       (r = None \<longrightarrow> rs = [] \<and> db' = db\<lparr>db_writerMu := False\<rparr>) \<or>
     (\<exists>it. itemRecs it = rs \<and> log_inv B vK vV t db' hdr (its @ [it]) (ops @ tops) \<and>
        db_state db' = tx_state tx \<and> (r = None \<and> db_policy db = SyncAlways \<longrightarrow> log_durable db')))"
proof -
  have finv: "file_inv db hdr its ops" and sinv: "state_inv B vK vV t (db_state db) ops"
    using inv by (simp_all add: log_inv_def)
  have p: "tx_pending tx = frames rs" "tx_nops tx = length rs" "list_all member_ok rs"
      "denotes (db_cipher db) (db_keyCodec db) (db_valCodec db) rs tops"
    using txi by (simp_all add: tx_inv_def)
  show ?thesis
  proof (cases "canWrite db \<noteq> None \<or> rs = []")
    case True
    then have "r = canWrite db \<and> db' = db\<lparr>db_writerMu := False\<rparr> \<and> tx_done tx'"
      using run st p(2) by (auto simp: txCommit_def releaseSaves_def Let_def)
    with True finv sinv show ?thesis by (auto simp: log_inv_def)
  next
    case False
    then have cw: "canWrite db = None" and rs: "rs \<noteq> []" by simp_all
    note ci = commitItem_facts [OF rs p(3) n]
    have den: "denotes (db_cipher db) (db_keyCodec db) (db_valCodec db) (itemRecs (commitItem rs)) tops"
      using p(4) ci(2) by simp
    have nz: "tx_nops tx \<noteq> 0" using rs p(2) by simp
    have buf: "itemBytes (commitItem rs) =
        (if 1 < tx_nops tx then batchPrefix (tx_nops tx) @ tx_pending tx else tx_pending tx)"
      by (simp only: ci(3) p(1,2))
    obtain wr db1 where wl: "writeLog env (itemBytes (commitItem rs)) db = (wr, db1)" by (metis prod.exhaust)
    show ?thesis
    proof (cases wr)
      case (Some e)
      note w = writeLog_Some [OF finv cw ci(1) den wl [unfolded Some]]
      have "r = Some e \<and> db' = db1\<lparr>db_writerMu := False\<rparr> \<and> tx_done tx'"
        using run unfolding txCommit_append [OF st cw nz buf] wl Some by auto
      with w(1,2,3) sinv show ?thesis by (simp add: log_inv_def same_handle_def)
    next
      case None
      note w = writeLog_None [OF finv cw ci(1) den wl [unfolded None]]
      let ?d = "db1\<lparr>db_state := tx_state tx, db_writerMu := False\<rparr>"
      have wait: "waitDurable env (db_appendSeq db1) ?d = (r, db')" and "tx_done tx'"
        using run unfolding txCommit_append [OF st cw nz buf] wl None by (auto split: prod.splits)
      note c = commit_item [OF finv cw ci(1) den wl [unfolded None] refl wait]
      have "agree t (apOps tops (view B (db_state db))) (apOps tops (apOps ops Map.empty))"
        using sinv by (intro agree_apOps) (simp add: state_inv_def)
      then have "state_inv B vK vV t (tx_state tx) (ops @ tops)"
        using txi by (auto simp: state_inv_def tx_inv_def)
      then show ?thesis using c \<open>tx_done tx'\<close> ci(2)
        by (intro conjI disjI2 exI [of _ "commitItem rs"]) (simp_all add: log_inv_def same_handle_def)
    qed
  qed
qed

lemma dbUpdate_refused: "canWrite db = Some e \<Longrightarrow> dbUpdate B env fn hp db = (Returned (Some e), hp, db)"
  by (simp add: dbUpdate_def dbBegin_def)

text \<open>
  The body of an update uses the transaction it is given and leaves the database alone:
  \<open>tx1\<close> is the transaction as the body leaves it and \<open>o1\<close> how the body ends.
\<close>

lemma dbUpdate_run:
  assumes inv: "log_inv B vK vV t db hdr its ops" and h: "handle_of wc kc vc db"
    and bg: "dbBegin B True db = (Inr tx, db1)" and fn: "fn hp db1 tx = (o1, hp1, db1, tx1)"
    and steps: "(txStep B vK vV db1)\<^sup>*\<^sup>* (hp, tx) (hp1, tx1)" and n: "tx_nops tx1 < 2 ^ 64"
    and run: "dbUpdate B env fn hp db = (out, hp', db')"
  shows "\<not> db_writerMu db' \<and> same_handle (db\<lparr>db_writerMu := False\<rparr>) db' \<and>
    (o1 \<noteq> Returned None \<and> out = o1 \<and> log_inv B vK vV t db' hdr its ops \<and> db_state db' = db_state db \<or>
     (\<exists>r. o1 = Returned None \<and> out = Returned r \<and>
        (r = None \<longrightarrow> view B (db_state db') = view B (tx_state tx1)) \<and>
        (log_inv B vK vV t db' hdr its ops \<and> db_state db' = db_state db \<and>
           (r = None \<longrightarrow> db' = db\<lparr>db_writerMu := False\<rparr>) \<or>
         (\<exists>it tops. log_inv B vK vV t db' hdr (its @ [it]) (ops @ tops) \<and> db_state db' = tx_state tx1 \<and>
            view B (tx_state tx1) = apOps tops (view B (db_state db)) \<and>
            (r = None \<and> db_policy db = SyncAlways \<longrightarrow> log_durable db')))))"
proof -
  note b = dbBegin_inv [OF inv bg]
  have h1: "handle_of wc kc vc db1" using h b(2) by (simp add: handle_of_def)
  have inv1: "log_inv B vK vV t db1 hdr its ops" using inv b(2) by (simp add: log_inv_def)
  from txReach_inv [OF steps h1 b(1) [of hp]] b(2-4) obtain rs tops where
    t1: "tx_inv B vK vV db1 (view B (db_state db1)) hp1 tx1 rs tops" "\<not> tx_done tx1" "tx_writable tx1"
    by auto
  have nr: "length rs < 2 ^ 64" using n t1(1) by (simp add: tx_inv_def)
  have rb: "txRollback hp1 db1 tx1 = (hp2, db2, tx2) \<Longrightarrow> db2 = db\<lparr>db_writerMu := False\<rparr>" for hp2 db2 tx2
    using t1(2,3) b(2) by (auto simp: txRollback_def releaseSaves_def Let_def)
  have inv0: "log_inv B vK vV t (db\<lparr>db_writerMu := False\<rparr>) hdr its ops" using inv by (simp add: log_inv_def)
  show ?thesis
  proof (cases "o1 = Returned None")
    case False
    then have "db' = db\<lparr>db_writerMu := False\<rparr> \<and> out = o1"
      using run rb unfolding dbUpdate_def bg prod.case sum.case fn
      by (cases o1) (auto simp: Let_def split: prod.splits option.splits)
    with inv0 False show ?thesis by simp
  next
    case True
    then obtain r hp2 tx2 where c: "txCommit env hp1 db1 tx1 = (r, hp2, db', tx2)" and out: "out = Returned r"
      using run unfolding dbUpdate_def bg prod.case sum.case fn by (auto simp: Let_def split: prod.splits)
    have v: "view B (tx_state tx1) = apOps tops (view B (db_state db))"
      and len: "length tops = length rs"
      using t1(1) b(2) by (auto simp: tx_inv_def dest: denotes_length)
    from txCommit_cases [OF inv1 h1 t1 nr c]
    have mu': "\<not> db_writerMu db' \<and> same_handle (db\<lparr>db_writerMu := False\<rparr>) db'" and cases:
      "log_inv B vK vV t db' hdr its ops \<and> db_state db' = db_state db \<and>
         (r = None \<longrightarrow> rs = [] \<and> db' = db\<lparr>db_writerMu := False\<rparr>) \<or>
       (\<exists>it. log_inv B vK vV t db' hdr (its @ [it]) (ops @ tops) \<and> db_state db' = tx_state tx1 \<and>
          (r = None \<and> db_policy db = SyncAlways \<longrightarrow> log_durable db'))"
      using b(2) by auto
    from cases have view': "r = None \<longrightarrow> view B (db_state db') = view B (tx_state tx1)"
      using v len by auto
    from cases v have "log_inv B vK vV t db' hdr its ops \<and> db_state db' = db_state db \<and>
         (r = None \<longrightarrow> db' = db\<lparr>db_writerMu := False\<rparr>) \<or>
       (\<exists>it tops. log_inv B vK vV t db' hdr (its @ [it]) (ops @ tops) \<and> db_state db' = tx_state tx1 \<and>
          view B (tx_state tx1) = apOps tops (view B (db_state db)) \<and>
          (r = None \<and> db_policy db = SyncAlways \<longrightarrow> log_durable db'))" by blast
    with mu' out view' True show ?thesis by blast
  qed
qed

end

section \<open>Read-only transactions\<close>

context wal_db
begin

lemma dbBegin_readonly:
  assumes "log_inv B vK vV t db hdr its ops" "dbBegin B False db = (Inr tx, db')"
  shows "tx_inv B vK vV db' (view B (db_state db)) hp tx [] []" "db' = db" "\<not> tx_done tx" "\<not> tx_writable tx"
  using assms
  by (auto simp: dbBegin_def tx_inv_def saves_ok_def log_inv_def state_inv_def state_wf_copy view_copy split: if_splits)

text \<open>Nothing a caller does on one buffers an operation.\<close>

lemma readonly_step:
  assumes step: "txStep B vK vV db (hp, tx) (hp', tx')" and inv: "tx_inv B vK vV db v0 hp tx [] []" and "\<not> tx_writable tx"
  shows "tx_inv B vK vV db v0 hp' tx' [] []"
  using step
proof (cases rule: txStepE [consumes 1])
  case (1 k v dl rnd r)
  then show ?thesis using inv assms(3) by (auto simp: txSetInternal_def split: if_splits)
next
  case (2 k now r)
  then show ?thesis using inv assms(3) by (auto simp: txDelete_def split: if_splits)
next
  case (3 lo hi now r)
  then show ?thesis using inv assms(3) by (auto simp: txDeleteRange_def split: if_splits)
next
  case (4 addr)
  then show ?thesis using txSavepoint_inv(1) [OF inv] by blast
next
  case (5 ptr)
  then show ?thesis using txRollbackTo_inv [OF inv] by fastforce
next
  case (6 ptr)
  then show ?thesis using txRelease_inv(1) [OF inv] by blast
qed

lemma readonly_reach:
  assumes "(txStep B vK vV db)\<^sup>*\<^sup>* (hp, tx) (hp', tx')" "tx_inv B vK vV db v0 hp tx [] []" "\<not> tx_writable tx"
  shows "tx_inv B vK vV db v0 hp' tx' [] [] \<and> tx_done tx' = tx_done tx \<and> \<not> tx_writable tx'"
  using assms(1)
proof (induction "(hp', tx')" arbitrary: hp' tx' rule: rtranclp_induct)
  case base
  then show ?case using assms(2,3) by simp
next
  case (step y)
  obtain h t where y: "y = (h, t)" by (cases y)
  with step.hyps(3) have i: "tx_inv B vK vV db v0 h t [] []" "tx_done t = tx_done tx" "\<not> tx_writable t" by blast+
  from readonly_step [OF step.hyps(2) [unfolded y] i(1,3)] txStep_open [OF step.hyps(2) [unfolded y]] i(2,3)
  show ?case by simp
qed

end

end
