(* ===== verification/Recovery.thy ===== *)
theory Recovery
  imports LogInv
begin

text \<open>
  Opening a database: a successful \<^verbatim>\<open>Open\<close> of any file establishes the log invariant, and
  opening what a crash leaves of a log recovers exactly the whole items in it.
\<close>

section \<open>Headers that are accepted\<close>

lemma header_prefix:
  assumes "take 8 c = logMagic" "checksumIEEE (take 12 c) = getUint32 (take 4 (drop 12 c))" "16 \<le> length c"
  shows "take 16 c = hdrPrefix (getUint32 (take 4 (drop 8 c)))"
proof -
  have "length (take 4 (drop 8 c)) = 4" "length (take 4 (drop 12 c)) = 4" using assms(3) by simp_all
  then have p: "putUint32 (getUint32 (take 4 (drop 8 c))) = take 4 (drop 8 c)"
      "putUint32 (getUint32 (take 4 (drop 12 c))) = take 4 (drop 12 c)"
    by (simp_all add: putUint32_get)
  have t12: "take 12 c = logMagic @ take 4 (drop 8 c)"
    using take_add [of 8 4 c] assms(1) by simp
  have "take 16 c = take 12 c @ take 4 (drop 12 c)" using take_add [of 12 4 c] by simp
  then show ?thesis using assms(2) by (simp add: hdrPrefix_def p t12)
qed

lemma word32_below_2: "\<not> 2 \<le> v \<Longrightarrow> v = 0 \<or> v = (1 :: 32 word)"
proof -
  assume "\<not> 2 \<le> v"
  then have "unat v = 0 \<or> unat v = 1" by (auto simp: word_le_nat_alt)
  then show ?thesis by (metis unat_eq_zero unsigned_1 word_unat_eq_iff)
qed

lemma prepareHeader_accept:
  assumes kcv: "kcv_ok wc" and cl: "\<not> lf_closed f" and run: "prepareHeader io_ok f wc = (Inr n, f')"
  shows "hdr_ok wc (take n (lf_content f')) \<and> n \<le> length (lf_content f') \<and> \<not> lf_closed f' \<and>
    (f' = f \<or> f' = f\<lparr>lf_content := headerFor wc, lf_synced := headerFor wc, lf_pos := length (headerFor wc)\<rparr>)"
proof (cases "f' = f")
  case False
  with prepareHeader_result [OF cl run] cl show ?thesis by (auto simp: hdr_ok_def)
next
  case True
  show ?thesis
  proof (cases "n = 0 \<or> n = length (headerFor wc) \<and> take n (lf_content f) = headerFor wc")
    case c: True
    then show ?thesis
    proof
      assume "n = 0"
      moreover have "length (headerFor wc) \<noteq> 0" using length_headerFor [OF kcv] by simp
      ultimately have "wc = None"
        using run True writeFresh_ok [OF cl] by (auto simp: prepareHeader_def Let_def split: if_splits)
      with \<open>n = 0\<close> True cl show ?thesis by (simp add: hdr_ok_def)
    next
      assume a: "n = length (headerFor wc) \<and> take n (lf_content f) = headerFor wc"
      then have "n \<le> length (lf_content f)" by (metis length_take min.cobounded1)
      with a True cl show ?thesis by (auto simp: hdr_ok_def)
    qed
  next
    case False
    have hl: "length (headerFor wc) \<noteq> 0" using length_headerFor [OF kcv] by simp
    let ?c = "lf_content f" and ?got = "take (min (lf_size f) 44) (lf_content f)"
    have nf: "writeFresh io_ok (headerFor wc) f \<noteq> (Inr n, f)"
    proof
      assume w: "writeFresh io_ok (headerFor wc) f = (Inr n, f)"
      let ?f = "f\<lparr>lf_content := headerFor wc, lf_synced := headerFor wc, lf_pos := length (headerFor wc)\<rparr>"
      from w [unfolded writeFresh_ok [OF cl]] have n: "length (headerFor wc) = n" and eq: "?f = f"
        by (blast dest: Pair_inject sum.inject(2) [THEN iffD1])+
      have "lf_content f = headerFor wc" using arg_cong [OF eq, of lf_content] by simp
      with False n show False by simp
    qed
    from run [unfolded True] nf False hl have
        g: "take 8 ?got = logMagic" "checksumIEEE (take 12 ?got) = getUint32 (take 4 (drop 12 ?got))"
        "16 \<le> lf_size f" and v: "\<not> 2 < getUint32 (take 4 (drop 8 ?got))"
      and cases: "wc = None \<and> n = 16 \<and> \<not> 2 \<le> getUint32 (take 4 (drop 8 ?got)) \<or>
        wc \<noteq> None \<and> n = 44 \<and> 44 \<le> lf_size f \<and> 2 \<le> getUint32 (take 4 (drop 8 ?got)) \<and>
          take 4 (drop 16 ?got) = take 4 (drop 16 (headerFor wc)) \<and>
          take 24 (drop 20 ?got) = take 24 (drop 20 (headerFor wc))"
      by (auto simp: prepareHeader_def Let_def split: if_splits option.splits)
    have pre: "take 16 ?got = hdrPrefix (getUint32 (take 4 (drop 8 ?got)))"
      using g by (intro header_prefix) (auto simp: lf_size_def)
    have t16: "take 16 ?c = take 16 ?got" using g(3) by simp
    from cases show ?thesis
    proof (elim disjE conjE)
      assume "wc = None" "n = 16" "\<not> 2 \<le> getUint32 (take 4 (drop 8 ?got))"
      moreover from this(3) have "getUint32 (take 4 (drop 8 ?got)) = 0 \<or> getUint32 (take 4 (drop 8 ?got)) = 1"
        by (rule word32_below_2)
      ultimately show ?thesis using pre t16 g(3) cl True
        by (auto simp: hdr_ok_def headerFor_def logHeader_prefix lf_size_def)
    next
      assume a: "wc \<noteq> None" "n = 44" "44 \<le> lf_size f" "2 \<le> getUint32 (take 4 (drop 8 ?got))"
        "take 4 (drop 16 ?got) = take 4 (drop 16 (headerFor wc))"
        "take 24 (drop 20 ?got) = take 24 (drop 20 (headerFor wc))"
      then have "getUint32 (take 4 (drop 8 ?got)) = 2" using v by simp
      then have "take 16 ?got = hdrPrefix 2" using pre by simp
      moreover obtain k where k: "wc = Some k" using a(1) by auto
      moreover have "length (wcKCV k) = 24" using kcv k by (simp add: kcv_ok_def)
      ultimately have "take 16 ?got = take 16 (headerFor wc)" "length (headerFor wc) = 44"
        by (simp_all add: headerFor_def wcHeader_split)
      moreover have "take 44 x = take 16 x @ take 4 (drop 16 x) @ take 24 (drop 20 x)" for x :: bytes
        using take_add [of 16 28 x] take_add [of 4 24 "drop 16 x"] by simp
      ultimately have "take 44 ?got = headerFor wc" using a(5,6) by (metis order_refl take_all)
      then show ?thesis using a(2,3) True cl by (auto simp: hdr_ok_def lf_size_def min_absorb2)
    qed
  qed
qed

section \<open>The steps of Open\<close>

lemma openTail_ok:
  assumes "\<not> lf_closed f"
  shows "openTail io_ok tr v p f =
    (if p < lf_size f \<and> \<not> tr \<and> scanForRecord (drop p (lf_content f)) \<noteq> None then (Some ErrCorrupt, f)
     else (None, f\<lparr>lf_content := take v (lf_content f), lf_pos := v\<rparr>))"
  using assms
  by (auto simp: openTail_def Let_def lf_section_def lf_size_def lf_truncate_def lf_seek_def)

text \<open>The file that \<^verbatim>\<open>Open\<close> opens: the one at the path, or a new empty one.\<close>

definition openedFile :: "string \<Rightarrow> fsys \<Rightarrow> logfile" where
  "openedFile path fs = (case fs_cur fs path of
       None \<Rightarrow> emptyFile | Some h \<Rightarrow> (fs_inode fs h)\<lparr>lf_pos := 0, lf_closed := False\<rparr>)"

lemma openedFile_open [simp]: "\<not> lf_closed (openedFile path fs)"
  by (simp add: openedFile_def emptyFile_def split: option.splits)

lemma compactSuffix_neq [simp]: "compactSuffix \<noteq> []"
  by (simp add: compactSuffix_def)

text \<open>A new file has an inode number of its own.\<close>

lemma fs_wf_fresh:
  assumes "fs_wf fs" "fs_cur fs path = None"
  shows "fs_wf (fs\<lparr>fs_inode := (fs_inode fs)(fs_next fs := f), fs_cur := (fs_cur fs)(path \<mapsto> fs_next fs),
                 fs_next := Suc (fs_next fs)\<rparr>)"
proof -
  have lt: "fs_cur fs p = Some i \<Longrightarrow> i < fs_next fs" for p i using assms(1) by (simp add: fs_wf_def)
  have "inj_on ((fs_cur fs)(path \<mapsto> fs_next fs)) (insert path (dom (fs_cur fs)))"
  proof (rule inj_onI)
    fix p q assume "p \<in> insert path (dom (fs_cur fs))" "q \<in> insert path (dom (fs_cur fs))"
      and "((fs_cur fs)(path \<mapsto> fs_next fs)) p = ((fs_cur fs)(path \<mapsto> fs_next fs)) q"
    moreover have "fs_cur fs p \<noteq> Some (fs_next fs)" "fs_cur fs q \<noteq> Some (fs_next fs)"
      using lt [of _ "fs_next fs"] by auto
    ultimately show "p = q" using assms(1) inj_onD [of "fs_cur fs" "dom (fs_cur fs)" p q]
      by (cases "p = path"; cases "q = path") (simp_all add: fs_wf_def)
  qed
  then show ?thesis using lt by (auto simp: fs_wf_def less_Suc_eq)
qed

text \<open>What \<^verbatim>\<open>Open\<close> does with the file \<open>f0\<close> it has opened, every operation of it succeeding.\<close>

definition openedResult ::
    "('k::linorder, 'v, 'm, 'n, 'e, 'j) trees \<Rightarrow> walCipher option \<Rightarrow> 'k codec \<Rightarrow> 'v codec \<Rightarrow> options \<Rightarrow> string
       \<Rightarrow> nat \<Rightarrow> logfile \<Rightarrow> fsys \<Rightarrow> ('k, 'v, 'm, 'n, 'e, 'j) db result \<times> fsys" where
  "openedResult B wc kc vc opts path h f0 fs1 =
      (case prepareHeader io_ok f0 wc of
         (Inl e, f) \<Rightarrow> (Inl e, closeFile io_ok h (fs_upd h f fs1))
       | (Inr ds, f) \<Rightarrow>
           (case replayLog \<lparr>rd_bytes = drop ds (lf_content f), rd_end = None\<rparr>
                   (applyRecord B wc kc vc) (newDBState B) of
              (_, _, Some e, _) \<Rightarrow> (Inl e, closeFile io_ok h (fs_upd h (f\<lparr>lf_pos := ds\<rparr>) fs1))
            | (valid, parsed, None, s) \<Rightarrow>
                (case openTail io_ok (o_truncateAtCorrupt opts) (valid + ds) (parsed + ds)
                        (f\<lparr>lf_pos := ds\<rparr>) of
                   (Some e, f) \<Rightarrow> (Inl e, closeFile io_ok h (fs_upd h f fs1))
                 | (None, f) \<Rightarrow>
                     (Inr (newHandle path kc vc wc opts s h (fs_upd h f fs1) (valid + ds)),
                      fs_upd h f fs1))))"

lemma openDB_unfold:
  assumes wf: "fs_wf fs" and oc: "openCipher hkdf aesNew (openOptions opts) = Inr wc"
  shows "\<exists>h fs1. fs_wf fs1 \<and> fs_cur fs1 path = Some h \<and> fs_dur fs1 path = Some h \<and>
    openDB B hkdf aesNew io_ok path kc vc opts fs =
      openedResult B wc kc vc (openOptions opts) path h (openedFile path fs) fs1"
proof -
  let ?fs0 = "fs\<lparr>fs_cur := (fs_cur fs)(path @ compactSuffix := None)\<rparr>"
  obtain h fs1 where o: "fsOpenFile None path ?fs0 = (Inr h, fs1)"
    by (cases "fs_cur ?fs0 path") (auto simp: fsOpenFile_def fs_new_def Let_def)
  have wf0: "fs_wf ?fs0" using wf by (auto simp: fs_wf_def inj_on_def)
  have *: "fs_inode fs1 h = openedFile path fs \<and> fs_cur fs1 path = Some h \<and> fs_wf fs1"
  proof (cases "fs_cur fs path")
    case None
    with o have "h = fs_next fs" "fs1 = ?fs0\<lparr>fs_inode := (fs_inode fs)(h := emptyFile),
        fs_cur := (fs_cur ?fs0)(path \<mapsto> h), fs_next := Suc h\<rparr>"
      by (auto simp: fsOpenFile_def fs_new_def Let_def)
    with fs_wf_fresh [OF wf0, of path emptyFile] None show ?thesis by (simp add: openedFile_def)
  next
    case (Some i)
    with o wf0 show ?thesis by (auto simp: fsOpenFile_def openedFile_def)
  qed
  let ?fs2 = "fs1\<lparr>fs_dur := fs_cur fs1\<rparr>"
  have "fs_wf ?fs2 \<and> fs_cur ?fs2 path = Some h \<and> fs_dur ?fs2 path = Some h \<and> fs_inode ?fs2 h = openedFile path fs"
    using * by (simp add: fs_wf_def)
  moreover have "\<not> lf_closed f" if "prepareHeader io_ok (openedFile path fs) wc = (Inr n, f)" for n f
    using prepareHeader_result [OF _ that] by auto
  ultimately show ?thesis
    by (intro exI [of _ h] exI [of _ ?fs2])
      (auto simp: openDB_def oc fsRemove_def o fsSyncDir_def lf_seek_def Let_def openedResult_def * split: prod.split sum.split option.split)
qed

section \<open>Open establishes the invariant\<close>

context wal_db
begin

lemma state_inv_ops:
  "denotes wc kc vc rs ops \<Longrightarrow> state_inv B vK vV t (fold (stateOp B) ops (newDBState B)) ops"
proof (induction ops arbitrary: rs rule: rev_induct)
  case Nil
  then show ?case by (simp add: state_inv_def state_wf_new view_new)
next
  case (snoc opn ops)
  then have "list_all (op_ok vK vV) (ops @ [opn])" by (blast intro: denotes_ok)
  moreover have "denotes wc kc vc (take (length ops) rs) ops"
    using denotes_take [OF snoc.prems, of "length ops"] by simp
  ultimately show ?case using state_inv_op [OF snoc.IH] by simp
qed

lemma view_ops: "denotes wc kc vc rs ops \<Longrightarrow> view B (fold (stateOp B) ops (newDBState B)) = apOps ops Map.empty"
proof (induction ops arbitrary: rs rule: rev_induct)
  case Nil
  then show ?case by (simp add: view_new)
next
  case (snoc opn ops)
  have d: "denotes wc kc vc (take (length ops) rs) ops"
    using denotes_take [OF snoc.prems, of "length ops"] by simp
  from state_inv_ops [OF d, of 0] have "state_wf B (fold (stateOp B) ops (newDBState B))"
    by (simp add: state_inv_def)
  with snoc.IH [OF d] show ?case by (cases opn) (simp_all add: view_set view_delete)
qed

text \<open>The handle over a file that holds a header and items.\<close>

lemma newHandle_inv:
  assumes "hdr_ok wc hdr" "list_all item_ok its" "denotes wc kc vc (logRecs its) ops"
    and "lf_content f = hdr @ logBytes its" "lf_pos f = length (hdr @ logBytes its)" "\<not> lf_closed f"
    and "fs_wf fs" "fs_cur fs path = Some h"
  shows "log_inv B vK vV t
     (newHandle path kc vc wc o' (fold (stateOp B) ops (newDBState B)) h (fs_upd h f fs) (length (hdr @ logBytes its)))
     hdr its ops"
  using assms state_inv_ops [OF assms(3)] by (simp add: log_inv_def file_inv_def newHandle_def)

lemma openDB_inv:
  assumes wf: "fs_wf fs" and oc: "openCipher hkdf aesNew (openOptions opts) = Inr wc"
    and run: "openDB B hkdf aesNew io_ok path kc vc opts fs = (Inr db, fs')"
  shows "\<exists>hdr its ops. log_inv B vK vV t db hdr its ops \<and> handle_of wc kc vc db \<and>
    view B (db_state db) = apOps ops Map.empty \<and> \<not> db_writerMu db \<and> canWrite db = None \<and>
    db_fs db = fs' \<and> db_path db = path"
proof -
  from openDB_unfold [OF wf oc, of path B kc vc] obtain h fs1 where
    fs1: "fs_wf fs1" "fs_cur fs1 path = Some h" and eq:
    "openDB B hkdf aesNew io_ok path kc vc opts fs =
      openedResult B wc kc vc (openOptions opts) path h (openedFile path fs) fs1"
    by blast
  note eq = eq [unfolded openedResult_def]
  from run [unfolded eq] obtain ds f where ph: "prepareHeader io_ok (openedFile path fs) wc = (Inr ds, f)"
    by (auto split: prod.splits sum.splits)
  note pa = prepareHeader_accept [OF header_kcv openedFile_open ph]
  obtain valid parsed s where rl: "replayLog \<lparr>rd_bytes = drop ds (lf_content f), rd_end = None\<rparr>
      (applyRecord B wc kc vc) (newDBState B) = (valid, parsed, None, s)"
    using run [unfolded eq ph] by (auto split: prod.splits option.splits)
  let ?f = "f\<lparr>lf_content := take (valid + ds) (lf_content f), lf_pos := valid + ds\<rparr>"
  have ot: "openTail io_ok (o_truncateAtCorrupt (openOptions opts)) (valid + ds) (parsed + ds) (f\<lparr>lf_pos := ds\<rparr>) = (None, ?f)"
    using run [unfolded eq ph] rl pa by (auto simp: openTail_ok split: if_splits)
  from replayLoop_sound [OF rl [unfolded replayLog_def]] obtain its rest where
    its: "list_all item_ok its" "drop ds (lf_content f) = logBytes its @ rest" "valid = length (logBytes its)"
      "applyAll (applyRecord B wc kc vc) (newDBState B) (logRecs its) = Inr s"
    by auto
  from its(4) obtain ops where ops: "denotes wc kc vc (logRecs its) ops"
      "s = fold (stateOp B) ops (newDBState B)" unfolding applyAll_denotes by blast
  let ?hdr = "take ds (lf_content f)"
  have len: "length ?hdr = ds" using pa by simp
  have "take (valid + ds) (lf_content f) = ?hdr @ logBytes its"
    using its(2,3) take_add [of ds valid "lf_content f"] by (simp add: add.commute)
  moreover have "valid + ds = length (?hdr @ logBytes its)" using len its(3) by simp
  ultimately have "log_inv B vK vV t
      (newHandle path kc vc wc (openOptions opts) s h (fs_upd h ?f fs1) (length (?hdr @ logBytes its))) ?hdr its ops"
    unfolding ops(2) using pa its(1) ops(1) fs1 by (intro newHandle_inv) (simp_all add: add.commute)
  moreover have "db = newHandle path kc vc wc (openOptions opts) s h (fs_upd h ?f fs1) (length (?hdr @ logBytes its))"
      "fs' = fs_upd h ?f fs1"
    using run [unfolded eq ph] rl ot len its(3) by (auto simp: add.commute)
  moreover have "view B s = apOps ops Map.empty" using view_ops [OF ops(1)] ops(2) by simp
  ultimately show ?thesis
    by (intro exI [of _ ?hdr] exI [of _ its] exI [of _ ops]) (simp add: newHandle_def handle_of_def canWrite_def)
qed

end

section \<open>Reopening a log\<close>

text \<open>The first byte of an item is an operation code, so no item looks like a header.\<close>

lemma hd_frame: "hd (frame r) = rec_op r"
  by (simp add: frame_split rec_head_def)

lemma hd_itemBytes: "item_ok it \<Longrightarrow> hd (itemBytes it) \<le> 4"
  by (cases it) (auto simp: hd_frame hd_append member_ok_def frame_ok_def)

lemma hd_logMagic: "hd logMagic = 98"
  by (simp add: logMagic_def byte_of_char_def)

lemma hd_logHeader: "hd logHeader = 98"
  by (simp add: logHeader_prefix hdrPrefix_def hd_append hd_logMagic) (metis length_0_conv length_logMagic zero_neq_numeral)

lemma prepareHeader_legacy:
  assumes "\<not> lf_closed f" "lf_content f = b # bs" "b \<le> 4"
  shows "prepareHeader io_ok f None = (Inr 0, f)"
proof -
  let ?got = "take (min (lf_size f) 44) (lf_content f)"
  have b: "b \<noteq> 98" using assms(3) by auto
  have "?got \<noteq> take (lf_size f) logHeader"
  proof
    assume "?got = take (lf_size f) logHeader"
    from arg_cong [OF this, of hd] have "b = hd logHeader"
      by (simp add: assms(2) lf_size_def hd_take min_def split: if_splits)
    with b show False by (simp add: hd_logHeader)
  qed
  moreover have "take (length logMagic) ?got \<noteq> logMagic"
  proof
    assume "take (length logMagic) ?got = logMagic"
    from arg_cong [OF this, of hd] have "b = hd logMagic" by (simp add: assms(2) lf_size_def)
    with b show False by (simp add: hd_logMagic)
  qed
  moreover have "lf_size f \<noteq> 0" using assms(2) by (simp add: lf_size_def)
  ultimately show ?thesis by (simp add: prepareHeader_def Let_def headerFor_def)
qed

lemma prepareHeader_reopen:
  assumes kcv: "kcv_ok wc" and cl: "\<not> lf_closed f" and hdr: "hdr_ok wc hdr" and its: "list_all item_ok its"
    and c: "lf_content f = hdr @ take n (logBytes its)"
  shows "\<exists>hdr' f'. prepareHeader io_ok f wc = (Inr (length hdr'), f') \<and> hdr_ok wc hdr' \<and> \<not> lf_closed f' \<and>
    lf_content f' = hdr' @ take n (logBytes its) \<and>
    (hdr \<noteq> [] \<or> take n (logBytes its) \<noteq> [] \<longrightarrow> hdr' = hdr \<and> f' = f)"
proof -
  have keep: ?thesis if "prepareHeader io_ok f wc = (Inr (length hdr), f)"
    using that cl c hdr by (intro exI [of _ hdr] exI [of _ f]) simp
  consider (own) "hdr = headerFor wc" | (zero) "wc = None" "hdr = hdrPrefix 0" | (legacy) "wc = None" "hdr = []"
    using hdr by (auto simp: hdr_ok_def)
  then show ?thesis
  proof cases
    case own
    with prepareHeader_own [OF kcv cl, of "take n (logBytes its)"] c keep show ?thesis by simp
  next
    case zero
    with c have "prepareHeader io_ok f wc = (Inr (length hdr), f)"
      by (subst prepareHeader_prefix [where v = 0 and rest = "take n (logBytes its)"])
        (simp_all add: headerFor_def logHeader_prefix lf_size_def)
    with keep show ?thesis .
  next
    case legacy
    show ?thesis
    proof (cases "take n (logBytes its) = []")
      case True
      with c legacy have "lf_content f = take 0 (headerFor wc)" by simp
      moreover have "0 < length (headerFor wc)" using length_headerFor [OF kcv] by simp
      ultimately have "prepareHeader io_ok f wc = (Inr (length (headerFor wc)), f\<lparr>lf_content := headerFor wc,
          lf_synced := headerFor wc, lf_pos := length (headerFor wc)\<rparr>)"
        by (intro prepareHeader_torn [OF kcv cl, of 0])
      then show ?thesis using True legacy cl
        by (intro exI [of _ "headerFor wc"] exI [of _ "f\<lparr>lf_content := headerFor wc, lf_synced := headerFor wc,
            lf_pos := length (headerFor wc)\<rparr>"]) (simp add: hdr_ok_def)
    next
      case False
      then obtain it its' where i: "its = it # its'" by (cases its) auto
      obtain m where n: "n = Suc m" using False by (cases n) auto
      obtain b bs where ib: "itemBytes it = b # bs" using itemBytes_nonempty [of it] by (cases "itemBytes it") blast
      then have "lf_content f = b # take m (bs @ logBytes its')" using c legacy n i by simp
      moreover have "b \<le> 4" using hd_itemBytes [of it] its i ib by simp
      ultimately show ?thesis using prepareHeader_legacy [OF cl] legacy keep by simp
    qed
  qed
qed

context wal_db
begin

text \<open>
  Opening a file with a prefix of a log. The only refusal is the documented one: the bytes
  past the last whole record hold an intact record, and the caller did not ask to truncate.
\<close>

lemma openDB_recovers:
  assumes wf: "fs_wf fs" and oc: "openCipher hkdf aesNew (openOptions opts) = Inr wc"
    and c: "lf_content (openedFile path fs) = hdr @ take n (logBytes its)" and hdr: "hdr_ok wc hdr"
    and its: "list_all item_ok its" and ops: "denotes wc kc vc (logRecs its) ops" and n: "n \<le> length (logBytes its)"
  defines "j \<equiv> wholeItems n its"
  defines "opsj \<equiv> take (length (logRecs (take j its))) ops"
  shows "(\<exists>db fs' hdr'. openDB B hkdf aesNew io_ok path kc vc opts fs = (Inr db, fs') \<and>
      log_inv B vK vV t db hdr' (take j its) opsj \<and> view B (db_state db) = apOps opsj Map.empty \<and>
      handle_of wc kc vc db \<and> \<not> db_writerMu db \<and> canWrite db = None \<and> db_path db = path) \<or>
    (\<exists>fs' f m p. openDB B hkdf aesNew io_ok path kc vc opts fs = (Inl ErrCorrupt, fs') \<and>
      \<not> o_truncateAtCorrupt (openOptions opts) \<and> m < length (frame f) \<and> frame_ok f \<and> 0 < m \<and>
      length (logBytes (take j its)) \<le> p \<and> drop p (take n (logBytes its)) = take m (frame f) \<and>
      scanForRecord (take m (frame f)) \<noteq> None)"
proof -
  from prepareHeader_reopen [OF header_kcv openedFile_open hdr its c] obtain hdr' f where
    ph: "prepareHeader io_ok (openedFile path fs) wc = (Inr (length hdr'), f)" and h': "hdr_ok wc hdr'"
    and cl: "\<not> lf_closed f" and cf: "lf_content f = hdr' @ take n (logBytes its)" by blast
  have "logRecs its = logRecs (take j its) @ logRecs (drop j its)"
    by (metis append_take_drop_id concat_append map_append)
  with ops have dj: "denotes wc kc vc (logRecs (take j its)) opsj" by (simp add: denotes_split opsj_def)
  then have ap: "applyAll (applyRecord B wc kc vc) (newDBState B) (logRecs (take (wholeItems n its) its)) =
      Inr (fold (stateOp B) opsj (newDBState B))"
    unfolding applyAll_denotes j_def by blast
  from replayLog_prefix [OF its n ap] obtain p g m where
    rl: "replayLog \<lparr>rd_bytes = take n (logBytes its), rd_end = None\<rparr> (applyRecord B wc kc vc) (newDBState B) =
      (length (logBytes (take j its)), p, None, fold (stateOp B) opsj (newDBState B))"
    and p: "length (logBytes (take j its)) \<le> p" "p \<le> n"
    and g: "frame_ok g" "m < length (frame g)" "drop p (take n (logBytes its)) = take m (frame g)"
    unfolding j_def by blast
  from openDB_unfold [OF wf oc, of path B kc vc] obtain h fs1 where
    fs1: "fs_wf fs1" "fs_cur fs1 path = Some h" and eq: "openDB B hkdf aesNew io_ok path kc vc opts fs =
      (case openTail io_ok (o_truncateAtCorrupt (openOptions opts))
         (length (logBytes (take j its)) + length hdr') (p + length hdr') (f\<lparr>lf_pos := length hdr'\<rparr>) of
         (Some e, f) \<Rightarrow> (Inl e, closeFile io_ok h (fs_upd h f fs1))
       | (None, f) \<Rightarrow>
           (Inr (newHandle path kc vc wc (openOptions opts) (fold (stateOp B) opsj (newDBState B)) h
              (fs_upd h f fs1) (length (logBytes (take j its)) + length hdr')), fs_upd h f fs1))"
    by (auto simp: openedResult_def ph cf rl)
  have tk: "take (length (logBytes (take j its)) + length hdr') (lf_content f) = hdr' @ logBytes (take j its)"
  proof -
    have "take (length (logBytes (take j its))) (take n (logBytes its)) = logBytes (take j its)"
      using wholeItems_split [OF n] unfolding j_def [symmetric] by (elim disjE exE conjE) (simp_all del: take_take)
    then show ?thesis by (simp add: cf)
  qed
  let ?bad = "p + length hdr' < lf_size f \<and> \<not> o_truncateAtCorrupt (openOptions opts) \<and>
      scanForRecord (drop (p + length hdr') (lf_content f)) \<noteq> None"
  show ?thesis
  proof (cases ?bad)
    case True
    have "drop (p + length hdr') (lf_content f) = take m (frame g)" using g(3) by (simp add: cf)
    with True g(1,2) have "scanForRecord (take m (frame g)) \<noteq> None" "0 < m"
      by (auto simp: lf_size_def cf dest!: arg_cong [where f = length])
    with True g p(1) cl show ?thesis unfolding eq
      by (intro disjI2 exI [of _ g] exI [of _ m] exI [of _ p]) (simp add: openTail_ok lf_size_def, blast)
  next
    case False
    let ?f = "f\<lparr>lf_content := hdr' @ logBytes (take j its), lf_pos := length (hdr' @ logBytes (take j its))\<rparr>"
    have sz: "lf_size (f\<lparr>lf_pos := length hdr'\<rparr>) = lf_size f" by (simp add: lf_size_def)
    have ot: "openTail io_ok (o_truncateAtCorrupt (openOptions opts)) (length (logBytes (take j its)) + length hdr')
        (p + length hdr') (f\<lparr>lf_pos := length hdr'\<rparr>) = (None, ?f)"
      using False cl tk by (subst openTail_ok) (auto simp: sz add.commute)
    have ok: "list_all item_ok (take j its)" using its by (auto simp: list_all_iff dest: in_set_takeD)
    have "log_inv B vK vV t (newHandle path kc vc wc (openOptions opts) (fold (stateOp B) opsj (newDBState B)) h
        (fs_upd h ?f fs1) (length (hdr' @ logBytes (take j its)))) hdr' (take j its) opsj"
      using h' ok dj cl fs1 by (intro newHandle_inv) simp_all
    then show ?thesis unfolding eq ot option.case prod.case using view_ops [OF dj]
      by (intro disjI1 exI conjI) (rule refl, simp_all add: newHandle_def handle_of_def canWrite_def add.commute)
  qed
qed

end

section \<open>Crashes\<close>

text \<open>
  What a power cut leaves of an append-only file: a prefix of what was written, at least as
  long as the part that is known to be on stable storage.
\<close>

definition crash_bytes :: "logfile \<Rightarrow> bytes \<Rightarrow> bool" where
  "crash_bytes f bs \<longleftrightarrow>
     (\<exists>n. bs = take n (lf_content f) \<and>
        (\<forall>m. m \<le> length (lf_synced f) \<and> take m (lf_synced f) = take m (lf_content f) \<longrightarrow> m \<le> n))"

text \<open>The first \<open>d\<close> items of the log are on stable storage.\<close>

definition dur_items :: "('k, 'v, 'm, 'n, 'e, 'j) db \<Rightarrow> bytes \<Rightarrow> logItem list \<Rightarrow> nat \<Rightarrow> bool" where
  "dur_items db hdr its d \<longleftrightarrow> d \<le> length its \<and>
     take (length (hdr @ logBytes (take d its))) (lf_synced (the_file db)) = hdr @ logBytes (take d its)"

lemma logBytes_take_drop: "logBytes its = logBytes (take d its) @ logBytes (drop d its)"
  by (metis append_take_drop_id concat_append map_append)

lemma wholeItems_ge:
  "d \<le> length its \<Longrightarrow> length (logBytes (take d its)) \<le> n \<Longrightarrow> d \<le> wholeItems n its"
proof (induction its arbitrary: d n)
  case Nil
  then show ?case by simp
next
  case (Cons it its)
  show ?case
  proof (cases d)
    case 0
    then show ?thesis by simp
  next
    case (Suc e)
    with Cons.prems have "length (itemBytes it) \<le> n" "length (logBytes (take e its)) \<le> n - length (itemBytes it)"
      by simp_all
    with Cons.IH [of e "n - length (itemBytes it)"] Cons.prems(1) Suc show ?thesis by simp
  qed
qed

lemma log_durable_dur_items:
  assumes "file_inv db hdr its ops" "log_durable db"
  shows "dur_items db hdr its (length its)"
  using assms by (auto simp: dur_items_def log_durable_def file_inv_def)

text \<open>
  A crash leaves the header and a prefix of the items, plus possibly one item whose append
  failed; the durable items are in it.
\<close>

lemma crash_shape:
  assumes inv: "file_inv db hdr its ops" and cr: "crash_bytes (the_file db) bs" and len: "length hdr \<le> length bs"
  shows "\<exists>it ops' n. item_ok it \<and>
    denotes (db_cipher db) (db_keyCodec db) (db_valCodec db) (logRecs (its @ [it])) (ops @ ops') \<and>
    bs = hdr @ take n (logBytes (its @ [it])) \<and> n \<le> length (logBytes (its @ [it])) \<and>
    (db_writeErr db = None \<longrightarrow> n \<le> length (logBytes its)) \<and>
    (\<forall>d. dur_items db hdr its d \<longrightarrow> d \<le> wholeItems n (its @ [it]))"
proof -
  from inv obtain tail where tail: "lf_content (the_file db) = hdr @ logBytes its @ tail"
      "torn_item (db_cipher db) (db_keyCodec db) (db_valCodec db) tail" "db_writeErr db = None \<longrightarrow> tail = []"
    by (auto simp: file_inv_def)
  from tail(2) obtain it k ops' where it: "item_ok it"
      "denotes (db_cipher db) (db_keyCodec db) (db_valCodec db) (itemRecs it) ops'" "tail = take k (itemBytes it)"
    by (auto simp: torn_item_def)
  from cr obtain N where N: "bs = take N (lf_content (the_file db))" and
      syn: "\<And>m. m \<le> length (lf_synced (the_file db)) \<Longrightarrow>
        take m (lf_synced (the_file db)) = take m (lf_content (the_file db)) \<Longrightarrow> m \<le> N"
    by (auto simp: crash_bytes_def)
  let ?M = "min N (length (lf_content (the_file db)))"
  let ?n = "?M - length hdr"
  have M: "length hdr \<le> ?M" using len N by (simp add: min.commute)
  have bs: "bs = hdr @ take ?n (logBytes its @ tail)"
    using N tail(1) M by (simp add: min_def)
  have lt: "length (lf_content (the_file db)) = length hdr + length (logBytes its) + length tail"
    using tail(1) by simp
  have pre: "take ?n (logBytes its @ tail) = take ?n (logBytes (its @ [it]))"
  proof -
    have eq: "logBytes its @ tail = take (length (logBytes its) + length tail) (logBytes (its @ [it]))"
      using it(3) by (simp add: min_def)
    have le: "?n \<le> length (logBytes its) + length tail" using lt by simp
    show ?thesis unfolding eq by (simp only: take_take min_absorb1 [OF le])
  qed
  have nle: "?n \<le> length (logBytes (its @ [it]))" using lt it(3) by simp
  have werr: "db_writeErr db = None \<longrightarrow> ?n \<le> length (logBytes its)" using lt tail(3) by auto
  have dur: "d \<le> wholeItems ?n (its @ [it])" if d: "dur_items db hdr its d" for d
  proof -
    let ?m = "length (hdr @ logBytes (take d its))"
    have dl: "d \<le> length its" and tm: "take ?m (lf_synced (the_file db)) = hdr @ logBytes (take d its)"
      using d by (simp_all add: dur_items_def)
    have "lf_content (the_file db) = (hdr @ logBytes (take d its)) @ logBytes (drop d its) @ tail"
      using tail(1) logBytes_take_drop [of its d] by simp
    then have c: "take ?m (lf_content (the_file db)) = hdr @ logBytes (take d its)"
        "?m \<le> length (lf_content (the_file db))" by (simp_all only: append_eq_conv_conj [symmetric] length_append; simp)+
    have "?m \<le> length (lf_synced (the_file db))" using arg_cong [OF tm, of length] by simp
    from syn [OF this] tm c(1) have "?m \<le> N" by simp
    with c(2) have "length (logBytes (take d its)) \<le> ?n" by simp
    with dl show ?thesis by (intro wholeItems_ge) simp_all
  qed
  have "denotes (db_cipher db) (db_keyCodec db) (db_valCodec db) (logRecs (its @ [it])) (ops @ ops')"
    using inv it(2) by (simp add: file_inv_def denotes_append)
  then show ?thesis using it(1) bs pre nle werr dur by metis
qed

text \<open>A file as a fresh process finds it after a crash.\<close>

definition crashed_fs :: "string \<Rightarrow> bytes \<Rightarrow> fsys \<Rightarrow> bool" where
  "crashed_fs path bs fs \<longleftrightarrow> fs_wf fs \<and> (\<exists>h. fs_cur fs path = Some h \<and> lf_content (fs_inode fs h) = bs)"

lemma openedFile_crashed: "crashed_fs path bs fs \<Longrightarrow> lf_content (openedFile path fs) = bs"
  by (auto simp: crashed_fs_def openedFile_def)

lemma wholeItems_snoc:
  "n \<le> length (logBytes its) \<Longrightarrow> take (wholeItems n (its @ [it])) (its @ [it]) = take (wholeItems n its) its"
proof (induction its arbitrary: n)
  case Nil
  then show ?case using itemBytes_nonempty [of it] by (cases "itemBytes it") auto
next
  case (Cons x its)
  then show ?case by auto
qed

context wal_db
begin

text \<open>
  Recovery after a crash: the operations of the first \<open>j\<close> items, at least all the durable
  ones.
\<close>

lemma crash_recovery:
  assumes inv: "log_inv B vK vV t db hdr its ops" and h: "handle_of wc kc vc db"
    and werr: "db_writeErr db = None"
    and cr: "crash_bytes (the_file db) bs" and len: "length hdr \<le> length bs"
    and fs: "crashed_fs path bs fs" and oc: "openCipher hkdf aesNew (openOptions opts) = Inr wc"
  shows "\<exists>j \<le> length its. (\<forall>d. dur_items db hdr its d \<longrightarrow> d \<le> j) \<and>
    ((\<exists>db' fs' hdr'. openDB B hkdf aesNew io_ok path kc vc opts fs = (Inr db', fs') \<and>
        log_inv B vK vV t db' hdr' (take j its) (take (length (logRecs (take j its))) ops) \<and>
        view B (db_state db') = apOps (take (length (logRecs (take j its))) ops) Map.empty \<and>
        handle_of wc kc vc db' \<and> \<not> db_writerMu db' \<and> canWrite db' = None \<and> db_path db' = path) \<or>
     (\<exists>fs' f m p. openDB B hkdf aesNew io_ok path kc vc opts fs = (Inl ErrCorrupt, fs') \<and>
        \<not> o_truncateAtCorrupt (openOptions opts) \<and> m < length (frame f) \<and> frame_ok f \<and> 0 < m \<and>
        length (hdr @ logBytes (take j its)) \<le> p \<and> drop p bs = take m (frame f) \<and>
        scanForRecord (take m (frame f)) \<noteq> None))"
proof -
  have m: "db_cipher db = wc" "db_keyCodec db = kc" "db_valCodec db = vc" using h by (simp_all add: handle_of_def)
  have finv: "file_inv db hdr its ops" using inv by (simp add: log_inv_def)
  from crash_shape [OF finv cr len] obtain it ops' n where
    it: "item_ok it" "bs = hdr @ take n (logBytes (its @ [it]))" "n \<le> length (logBytes its)"
      "\<And>d. dur_items db hdr its d \<Longrightarrow> d \<le> wholeItems n (its @ [it])"
    using werr by blast
  have wh: "take (wholeItems n (its @ [it])) (its @ [it]) = take (wholeItems n its) its"
    by (rule wholeItems_snoc [OF it(3)])
  have "wholeItems n (its @ [it]) \<le> length its"
    using arg_cong [OF wh, of length] wholeItems_le [of n its] wholeItems_le [of n "its @ [it]"] by simp
  then have wn: "wholeItems n (its @ [it]) = wholeItems n its"
    using arg_cong [OF wh, of length] wholeItems_le [of n its] by simp
  have c: "lf_content (openedFile path fs) = hdr @ take n (logBytes its)"
    using openedFile_crashed [OF fs] it(2,3) by simp
  have f: "hdr_ok wc hdr" "list_all item_ok its" "denotes wc kc vc (logRecs its) ops"
    using finv by (simp_all add: file_inv_def m)
  have "fs_wf fs" using fs by (simp add: crashed_fs_def)
  note rec = openDB_recovers [OF this oc c f it(3), of t]
  have bs: "drop (length hdr + p) bs = drop p (take n (logBytes its))" for p using it(2,3) by simp
  have j: "wholeItems n its \<le> length its" "\<And>d. dur_items db hdr its d \<Longrightarrow> d \<le> wholeItems n its"
    using it(4) wholeItems_le [of n its] by (simp_all add: wn)
  from rec show ?thesis
  proof (elim disjE exE conjE)
    fix fs' f m p
    assume "openDB B hkdf aesNew io_ok path kc vc opts fs = (Inl ErrCorrupt, fs')"
      "\<not> o_truncateAtCorrupt (openOptions opts)" "m < length (frame f)" "frame_ok f" "0 < m"
      "length (logBytes (take (wholeItems n its) its)) \<le> p"
      "drop p (take n (logBytes its)) = take m (frame f)" "scanForRecord (take m (frame f)) \<noteq> None"
    then show ?thesis using j bs [of p]
      by (intro exI [of _ "wholeItems n its"] conjI disjI2 exI [of _ fs'] exI [of _ f] exI [of _ m]
          exI [of _ "length hdr + p"]) (simp_all del: drop_drop length_frame)
  qed (use j in blast)
qed

text \<open>A log that ends with a whole item is never taken for damaged.\<close>

lemma openDB_whole:
  assumes wf: "fs_wf fs" and oc: "openCipher hkdf aesNew (openOptions opts) = Inr wc"
    and c: "lf_content (openedFile path fs) = hdr @ logBytes its" and hdr: "hdr_ok wc hdr"
    and its: "list_all item_ok its" and ops: "denotes wc kc vc (logRecs its) ops"
  shows "\<exists>db fs' hdr'. openDB B hkdf aesNew io_ok path kc vc opts fs = (Inr db, fs') \<and>
      log_inv B vK vV t db hdr' its ops \<and> view B (db_state db) = apOps ops Map.empty \<and>
      handle_of wc kc vc db \<and> \<not> db_writerMu db \<and> canWrite db = None \<and> db_path db = path"
proof -
  let ?n = "length (logBytes its)"
  have c': "lf_content (openedFile path fs) = hdr @ take ?n (logBytes its)" using c by simp
  have "wholeItems ?n its = length its"
    using wholeItems_ge [of "length its" its ?n] wholeItems_le [of ?n its] by simp
  moreover have "length (logRecs its) = length ops" using denotes_length [OF ops] .
  ultimately show ?thesis
    using openDB_recovers [OF wf oc c' hdr its ops order_refl, of t] by (auto simp del: length_frame)
qed

end

section \<open>Damage past the last record\<close>

lemma fs_closeFile: "lf_content (fs_inode (closeFile env h fs) i) = lf_content (fs_inode fs i)" "fs_cur (closeFile env h fs) = fs_cur fs"
  by (auto simp: closeFile_def lf_close_def fs_upd_def)

context wal_db
begin

text \<open>
  The decision of \<^verbatim>\<open>Open\<close> when nothing readable starts where the last item ends, for a file that
  \<^verbatim>\<open>prepareHeader\<close> accepts as it is.
\<close>

lemma openDB_junk:
  assumes wf: "fs_wf fs" and oc: "openCipher hkdf aesNew (openOptions opts) = Inr wc"
    and c: "lf_content (openedFile path fs) = hdr @ logBytes its @ junk"
    and ph: "prepareHeader io_ok (openedFile path fs) wc = (Inr (length hdr), openedFile path fs)"
    and its: "list_all item_ok its" "denotes wc kc vc (logRecs its) ops"
    and junk: "readRecord \<lparr>rd_bytes = junk, rd_end = None\<rparr> = Inr None"
  shows "\<exists>fs' h. fs_cur fs' path = Some h \<and>
    (if scanForRecord junk \<noteq> None \<and> \<not> o_truncateAtCorrupt (openOptions opts)
     then openDB B hkdf aesNew io_ok path kc vc opts fs = (Inl ErrCorrupt, fs') \<and>
       lf_content (fs_inode fs' h) = hdr @ logBytes its @ junk
     else \<exists>db. openDB B hkdf aesNew io_ok path kc vc opts fs = (Inr db, fs') \<and>
       view B (db_state db) = apOps ops Map.empty \<and> lf_content (fs_inode fs' h) = hdr @ logBytes its)"
proof -
  let ?f = "openedFile path fs" and ?s = "fold (stateOp B) ops (newDBState B)" and ?n = "length (logBytes its)"
  let ?bad = "scanForRecord junk \<noteq> None \<and> \<not> o_truncateAtCorrupt (openOptions opts)"
  have ap: "applyAll (applyRecord B wc kc vc) (newDBState B) (logRecs its) = Inr ?s"
    using its(2) unfolding applyAll_denotes by blast
  have rl: "replayLog \<lparr>rd_bytes = drop (length hdr) (lf_content ?f), rd_end = None\<rparr> (applyRecord B wc kc vc) (newDBState B) =
      (?n, ?n, None, ?s)"
    using replayLoop_items [OF its(1) ap, of junk None 0] replayLoop_stop [OF junk] by (simp add: replayLog_def c)
  from openDB_unfold [OF wf oc, of path B kc vc] obtain h fs1 where fs1: "fs_cur fs1 path = Some h"
    and eq: "openDB B hkdf aesNew io_ok path kc vc opts fs =
      (case openTail io_ok (o_truncateAtCorrupt (openOptions opts)) (?n + length hdr) (?n + length hdr) (?f\<lparr>lf_pos := length hdr\<rparr>) of
         (Some e, f) \<Rightarrow> (Inl e, closeFile io_ok h (fs_upd h f fs1))
       | (None, f) \<Rightarrow> (Inr (newHandle path kc vc wc (openOptions opts) ?s h (fs_upd h f fs1) (?n + length hdr)), fs_upd h f fs1))"
    by (auto simp: openedResult_def ph rl)
  have scan: "scanForRecord junk \<noteq> None \<Longrightarrow> junk \<noteq> []" by (auto simp: scanForRecord_def scanFrom.simps)
  have ot: "openTail io_ok (o_truncateAtCorrupt (openOptions opts)) (?n + length hdr) (?n + length hdr) (?f\<lparr>lf_pos := length hdr\<rparr>) =
      (if ?bad then (Some ErrCorrupt, ?f\<lparr>lf_pos := length hdr\<rparr>)
       else (None, ?f\<lparr>lf_content := hdr @ logBytes its, lf_pos := ?n + length hdr\<rparr>))"
    using scan by (subst openTail_ok) (auto simp: lf_size_def c)
  show ?thesis
  proof (cases ?bad)
    case True
    then show ?thesis unfolding eq ot
      by (intro exI [of _ "closeFile io_ok h (fs_upd h (?f\<lparr>lf_pos := length hdr\<rparr>) fs1)"] exI [of _ h])
        (simp add: fs_closeFile fs1 c)
  next
    case False
    then show ?thesis unfolding eq ot if_not_P [OF False] option.case prod.case using view_ops [OF its(2)]
      by (intro exI [of _ "fs_upd h (?f\<lparr>lf_content := hdr @ logBytes its, lf_pos := ?n + length hdr\<rparr>) fs1"] exI [of _ h])
        (simp add: fs1 newHandle_def)
  qed
qed

end

end
