(* ===== verification/CompactInv.thy ===== *)
theory CompactInv
  imports Compact TxInv Recovery
begin

text \<open>
  What compaction preserves. The snapshot stream writes one set record per live pair, so the
  new log denotes the snapshot up to the entries that had expired; the tail that writers
  appended meanwhile follows unchanged; the swap installs a file that is on stable storage.
\<close>

section \<open>The buffered writer\<close>

text \<open>The bytes a file will hold once the buffer is flushed to it.\<close>

definition pend :: "bytes \<Rightarrow> logfile \<Rightarrow> bytes" where
  "pend buf f = lf_content f @ buf"

definition appendable :: "logfile \<Rightarrow> bool" where
  "appendable f \<longleftrightarrow> \<not> lf_closed f \<and> lf_pos f = length (lf_content f)"

lemma lf_write_appendable:
  assumes "appendable f" "lf_write out bs f = (None, f')"
  shows "appendable f' \<and> lf_content f' = lf_content f @ bs"
  using assms by (auto simp: appendable_def lf_write_def Let_def split: option.splits)

lemma bufDirect_ok:
  assumes "appendable f" "bufDirect out p f = (None, buf', f')"
  shows "appendable f' \<and> pend buf' f' = lf_content f @ p"
  using assms lf_write_appendable [OF assms(1), of out p]
  by (auto simp: bufDirect_def pend_def split: if_splits prod.splits)

lemma bufWrite_ok:
  assumes "appendable f" "bufWrite out p buf f = (None, buf', f')"
  shows "appendable f' \<and> pend buf' f' = pend buf f @ p"
proof -
  let ?a = "bufSize - length buf"
  consider (fits) "length p \<le> ?a" | (empty) "\<not> length p \<le> ?a" "buf = []" | (full) "\<not> length p \<le> ?a" "buf \<noteq> []"
    by blast
  then show ?thesis
  proof cases
    case fits
    with assms show ?thesis by (auto simp: bufWrite_def Let_def pend_def)
  next
    case empty
    with assms bufDirect_ok [of f out p buf' f'] show ?thesis by (simp add: bufWrite_def Let_def pend_def)
  next
    case full
    with assms(2) obtain f1 where w: "lf_write out (buf @ take ?a p) f = (None, f1)"
        and d: "bufDirect out (drop ?a p) f1 = (None, buf', f')"
      by (auto simp: bufWrite_def Let_def split: prod.splits option.splits)
    from lf_write_appendable [OF assms(1) w] have f1: "appendable f1" "lf_content f1 = lf_content f @ buf @ take ?a p"
      by simp_all
    from bufDirect_ok [OF f1(1) d] f1(2) show ?thesis by (simp add: pend_def)
  qed
qed

lemma bufFlush_ok:
  "appendable f \<Longrightarrow> bufFlush out buf f = (None, f') \<Longrightarrow> appendable f' \<and> lf_content f' = pend buf f"
  using lf_write_appendable [of f out buf f'] by (auto simp: bufFlush_def pend_def split: if_splits)

section \<open>The snapshot\<close>

text \<open>The operations of a snapshot: one set per live pair.\<close>

definition snapOps ::
    "('k::linorder, 'v, 'm, 'n, 'e, 'j) trees \<Rightarrow> int \<Rightarrow> ('k, 'v, 'm, 'n, 'e, 'j) dbState
       \<Rightarrow> ('k \<times> 'v) list \<Rightarrow> ('k, 'v) logOp list" where
  "snapOps B now snap kvs =
     map (\<lambda>(k, v). LSet k v (case m_get (ttlOps B) (st_ttl snap) k of None \<Rightarrow> 0 | Some dl \<Rightarrow> dl))
       (filter (\<lambda>p. \<not> expired B (fst p) now snap) kvs)"

lemma apOps_sets:
  "distinct (map fst ps) \<Longrightarrow>
   apOps (map (\<lambda>(k, v). LSet k v (dl k)) ps) m =
   (\<lambda>k. case map_of ps k of None \<Rightarrow> m k | Some v \<Rightarrow> Some (v, dl_opt (dl k)))"
proof (induction ps arbitrary: m)
  case Nil
  then show ?case by simp
next
  case (Cons p ps)
  obtain k v where p: "p = (k, v)" by (cases p)
  with Cons.prems have "map_of ps k = None" by (simp add: map_of_eq_None_iff)
  with Cons p show ?case by (auto simp: fun_eq_iff split: option.splits)
qed

context wal_db
begin

lemma snapOps_view:
  assumes wf: "state_wf B snap"
  shows "agree now (apOps (snapOps B now snap (m_all (dataOps B) (st_data snap))) Map.empty) (view B snap)"
proof -
  let ?ps = "livePairs B now snap"
  let ?dl = "\<lambda>k. case m_get (ttlOps B) (st_ttl snap) k of None \<Rightarrow> 0 | Some dl \<Rightarrow> dl"
  have "distinct (map fst ?ps)" using livePairs_sorted [of now snap] by (simp add: strict_sorted_iff)
  then have ap: "apOps (snapOps B now snap (m_all (dataOps B) (st_data snap))) Map.empty =
      (\<lambda>k. case visible now (view B snap) k of None \<Rightarrow> None | Some v \<Rightarrow> Some (v, dl_opt (?dl k)))"
    using apOps_sets [of ?ps ?dl Map.empty] map_of_livePairs [OF wf, of now]
    by (simp add: snapOps_def livePairs_def)
  have pos: "m_get (ttlOps B) (st_ttl snap) k = Some dl \<Longrightarrow> 0 < dl" for k dl
    using wf by (simp add: state_wf_def)
  show ?thesis unfolding agree_def ap
    by (auto simp: visible_def dead_def view_def dl_opt_def pos split: option.splits if_splits)
qed

lemma length_snapOps:
  assumes "state_wf B snap"
  shows "length (snapOps B now snap (m_all (dataOps B) (st_data snap))) = card (dom (visible now (view B snap)))"
proof -
  have "distinct (map fst (livePairs B now snap))"
    using livePairs_sorted [of now snap] by (simp add: strict_sorted_iff)
  from distinct_card [OF this] have "length (livePairs B now snap) = card (dom (map_of (livePairs B now snap)))"
    by (simp add: dom_map_of_conv_image_fst)
  then show ?thesis by (simp add: map_of_livePairs [OF assms]) (simp add: snapOps_def livePairs_def)
qed

lemma snapLoop_ok:
  assumes inv: "state_wf B snap" "amap_ok vK vV (view B snap)" and h: "handle_of wc kc vc db"
    and app: "appendable f"
    and kvs: "\<And>k v. (k, v) \<in> set kvs \<Longrightarrow> m_get (dataOps B) (st_data snap) k = Some v"
    and fit: "\<And>k v. (k, v) \<in> set kvs \<Longrightarrow> \<not> expired B k now snap \<Longrightarrow> fits wc kc vc k v"
    and run: "snapLoop B wenv rnds now db snap i kvs n buf f = (Inr n', buf', f')"
  shows "\<exists>rs. appendable f' \<and> pend buf' f' = pend buf f @ frames rs \<and> list_all member_ok rs \<and>
    denotes wc kc vc rs (snapOps B now snap kvs) \<and> n' = n + length (frames rs)"
  using app kvs fit run
proof (induction kvs arbitrary: i n buf f)
  case Nil
  then show ?case by (intro exI [of _ "[]"]) (simp add: snapOps_def)
next
  case (Cons p kvs)
  obtain k v where p: "p = (k, v)" by (cases p)
  have m: "db_cipher db = wc" "db_keyCodec db = kc" "db_valCodec db = vc" using h by (simp_all add: handle_of_def)
  have rest: "(a, b) \<in> set kvs \<Longrightarrow> m_get (dataOps B) (st_data snap) a = Some b"
      "(a, b) \<in> set kvs \<Longrightarrow> \<not> expired B a now snap \<Longrightarrow> fits wc kc vc a b" for a b
    using Cons.prems(2,3) [of a b] by simp_all
  show ?case
  proof (cases "expired B k now snap")
    case True
    with Cons.prems(4) p have "snapLoop B wenv rnds now db snap (i + 1) kvs n buf f = (Inr n', buf', f')" by simp
    from Cons.IH [OF Cons.prems(1) rest this] p True show ?thesis by (simp add: snapOps_def)
  next
    case False
    let ?g = "m_get (ttlOps B) (st_ttl snap) k"
    let ?dl = "case ?g of None \<Rightarrow> 0 | Some dl \<Rightarrow> dl"
    have get: "m_get (dataOps B) (st_data snap) k = Some v" and ft: "fits wc kc vc k v"
      using Cons.prems(2,3) [of k v] p False by simp_all
    have vw: "view B snap k = Some (v, ?g)" using get by (simp add: view_def)
    have ok: "vK k" "vV v" "int64_range ?dl" "norm_dl ?dl = ?dl"
      using inv(2) vw unfolding amap_ok_def
      by (auto simp: norm_dl_def int64_range_def split: option.splits)
    obtain kb vb where kb: "Encode kc k = Inr kb" and vb: "Encode vc v = Inr vb"
      using Cons.prems(4) p False by (auto simp: m split: sum.splits)
    obtain op vb' where opn: "(op, vb') = (case ?g of Some dl \<Rightarrow> (opSetTTL, prependDeadline dl vb) | None \<Rightarrow> (opSet, vb))"
      by (metis prod.exhaust)
    have opn': "(op, vb') = (if 0 < ?dl then (opSetTTL, prependDeadline ?dl vb) else (opSet, vb))"
      using opn inv(2) vw unfolding amap_ok_def by (auto split: option.splits)
    obtain rec where ap: "appendSealedRecord [] wc (rnds i) op kb vb' = Inr rec"
      using Cons.prems(4) p False kb vb by (auto simp: m opn [symmetric] split: sum.splits)
    obtain b1 f1 where bw: "bufWrite (wenv i) rec buf f = (None, b1, f1)"
        and run: "snapLoop B wenv rnds now db snap (i + 1) kvs (n + length rec) b1 f1 = (Inr n', buf', f')"
      using Cons.prems(4) p False kb vb ap
      by (auto simp: m opn [symmetric] split: prod.splits option.splits)
    from set_record [OF ok(1-3) ft kb vb opn' ap] ok(4) obtain r where
      r: "rec = frame r" "member_ok r" "recOp wc kc vc r = Inr (LSet k v ?dl)" by auto
    from bufWrite_ok [OF Cons.prems(1) bw] have b1: "appendable f1" "pend b1 f1 = pend buf f @ rec" by simp_all
    from Cons.IH [OF b1(1) rest run] obtain rs where rs: "appendable f'" "pend buf' f' = pend b1 f1 @ frames rs"
        "list_all member_ok rs" "denotes wc kc vc rs (snapOps B now snap kvs)" "n' = n + length rec + length (frames rs)"
      by blast
    have "denotes wc kc vc ([r] @ rs) ([LSet k v ?dl] @ snapOps B now snap kvs)"
      using r(3) rs(4) by (intro denotes_append) simp_all
    then show ?thesis using rs r b1 p False
      by (intro exI [of _ "r # rs"]) (simp add: snapOps_def del: length_frame)
  qed
qed

lemma writeSnapshot_ok:
  assumes "state_wf B snap" "amap_ok vK vV (view B snap)" "handle_of wc kc vc db" "appendable f"
    and "\<And>k v. visible now (view B snap) k = Some v \<Longrightarrow> fits wc kc vc k v"
    and "writeSnapshot B env wenv rnds now db snap f = (Inr n, f')"
  shows "\<exists>rs. appendable f' \<and> lf_content f' = lf_content f @ frames rs \<and> list_all member_ok rs \<and>
    denotes wc kc vc rs (snapOps B now snap (m_all (dataOps B) (st_data snap))) \<and> n = length (frames rs)"
proof -
  let ?kvs = "m_all (dataOps B) (st_data snap)"
  obtain buf1 f1 where l: "snapLoop B wenv rnds now db snap 0 ?kvs 0 [] f = (Inr n, buf1, f1)"
      and fl: "bufFlush (env ''flush snapshot'') buf1 f1 = (None, f')"
    using assms(6) by (auto simp: writeSnapshot_def split: prod.splits sum.splits option.splits)
  have kvs: "(k, v) \<in> set ?kvs \<Longrightarrow> m_get (dataOps B) (st_data snap) k = Some v" for k v
    by (simp add: d.in_all)
  have fit: "(k, v) \<in> set ?kvs \<Longrightarrow> \<not> expired B k now snap \<Longrightarrow> fits wc kc vc k v" for k v
    using in_livePairs [OF assms(1), of k v now] assms(5) [of k v] by (simp add: livePairs_def)
  from snapLoop_ok [OF assms(1-4) kvs fit l] obtain rs where "appendable f1" "pend buf1 f1 = pend [] f @ frames rs"
      "list_all member_ok rs" "denotes wc kc vc rs (snapOps B now snap ?kvs)" "n = length (frames rs)" by auto
  with bufFlush_ok [OF _ fl] show ?thesis by (intro exI [of _ rs]) (simp add: pend_def)
qed

end

section \<open>The phases\<close>

text \<open>The live file is where it was; the temporary file has a name and an inode of its own.\<close>

definition live_kept :: "('k, 'v, 'm, 'n, 'e, 'j) db \<Rightarrow> fsys \<Rightarrow> bool" where
  "live_kept db fs \<longleftrightarrow> fs_wf fs \<and> fs_cur fs (db_path db) = Some (db_file db) \<and>
     fs_inode fs (db_file db) = the_file db"

definition tmp_at :: "string \<Rightarrow> ('k, 'v, 'm, 'n, 'e, 'j) db \<Rightarrow> nat \<Rightarrow> fsys \<Rightarrow> bool" where
  "tmp_at p db tmp fs \<longleftrightarrow> live_kept db fs \<and> fs_cur fs p = Some tmp \<and> tmp \<noteq> db_file db"

abbreviation tmp_open :: "('k, 'v, 'm, 'n, 'e, 'j) db \<Rightarrow> nat \<Rightarrow> fsys \<Rightarrow> bool" where
  "tmp_open db \<equiv> tmp_at (db_path db @ compactSuffix) db"

lemma file_inv_live_kept:
  assumes "file_inv db hdr its ops" "live_kept db fs"
  shows "file_inv (db\<lparr>db_fs := fs\<rparr>) hdr its ops"
  using assms by (auto simp: file_inv_def live_kept_def)

lemma log_inv_live_kept:
  "log_inv B vK vV t db hdr its ops \<Longrightarrow> live_kept db fs \<Longrightarrow> log_inv B vK vV t (db\<lparr>db_fs := fs\<rparr>) hdr its ops"
  by (simp add: log_inv_def file_inv_live_kept)

lemma live_kept_self: "file_inv db hdr its ops \<Longrightarrow> live_kept db (db_fs db)"
  by (simp add: file_inv_def live_kept_def)

lemma tmp_at_upd [simp]: "tmp_at p db tmp fs \<Longrightarrow> tmp_at p db tmp (fs_upd tmp f fs)"
  by (simp add: tmp_at_def live_kept_def)

lemma fs_wf_forget:
  "fs_wf fs \<Longrightarrow> fs_cur fs' = (fs_cur fs)(p := None) \<Longrightarrow> fs_next fs' = fs_next fs \<Longrightarrow> fs_wf fs'"
  by (auto simp: fs_wf_def inj_on_def)

lemma discard_tmp: "tmp_at p db tmp fs \<Longrightarrow> p \<noteq> db_path db \<Longrightarrow> live_kept db (discard env tmp p fs)"
  by (auto simp: tmp_at_def live_kept_def discard_def fsRemove_def closeFile_def
      split: option.splits intro: fs_wf_forget)

lemma discard_kept: "tmp_open db tmp fs \<Longrightarrow> live_kept db (discard env tmp (db_path db @ compactSuffix) fs)"
  by (rule discard_tmp) simp_all

text \<open>The temporary file, new or truncated, is not the file of any other name.\<close>

lemma fsCreate_at:
  assumes live: "live_kept db fs" and run: "fsCreate out p fs = (Inr tmp, fs')" and p: "p \<noteq> db_path db"
  shows "tmp_at p db tmp fs' \<and> appendable (fs_inode fs' tmp) \<and> lf_content (fs_inode fs' tmp) = []"
    and "q \<noteq> p \<Longrightarrow> fs_cur fs' q = fs_cur fs q" "i \<noteq> tmp \<Longrightarrow> fs_inode fs' i = fs_inode fs i"
    and "q \<noteq> p \<Longrightarrow> fs_cur fs q \<noteq> Some tmp"
proof -
  have wf: "fs_wf fs" and cur: "fs_cur fs (db_path db) = Some (db_file db)" "fs_inode fs (db_file db) = the_file db"
    using live by (simp_all add: live_kept_def)
  have lt: "fs_cur fs q = Some i \<Longrightarrow> i < fs_next fs" for q i using wf by (auto simp: fs_wf_def)
  have inj: "fs_cur fs q = Some i \<Longrightarrow> fs_cur fs p = Some i \<Longrightarrow> q = p" for q i
    using wf unfolding fs_wf_def by (metis domI inj_onD)
  have "(tmp_at p db tmp fs' \<and> appendable (fs_inode fs' tmp) \<and> lf_content (fs_inode fs' tmp) = []) \<and>
    (q \<noteq> p \<longrightarrow> fs_cur fs' q = fs_cur fs q \<and> fs_cur fs q \<noteq> Some tmp) \<and>
    (i \<noteq> tmp \<longrightarrow> fs_inode fs' i = fs_inode fs i)" for q i
  proof (cases "fs_cur fs p")
    case None
    with run have "tmp = fs_next fs" and fs': "fs' = fs\<lparr>fs_inode := (fs_inode fs)(fs_next fs := emptyFile),
        fs_cur := (fs_cur fs)(p \<mapsto> fs_next fs), fs_next := Suc (fs_next fs)\<rparr>"
      by (auto simp: fsCreate_def fs_new_def Let_def split: option.splits)
    with fs_wf_fresh [OF wf None, of emptyFile] cur lt [OF cur(1)] lt [of q] p show ?thesis
      by (auto simp: tmp_at_def live_kept_def appendable_def emptyFile_def)
  next
    case (Some k)
    with inj cur(1) p have "k \<noteq> db_file db" by metis
    moreover have "q \<noteq> p \<Longrightarrow> fs_cur fs q \<noteq> Some k" using inj Some by metis
    ultimately show ?thesis using run Some cur wf
      by (auto simp: fsCreate_def tmp_at_def live_kept_def appendable_def split: option.splits)
  qed
  then show "tmp_at p db tmp fs' \<and> appendable (fs_inode fs' tmp) \<and> lf_content (fs_inode fs' tmp) = []"
    "q \<noteq> p \<Longrightarrow> fs_cur fs' q = fs_cur fs q" "i \<noteq> tmp \<Longrightarrow> fs_inode fs' i = fs_inode fs i"
    "q \<noteq> p \<Longrightarrow> fs_cur fs q \<noteq> Some tmp" by blast+
qed

lemma fsCreate_tmp:
  assumes "live_kept db fs" "fsCreate out (db_path db @ compactSuffix) fs = (Inr tmp, fs')"
  shows "tmp_open db tmp fs' \<and> appendable (fs_inode fs' tmp) \<and> lf_content (fs_inode fs' tmp) = []"
  by (rule fsCreate_at(1) [OF assms]) simp

lemma fsCreate_err: "fsCreate out p fs = (Inl e, fs') \<Longrightarrow> fs' = fs"
  by (auto simp: fsCreate_def Let_def split: option.splits prod.splits)

lemma Single_comp [simp]: "itemBytes \<circ> Single = frame" "itemRecs \<circ> Single = (\<lambda>r. [r])" "item_ok \<circ> Single = member_ok"
  by (simp_all add: fun_eq_iff)

lemma logBytes_singles [simp]: "logBytes (map Single rs) = frames rs" "logRecs (map Single rs) = rs"
  "list_all item_ok (map Single rs) = list_all member_ok rs"
  by (induction rs) auto

text \<open>What the stream hands to the second critical section.\<close>

definition snapshot_file ::
    "('k::linorder, 'v, 'm, 'n, 'e, 'j) trees \<Rightarrow> int \<Rightarrow> ('k, 'v, 'm, 'n, 'e, 'j) dbState
       \<Rightarrow> ('k, 'v, 'm, 'n, 'e, 'j) db \<Rightarrow> nat \<Rightarrow> nat \<Rightarrow> walRecord list \<Rightarrow> bool" where
  "snapshot_file B now snap db tmp n rs \<longleftrightarrow>
     tmp_open db tmp (db_fs db) \<and> appendable (fs_inode (db_fs db) tmp) \<and>
     lf_content (fs_inode (db_fs db) tmp) = headerFor (db_cipher db) @ frames rs \<and> n = length (frames rs) \<and>
     list_all member_ok rs \<and>
     denotes (db_cipher db) (db_keyCodec db) (db_valCodec db) rs (snapOps B now snap (m_all (dataOps B) (st_data snap)))"

context wal_db
begin

lemma compactStream_cases:
  assumes inv: "file_inv db hdr its ops" and h: "handle_of wc kc vc db"
    and snap: "state_wf B snap" "amap_ok vK vV (view B snap)"
    and fit: "\<And>k v. visible now (view B snap) k = Some v \<Longrightarrow> fits wc kc vc k v"
    and run: "compactStream B env wenv rnds now snap db = (res, db')"
  shows "(\<exists>fs. db' = db\<lparr>db_fs := fs\<rparr> \<and> live_kept db fs) \<and>
    (\<forall>tmp n. res = Inr (tmp, n) \<longrightarrow> (\<exists>rs. snapshot_file B now snap db' tmp n rs))"
proof -
  let ?p = "db_path db @ compactSuffix"
  have m: "db_cipher db = wc" "db_keyCodec db = kc" "db_valCodec db = vc" using h by (simp_all add: handle_of_def)
  have live: "live_kept db (db_fs db)" by (rule live_kept_self [OF inv])
  show ?thesis
  proof (cases "fsCreate (env ''create temp'') ?p (db_fs db)")
    case (Pair r fs)
    show ?thesis
    proof (cases r)
      case (Inl e)
      with Pair run fsCreate_err [of "env ''create temp''" ?p "db_fs db" e fs] live
      show ?thesis by (auto simp: compactStream_def intro!: exI [of _ "db_fs db"])
    next
      case (Inr tmp)
      from fsCreate_tmp [OF live Pair [unfolded Inr]] have
        t: "tmp_open db tmp fs" "appendable (fs_inode fs tmp)" "lf_content (fs_inode fs tmp) = []" by simp_all
      have dk: "live_kept db (discard env tmp ?p (fs_upd tmp f fs))" for f
        by (rule discard_kept) (simp add: t(1))
      obtain wr f1 where w: "lf_write (env ''write compacted log header'') (headerFor wc) (fs_inode fs tmp) = (wr, f1)"
        by (metis prod.exhaust)
      show ?thesis
      proof (cases wr)
        case (Some e)
        with run Pair Inr w dk [of f1] show ?thesis by (auto simp: compactStream_def m)
      next
        case None
        from lf_write_appendable [OF t(2) w [unfolded None]] t(3)
        have f1: "appendable f1" "lf_content f1 = headerFor wc" by simp_all
        obtain sr f2 where ws: "writeSnapshot B env wenv rnds now db snap f1 = (sr, f2)" by (metis prod.exhaust)
        show ?thesis
        proof (cases sr)
          case (Inl e)
          with run Pair Inr w None ws dk [of f2] show ?thesis by (auto simp: compactStream_def m)
        next
          case sn: (Inr n)
          from writeSnapshot_ok [OF snap h f1(1) fit ws [unfolded sn]] obtain rs where
            rs: "appendable f2" "lf_content f2 = lf_content f1 @ frames rs" "list_all member_ok rs"
              "denotes wc kc vc rs (snapOps B now snap (m_all (dataOps B) (st_data snap)))" "n = length (frames rs)"
            by blast
          have db': "res = Inr (tmp, n)" "db' = db\<lparr>db_fs := fs_upd tmp f2 fs\<rparr>"
            using run Pair Inr w None ws sn by (simp_all add: compactStream_def m)
          have to: "tmp_open db tmp (fs_upd tmp f2 fs)" using t(1) by simp
          then have "tmp_open db' tmp (fs_upd tmp f2 fs)" by (auto simp: db' tmp_at_def live_kept_def)
          then have "snapshot_file B now snap db' tmp n rs"
            using rs f1(2) unfolding snapshot_file_def by (simp add: db'(2) m)
          moreover have "live_kept db (fs_upd tmp f2 fs)" using to by (simp add: tmp_at_def)
          ultimately show ?thesis using db' by blast
        qed
      qed
    qed
  qed
qed

end

lemma fs_wf_rename:
  assumes "fs_wf fs" "fs_cur fs old = Some i" "fs_cur fs' = (fs_cur fs)(old := None, new := Some i)"
    and "fs_next fs' = fs_next fs"
  shows "fs_wf fs'"
proof -
  have inj: "inj_on (fs_cur fs) (dom (fs_cur fs))" and lt: "\<And>p j. fs_cur fs p = Some j \<Longrightarrow> j < fs_next fs"
    using assms(1) by (simp_all add: fs_wf_def)
  have only: "fs_cur fs p = Some i \<Longrightarrow> p = old" for p
    using inj_onD [OF inj, of p old] assms(2) by (simp add: domI)
  have "inj_on (fs_cur fs') (dom (fs_cur fs'))"
  proof (rule inj_onI)
    fix p q assume "p \<in> dom (fs_cur fs')" "q \<in> dom (fs_cur fs')" "fs_cur fs' p = fs_cur fs' q"
    then show "p = q" using only [of p] only [of q] inj_onD [OF inj, of p q]
      by (cases "p = new"; cases "q = new") (auto simp: assms(3) split: if_splits)
  qed
  then show ?thesis using lt assms(2) by (auto simp: fs_wf_def assms(3,4) split: if_splits)
qed

lemma closeFile_sel [simp]:
  "fs_cur (closeFile env h fs) = fs_cur fs" "fs_next (closeFile env h fs) = fs_next fs"
  "fs_dur (closeFile env h fs) = fs_dur fs"
  "i \<noteq> h \<Longrightarrow> fs_inode (closeFile env h fs) i = fs_inode fs i"
  "lf_content (fs_inode (closeFile env h fs) i) = lf_content (fs_inode fs i)"
  by (auto simp: closeFile_def lf_close_def fs_upd_def)

lemma fsSyncDir_sel [simp]:
  "fs_cur (fsSyncDir out p fs) = fs_cur fs" "fs_next (fsSyncDir out p fs) = fs_next fs"
  "fs_inode (fsSyncDir out p fs) = fs_inode fs"
  by (auto simp: fsSyncDir_def split: option.splits)

text \<open>What the swap leaves of a handle, apart from the file.\<close>

definition same_config :: "('k, 'v, 'm, 'n, 'e, 'j) db \<Rightarrow> ('k, 'v, 'm, 'n, 'e, 'j) db \<Rightarrow> bool" where
  "same_config db db' \<longleftrightarrow>
     db_path db' = db_path db \<and> db_cipher db' = db_cipher db \<and> db_keyCodec db' = db_keyCodec db \<and>
     db_valCodec db' = db_valCodec db \<and> db_policy db' = db_policy db \<and> db_writerMu db' = db_writerMu db \<and>
     db_closed db' = db_closed db \<and> gs_err (db_gsync db') = gs_err (db_gsync db)"

text \<open>The copy of the log tail, when there is one, completes the temporary file.\<close>

lemma tail_copied:
  assumes inv: "file_inv db hdr (its @ its') ops" and we: "db_writeErr db = None"
    and t: "appendable f" "lf_content f = headerFor wc @ frames rs"
    and run: "(if 0 < db_walSize db - length (hdr @ logBytes its)
      then lf_write out (lf_section (the_file db) (length (hdr @ logBytes its)) (db_walSize db - length (hdr @ logBytes its))) f
      else (None, f)) = (None, f1)"
  shows "appendable f1" "lf_content f1 = headerFor wc @ frames rs @ logBytes its'"
    "db_walSize db - length (hdr @ logBytes its) = length (logBytes its')"
proof -
  let ?n = "db_walSize db - length (hdr @ logBytes its)"
  have cont: "lf_content (the_file db) = hdr @ logBytes its @ logBytes its'"
      "db_walSize db = length hdr + length (logBytes its) + length (logBytes its')"
    using inv we by (auto simp: file_inv_def)
  then show tl: "?n = length (logBytes its')" by simp
  have sec: "lf_section (the_file db) (length (hdr @ logBytes its)) ?n = logBytes its'"
    by (simp add: lf_section_def cont tl)
  have "appendable f1 \<and> lf_content f1 = headerFor wc @ frames rs @ logBytes its'"
  proof (cases "0 < ?n")
    case True
    with run have "lf_write out (logBytes its') f = (None, f1)" by (simp only: sec if_P)
    from lf_write_appendable [OF t(1) this] t(2) show ?thesis by simp
  next
    case False
    then have "logBytes its' = []" "f1 = f" using tl run by simp_all
    then show ?thesis using t by simp
  qed
  then show "appendable f1" "lf_content f1 = headerFor wc @ frames rs @ logBytes its'" by simp_all
qed

text \<open>What the swap of a complete and synced file leaves.\<close>

lemma swapped_in:
  fixes db :: "('k::linorder, 'v, 'm, 'n, 'e, 'j) db"
  defines "p \<equiv> db_path db @ compactSuffix"
  assumes inv: "file_inv db hdr (its @ its') (ops @ ops')" and lo: "length ops = length (logRecs its)"
    and sf: "snapshot_file B now snap db tmp n rs" and nc: "\<not> db_closed db" "db_writeErr db = None"
    and f1: "appendable f1" "lf_content f1 = headerFor (db_cipher db) @ frames rs @ logBytes its'"
    and sz: "sz = length (headerFor (db_cipher db)) + n + length (logBytes its')"
    and fs: "fs = closeFile env (db_file db) (fsSyncDir out (db_path db)
      ((fs_upd tmp (f1\<lparr>lf_synced := lf_content f1\<rparr>) (db_fs db))\<lparr>fs_cur := (fs_cur (db_fs db))(p := None, db_path db := Some tmp)\<rparr>))"
    and db': "db' = markDurable (db\<lparr>db_fs := fs, db_file := tmp, db_walSize := sz, db_baseSize := sz,
      db_fileEpoch := db_fileEpoch db + 1\<rparr>)"
  shows "log_durable db'" "file_inv db' (headerFor (db_cipher db)) (map Single rs @ its')
      (snapOps B now snap (m_all (dataOps B) (st_data snap)) @ ops')"
    "lf_content (fs_inode (db_fs db') (db_file db)) = lf_content (the_file db)"
proof -
  have to: "tmp_open db tmp (db_fs db)" "n = length (frames rs)" "list_all member_ok rs"
      "denotes (db_cipher db) (db_keyCodec db) (db_valCodec db) rs (snapOps B now snap (m_all (dataOps B) (st_data snap)))"
    using sf by (simp_all add: snapshot_file_def)
  have cur: "fs_cur (db_fs db) p = Some tmp" "tmp \<noteq> db_file db" "fs_wf (db_fs db)"
    using to(1) by (simp_all add: tmp_at_def live_kept_def p_def)
  have wf: "fs_wf fs" unfolding fs by (rule fs_wf_rename [OF cur(3,1)]) simp_all
  have ino: "fs_inode fs tmp = f1\<lparr>lf_synced := lf_content f1\<rparr>" unfolding fs using cur(2) by simp
  have cp: "fs_cur fs (db_path db) = Some tmp" unfolding fs by (simp add: p_def)
  have sz': "sz = length (headerFor (db_cipher db) @ logBytes (map Single rs @ its'))" using to(2) sz by simp
  have gs: "gs_synced (db_gsync db) \<le> db_appendSeq db" using inv by (simp add: file_inv_def)
  have den: "denotes (db_cipher db) (db_keyCodec db) (db_valCodec db) (logRecs its') ops'"
    using inv lo by (simp add: file_inv_def denotes_split)
  show "file_inv db' (headerFor (db_cipher db)) (map Single rs @ its')
      (snapOps B now snap (m_all (dataOps B) (st_data snap)) @ ops')"
    unfolding file_inv_def db' using inv to(3,4) den f1 ino wf sz' nc gs cp
    by (simp add: markDurable_def hdr_ok_def file_inv_def denotes_append appendable_def)
  show "log_durable db'" using f1(2) ino sz' by (simp add: db' log_durable_def markDurable_def)
  show "lf_content (fs_inode (db_fs db') (db_file db)) = lf_content (the_file db)"
    using cur(2) by (simp add: db' markDurable_def fs)
qed

text \<open>
  Phase B under the lock: \<open>its'\<close> and \<open>ops'\<close> are what writers appended since phase A. Either
  the old log stays in place, or the swap makes a durable file of the snapshot and the tail
  the log; the old inode keeps its bytes.
\<close>

lemma compactFinish_cases:
  assumes inv: "file_inv db hdr (its @ its') (ops @ ops')" and lo: "length ops = length (logRecs its)"
    and sf: "snapshot_file B now snap db tmp n rs"
    and run: "compactFinish env tmp n (length (hdr @ logBytes its)) db = (r, db')"
  shows "r \<noteq> None \<and> (\<exists>fs. db' = db\<lparr>db_fs := fs\<rparr> \<and> live_kept db fs) \<or>
    r = None \<and> db_writeErr db = None \<and> log_durable db' \<and> db_state db' = db_state db \<and>
    file_inv db' (headerFor (db_cipher db)) (map Single rs @ its')
      (snapOps B now snap (m_all (dataOps B) (st_data snap)) @ ops') \<and>
    db_fileEpoch db' = db_fileEpoch db + 1 \<and> db_file db' = tmp \<and>
    lf_content (fs_inode (db_fs db') (db_file db)) = lf_content (the_file db) \<and>
    same_config db db' \<and> db_writeErr db' = None"
proof (cases "db_closed db \<or> db_writeErr db \<noteq> None")
  case True
  let ?p = "db_path db @ compactSuffix"
  have "r \<noteq> None \<and> db' = db\<lparr>db_fs := discard env tmp ?p (db_fs db)\<rparr>"
    using run True by (cases "db_closed db"; cases "db_writeErr db") (auto simp: compactFinish_def)
  then show ?thesis using discard_kept [of db tmp "db_fs db"] sf by (auto simp: snapshot_file_def)
next
  case False
  let ?p = "db_path db @ compactSuffix" and ?t = "fs_inode (db_fs db) tmp"
  have nc: "\<not> db_closed db" "db_writeErr db = None" using False by simp_all
  have to: "tmp_open db tmp (db_fs db)" "appendable ?t" "lf_content ?t = headerFor (db_cipher db) @ frames rs"
    using sf by (simp_all add: snapshot_file_def)
  have failU: ?thesis if "r \<noteq> None \<and> db' = db\<lparr>db_fs := discard env tmp ?p (fs_upd tmp f (db_fs db))\<rparr>" for f
    using that discard_kept [OF tmp_at_upd [OF to(1)]] by blast
  let ?tail = "db_walSize db - length (hdr @ logBytes its)"
  obtain wr f1 where w: "(if 0 < ?tail then lf_write (env ''copy log tail'')
        (lf_section (the_file db) (length (hdr @ logBytes its)) ?tail) ?t else (None, ?t)) = (wr, f1)"
    by (metis prod.exhaust)
  note un = compactFinish_def Let_def if_not_P [OF nc(1)] nc(2) option.case w prod.case
  let ?f2 = "f1\<lparr>lf_synced := lf_content f1\<rparr>"
  consider (copy) e where "wr = Some e"
    | (sync) e where "wr = None" "lf_sync (env ''sync compacted log'') f1 = (Some e, f1)"
    | (rename) en where "wr = None" "lf_sync (env ''sync compacted log'') f1 = (None, ?f2)" "env ''swap compacted log'' = Some en"
    | (swap) "wr = None" "lf_sync (env ''sync compacted log'') f1 = (None, ?f2)" "env ''swap compacted log'' = None"
    using lf_sync_cases [of "env ''sync compacted log''" f1] by (cases wr; cases "env ''swap compacted log''") auto
  then show ?thesis
  proof cases
    case (copy e)
    then have "r \<noteq> None \<and> db' = db\<lparr>db_fs := discard env tmp ?p (fs_upd tmp f1 (db_fs db))\<rparr>"
      using run unfolding un by (auto split: if_splits)
    then show ?thesis by (rule failU)
  next
    case (sync e)
    then have "r \<noteq> None \<and> db' = db\<lparr>db_fs := discard env tmp ?p (fs_upd tmp f1 (db_fs db))\<rparr>"
      using run unfolding un sync by auto
    then show ?thesis by (rule failU)
  next
    case (rename en)
    then have "r \<noteq> None \<and> db' = db\<lparr>db_fs := discard env tmp ?p (fs_upd tmp ?f2 (db_fs db))\<rparr>"
      using run unfolding un rename(1,2) by (cases en) (auto simp: fsRename_def)
    then show ?thesis by (rule failU)
  next
    case swap
    have cur: "fs_cur (db_fs db) ?p = Some tmp" using to(1) by (simp add: tmp_at_def)
    let ?fs = "closeFile env (db_file db) (fsSyncDir (env ''sync dir'') (db_path db)
        ((fs_upd tmp ?f2 (db_fs db))\<lparr>fs_cur := (fs_cur (db_fs db))(?p := None, db_path db := Some tmp)\<rparr>))"
    let ?sz = "length (headerFor (db_cipher db)) + n + length (logBytes its')"
    note f1 = tail_copied [OF inv nc(2) to(2,3) w [unfolded swap(1)]]
    have db': "db' = markDurable (db\<lparr>db_fs := ?fs, db_file := tmp, db_walSize := ?sz, db_baseSize := ?sz,
        db_fileEpoch := db_fileEpoch db + 1\<rparr>)" and r: "r = None"
      using run unfolding un swap(1,2) unfolding f1(3) by (auto simp: fsRename_def swap(3) cur)
    from swapped_in [OF inv lo sf nc f1(1,2) refl refl db'] show ?thesis
      using r nc by (simp add: db' markDurable_def same_config_def)
  qed
qed

section \<open>A whole compaction\<close>

lemma compactStart_Inr:
  "compactStart B db = Inr (snap, off) \<Longrightarrow>
     snap = stateCopy B (db_state db) \<and> off = db_walSize db \<and> canWrite db = None"
  by (auto simp: compactStart_def canWrite_def split: if_splits option.splits)

text \<open>
  Others ran between the critical sections: they touched the log file alone, may have taken
  or returned the writer lock, and may have closed the handle.
\<close>

definition writers_ran :: "('k, 'v, 'm, 'n, 'e, 'j) db \<Rightarrow> ('k, 'v, 'm, 'n, 'e, 'j) db \<Rightarrow> bool" where
  "writers_ran db db' \<longleftrightarrow> same_handle (db\<lparr>db_writerMu := db_writerMu db', db_closed := db_closed db'\<rparr>) db'"

lemma writers_ran_refl [simp]: "writers_ran db db"
  by (simp add: writers_ran_def same_handle_def)

lemma writers_ran_trans: "writers_ran db db1 \<Longrightarrow> writers_ran db1 db2 \<Longrightarrow> writers_ran db db2"
  by (auto simp: writers_ran_def same_handle_def)

lemma same_handle_writers: "same_handle db db' \<Longrightarrow> writers_ran db db'"
  by (simp add: writers_ran_def same_handle_def)

lemma snapshot_file_writers:
  assumes sf: "snapshot_file B now snap db tmp n rs" and w: "writers_ran db db'" and inv: "file_inv db' hdr its ops"
  shows "snapshot_file B now snap db' tmp n rs"
proof -
  have "live_kept db' (db_fs db')" by (rule live_kept_self [OF inv])
  then show ?thesis using sf w
    by (auto simp: snapshot_file_def writers_ran_def same_handle_def tmp_at_def)
qed

text \<open>
  The snapshot \<open>snap\<close> is the state that the first \<open>off\<close> bytes of the log give; \<open>its'\<close> and \<open>ops'\<close>
  have been appended since.
\<close>

definition tail_since ::
    "('k::linorder, 'v, 'm, 'n, 'e, 'j) trees \<Rightarrow> ('k \<Rightarrow> bool) \<Rightarrow> ('v \<Rightarrow> bool) \<Rightarrow> int
       \<Rightarrow> ('k, 'v, 'm, 'n, 'e, 'j) dbState \<Rightarrow> nat \<Rightarrow> ('k, 'v, 'm, 'n, 'e, 'j) db \<Rightarrow> bytes
       \<Rightarrow> logItem list \<Rightarrow> logItem list \<Rightarrow> ('k, 'v) logOp list \<Rightarrow> ('k, 'v) logOp list \<Rightarrow> bool" where
  "tail_since B vK vV t snap off db hdr its its' ops ops' \<longleftrightarrow>
     log_inv B vK vV t db hdr (its @ its') (ops @ ops') \<and> length ops = length (logRecs its) \<and>
     off = length (hdr @ logBytes its) \<and> state_wf B snap \<and> amap_ok vK vV (view B snap) \<and>
     agree t (view B snap) (apOps ops Map.empty)"

context wal_db
begin

lemma compactStart_tail:
  assumes inv: "log_inv B vK vV t db hdr its ops" and st: "compactStart B db = Inr (snap, off)"
  shows "tail_since B vK vV t snap off db hdr its [] ops [] \<and> view B snap = view B (db_state db)"
  using inv compactStart_Inr [OF st]
  by (auto simp: tail_since_def log_inv_def state_inv_def file_inv_def state_wf_copy view_copy dest: denotes_length)

text \<open>Phase B, whatever was appended since phase A.\<close>

lemma compactFinish_inv:
  assumes ts: "tail_since B vK vV t snap off db hdr its its' ops ops'" and h: "handle_of wc kc vc db"
    and sf: "snapshot_file B now snap db tmp n rs" and fin: "compactFinish env tmp n off db = (r, db')"
  shows "db_state db' = db_state db \<and>
    (r \<noteq> None \<and> (\<exists>fs. db' = db\<lparr>db_fs := fs\<rparr> \<and> live_kept db fs) \<or>
     r = None \<and> log_durable db' \<and> same_config db db' \<and> db_writeErr db = None \<and> db_writeErr db' = None \<and>
     db_fileEpoch db' = db_fileEpoch db + 1 \<and>
     lf_content (fs_inode (db_fs db') (db_file db)) = lf_content (the_file db) \<and>
     (\<exists>its1 ops1. length its1 = card (dom (visible now (view B snap))) \<and>
        log_inv B vK vV (max t now) db' (headerFor wc) (its1 @ its') (ops1 @ ops')))"
proof -
  have finv: "file_inv db hdr (its @ its') (ops @ ops')" and sinv: "state_inv B vK vV t (db_state db) (ops @ ops')"
    and lo: "length ops = length (logRecs its)" and off: "off = length (hdr @ logBytes its)"
    and snap: "state_wf B snap" "amap_ok vK vV (view B snap)" "agree t (view B snap) (apOps ops Map.empty)"
    using ts by (simp_all add: tail_since_def log_inv_def)
  let ?so = "snapOps B now snap (m_all (dataOps B) (st_data snap))"
  from compactFinish_cases [OF finv lo sf fin [unfolded off]] show ?thesis
  proof (elim disjE conjE)
    assume a: "r = None" "db_writeErr db = None" "log_durable db'" "db_state db' = db_state db"
      "file_inv db' (headerFor (db_cipher db)) (map Single rs @ its') (?so @ ops')"
      "db_fileEpoch db' = db_fileEpoch db + 1"
      "lf_content (fs_inode (db_fs db') (db_file db)) = lf_content (the_file db)"
      "same_config db db'" "db_writeErr db' = None"
    have "agree (max t now) (apOps ops Map.empty) (apOps ?so Map.empty)"
      using agree_trans [OF agree_mono [OF agree_sym [OF snap(3)]] agree_mono [OF agree_sym [OF snapOps_view [OF snap(1)]]]]
      by simp
    note a3 = agree_apOps [OF this, of ops']
    have a4: "agree (max t now) (view B (db_state db)) (apOps (ops @ ops') Map.empty)"
      using sinv by (auto simp: state_inv_def intro: agree_mono [of t])
    have "agree (max t now) (view B (db_state db)) (apOps (?so @ ops') Map.empty)"
      using agree_trans [OF a4 [simplified] a3] by simp
    then have "log_inv B vK vV (max t now) db' (headerFor wc) (map Single rs @ its') (?so @ ops')"
      using a sinv h by (simp add: log_inv_def state_inv_def handle_of_def)
    moreover have "length (map Single rs) = card (dom (visible now (view B snap)))"
      using length_snapOps [OF snap(1), of now] sf by (auto simp: snapshot_file_def dest: denotes_length)
    ultimately show ?thesis using a by blast
  qed auto
qed

lemma compaction:
  assumes inv: "log_inv B vK vV t db0 hdr its ops" and h: "handle_of wc kc vc db0"
    and fit: "\<And>k v. visible now (view B (db_state db0)) k = Some v \<Longrightarrow> fits wc kc vc k v"
    and st: "compactStart B db0 = Inr (snap, off)"
    and stream: "compactStream B env wenv rnds now snap db0 = (Inr (tmp, n), db1)"
    and writers: "writers_ran db1 db2" "log_inv B vK vV t db2 hdr (its @ its') (ops @ ops')"
    and fin: "compactFinish env tmp n off db2 = (r, db3)"
  shows "db_state db3 = db_state db2 \<and>
    (r \<noteq> None \<and> log_inv B vK vV t db3 hdr (its @ its') (ops @ ops') \<and>
       (\<exists>fs. db3 = db2\<lparr>db_fs := fs\<rparr> \<and> live_kept db2 fs) \<or>
     r = None \<and> log_durable db3 \<and> same_config db2 db3 \<and> db_writeErr db3 = None \<and> db_fileEpoch db3 = db_fileEpoch db2 + 1 \<and>
     lf_content (fs_inode (db_fs db3) (db_file db2)) = lf_content (the_file db2) \<and>
     (\<exists>its1 ops1. length its1 = card (dom (visible now (view B (db_state db0)))) \<and>
        log_inv B vK vV (max t now) db3 (headerFor wc) (its1 @ its') (ops1 @ ops')))"
proof -
  note s = compactStart_tail [OF inv st]
  have ts: "tail_since B vK vV t snap off db2 hdr its its' ops ops'" using conjunct1 [OF s] writers(2) by (simp add: tail_since_def)
  have snap: "state_wf B snap" "amap_ok vK vV (view B snap)" using conjunct1 [OF s] by (simp_all add: tail_since_def)
  have finv: "file_inv db0 hdr its ops" using inv by (simp add: log_inv_def)
  from compactStream_cases [OF finv h snap _ stream] fit s obtain fs rs where
    db1: "db1 = db0\<lparr>db_fs := fs\<rparr>" and sf: "snapshot_file B now snap db1 tmp n rs" by auto
  have finv2: "file_inv db2 hdr (its @ its') (ops @ ops')" using writers(2) by (simp add: log_inv_def)
  note sf2 = snapshot_file_writers [OF sf writers(1) finv2]
  have h2: "handle_of wc kc vc db2" using writers(1) db1 h by (simp add: writers_ran_def same_handle_def handle_of_def)
  from compactFinish_inv [OF ts h2 sf2 fin] s log_inv_live_kept [OF writers(2)] show ?thesis by auto
qed

text \<open>With nothing in between, every outcome.\<close>

lemma dbCompact_cases:
  assumes inv: "log_inv B vK vV t db hdr its ops" and h: "handle_of wc kc vc db"
    and fit: "\<And>k v. visible now (view B (db_state db)) k = Some v \<Longrightarrow> fits wc kc vc k v"
    and run: "dbCompact B env wenv rnds now db = (r, db')"
  shows "db_state db' = db_state db \<and>
    (r \<noteq> None \<and> log_inv B vK vV t db' hdr its ops \<and> (\<exists>fs. db' = db\<lparr>db_fs := fs\<rparr> \<and> live_kept db fs) \<or>
     r = None \<and> log_durable db' \<and> same_config db db' \<and> db_writeErr db' = None \<and>
     db_fileEpoch db' = db_fileEpoch db + 1 \<and>
     (\<exists>its1 ops1. log_inv B vK vV (max t now) db' (headerFor wc) its1 ops1))"
proof (cases "compactStart B db")
  case (Inl e)
  with run have "db' = db" "r \<noteq> None" by (auto simp: dbCompact_def)
  then show ?thesis using inv live_kept_self [of db hdr its ops] by (auto simp: log_inv_def intro!: exI [of _ "db_fs db"])
next
  case (Inr p)
  obtain snap off where p: "p = (snap, off)" by (cases p)
  note s = compactStart_Inr [OF Inr [unfolded p]]
  have finv: "file_inv db hdr its ops" and sinv: "state_inv B vK vV t (db_state db) ops"
    using inv by (simp_all add: log_inv_def)
  obtain q db1 where q: "compactStream B env wenv rnds now snap db = (q, db1)" by (metis prod.exhaust)
  have "state_wf B snap" "amap_ok vK vV (view B snap)" "view B snap = view B (db_state db)"
    using s sinv by (simp_all add: state_inv_def state_wf_copy view_copy)
  from compactStream_cases [OF finv h this(1,2) _ q] fit this(3)
  obtain fs where db1: "db1 = db\<lparr>db_fs := fs\<rparr>" "live_kept db fs" by auto
  have inv1: "log_inv B vK vV t db1 hdr its ops" unfolding db1(1) by (rule log_inv_live_kept [OF inv db1(2)])
  show ?thesis
  proof (cases q)
    case (Inl e)
    with run q Inr p inv1 db1 show ?thesis by (auto simp: dbCompact_def)
  next
    case q': (Inr tn)
    obtain tmp n where tn: "tn = (tmp, n)" by (cases tn)
    have fin: "compactFinish env tmp n off db1 = (r, db')" using run q Inr p q' tn by (simp add: dbCompact_def)
    from compaction [OF inv h fit Inr [unfolded p] q [unfolded q' tn] writers_ran_refl _ fin, of "[]" "[]"] inv1 db1
    show ?thesis by (auto simp: same_config_def live_kept_def)
  qed
qed

end

section \<open>Compaction with working I/O\<close>

lemma lf_write_ok: "\<not> lf_closed f \<Longrightarrow> \<exists>f'. lf_write None bs f = (None, f') \<and> \<not> lf_closed f'"
  by (simp add: lf_write_def)

lemma bufDirect_runs: "\<not> lf_closed f \<Longrightarrow> \<exists>buf' f'. bufDirect None p f = (None, buf', f') \<and> \<not> lf_closed f'"
  using lf_write_ok [of f p] by (auto simp: bufDirect_def)

lemma bufWrite_runs: "\<not> lf_closed f \<Longrightarrow> \<exists>buf' f'. bufWrite None p buf f = (None, buf', f') \<and> \<not> lf_closed f'"
  using bufDirect_runs lf_write_ok [of f "buf @ take (bufSize - length buf) p"]
  by (fastforce simp: bufWrite_def Let_def)

lemma sealed_runs: "wc = None \<or> rnd = Inr g \<Longrightarrow> \<exists>bs. appendSealedRecord dst wc rnd opn kb vb = Inr bs"
  by (cases wc) (auto simp: appendSealedRecord_def sealValue_def Let_def)

lemma snapLoop_runs:
  assumes "\<not> lf_closed f" "\<forall>i. db_cipher db = None \<or> (\<exists>g. rnds i = Inr g)"
    and "\<forall>(k, v) \<in> set kvs. (\<exists>kb. Encode (db_keyCodec db) k = Inr kb) \<and> (\<exists>vb. Encode (db_valCodec db) v = Inr vb)"
  shows "\<exists>n' buf' f'. snapLoop B (\<lambda>_. None) rnds now db snap i kvs n buf f = (Inr n', buf', f') \<and> \<not> lf_closed f'"
  using assms(1,3)
proof (induction kvs arbitrary: i n buf f)
  case (Cons kv kvs)
  obtain k v where kv: "kv = (k, v)" by (cases kv)
  obtain kb vb where e: "Encode (db_keyCodec db) k = Inr kb" "Encode (db_valCodec db) v = Inr vb"
    using Cons.prems(2) kv by auto
  have next1: "\<exists>n' buf' f'. snapLoop B (\<lambda>_. None) rnds now db snap i kvs n buf f = (Inr n', buf', f') \<and> \<not> lf_closed f'"
    if "\<not> lf_closed f" for i n buf f using Cons.IH [OF that] Cons.prems(2) by auto
  show ?case
  proof (cases "expired B k now snap")
    case True
    then show ?thesis using next1 [OF Cons.prems(1), of "i + 1" n buf] kv by simp
  next
    case False
    define ov where "ov = (case m_get (ttlOps B) (st_ttl snap) k of
        Some dl \<Rightarrow> (opSetTTL, prependDeadline dl vb) | None \<Rightarrow> (opSet, vb))"
    obtain opn vb' where ov: "ov = (opn, vb')" by (cases ov)
    obtain rec where r: "appendSealedRecord [] (db_cipher db) (rnds i) opn kb vb' = Inr rec"
      using sealed_runs [of "db_cipher db" "rnds i"] assms(2) by blast
    obtain buf1 f1 where b: "bufWrite None rec buf f = (None, buf1, f1)" "\<not> lf_closed f1"
      using bufWrite_runs [OF Cons.prems(1)] by blast
    have "snapLoop B (\<lambda>_. None) rnds now db snap i (kv # kvs) n buf f =
        snapLoop B (\<lambda>_. None) rnds now db snap (i + 1) kvs (n + length rec) buf1 f1"
      using False e r b kv ov by (simp add: ov_def [symmetric])
    then show ?thesis using next1 [OF b(2)] by simp
  qed
qed simp

lemma compactStream_runs:
  assumes "\<forall>i. db_cipher db = None \<or> (\<exists>g. rnds i = Inr g)"
    and "\<forall>(k, v) \<in> set (m_all (dataOps B) (st_data snap)).
      (\<exists>kb. Encode (db_keyCodec db) k = Inr kb) \<and> (\<exists>vb. Encode (db_valCodec db) v = Inr vb)"
  shows "\<exists>tmp n db1. compactStream B io_ok (\<lambda>_. None) rnds now snap db = (Inr (tmp, n), db1)"
proof -
  let ?p = "db_path db @ compactSuffix"
  obtain tmp fs where c: "fsCreate None ?p (db_fs db) = (Inr tmp, fs)" "\<not> lf_closed (fs_inode fs tmp)"
    by (cases "fs_cur (db_fs db) ?p") (simp_all add: fsCreate_def fs_new_def Let_def emptyFile_def)
  obtain f1 where w: "lf_write None (headerFor (db_cipher db)) (fs_inode fs tmp) = (None, f1)" "\<not> lf_closed f1"
    using lf_write_ok [OF c(2)] by blast
  obtain n' buf' f' where s: "snapLoop B (\<lambda>_. None) rnds now db snap 0 (m_all (dataOps B) (st_data snap)) 0 [] f1 = (Inr n', buf', f')"
    "\<not> lf_closed f'" using snapLoop_runs [OF w(2) assms] by blast
  obtain f2 where "bufFlush None buf' f' = (None, f2)" using lf_write_ok [OF s(2)] by (cases "buf' = []") (auto simp: bufFlush_def)
  then show ?thesis using c w s by (simp add: compactStream_def writeSnapshot_def)
qed

lemma compactFinish_runs:
  assumes "canWrite db = None" "\<not> lf_closed (fs_inode (db_fs db) tmp)"
    and env: "env ''copy log tail'' = None" "env ''sync compacted log'' = None" "env ''swap compacted log'' = None"
  shows "\<exists>db'. compactFinish env tmp n off db = (None, db')"
proof -
  have c: "\<not> db_closed db" "db_writeErr db = None" using assms(1) by (auto simp: canWrite_def split: if_splits)
  obtain f where f: "(if 0 < db_walSize db - off then lf_write None
      (lf_section (the_file db) off (db_walSize db - off)) (fs_inode (db_fs db) tmp)
      else (None, fs_inode (db_fs db) tmp)) = (None, f)" "\<not> lf_closed f"
    using lf_write_ok [OF assms(2)] assms(2) by (cases "0 < db_walSize db - off") auto
  show ?thesis unfolding compactFinish_def Let_def env f(1)
    using c f(2) by (simp add: lf_sync_def fsRename_def)
qed

end
