(* ===== verification/Index.thy ===== *)
theory Index
  imports Tx
begin

text \<open>
  Secondary indexes, \<^verbatim>\<open>src/index.go\<close>: creating one over the current data, dropping one,
  listing the names, and the iterators of the database and of a transaction. A nil compare
  function is \<open>None\<close>.
\<close>

section \<open>Registration\<close>

definition dbCreateIndex ::
    "('k::linorder, 'v, 'm, 'n, 'e, 'j) trees \<Rightarrow> string \<Rightarrow> ('k \<Rightarrow> 'v \<Rightarrow> 'k \<Rightarrow> 'v \<Rightarrow> int) option
       \<Rightarrow> ('k, 'v, 'm, 'n, 'e, 'j) db \<Rightarrow> goerr option \<times> ('k, 'v, 'm, 'n, 'e, 'j) db" where
  "dbCreateIndex B name compare db =
     (case compare of
        None \<Rightarrow> (Some (ErrNew ''index name and compare function are required''), db)
      | Some cmp \<Rightarrow>
          if name = '''' then (Some (ErrNew ''index name and compare function are required''), db)
          else if db_closed db then (Some ErrClosed, db)
          else let s = db_state db
               in if map_of (st_idx s) name \<noteq> None then (Some (ErrNew ''index already exists''), db)
                  else let ix = newIndex B name cmp;
                           ix = ix\<lparr>ix_tree := foldl (\<lambda>t (k, v). t_set (idxOps B) t \<lparr>ie_k = k, ie_v = v\<rparr>)
                                                (ix_tree ix) (m_all (dataOps B) (st_data s))\<rparr>
                       in (None, db\<lparr>db_state := s\<lparr>st_idx := st_idx s @ [(name, ix)]\<rparr>\<rparr>))"

definition dbDropIndex ::
    "string \<Rightarrow> ('k, 'v, 'm, 'n, 'e, 'j) db \<Rightarrow> goerr option \<times> ('k, 'v, 'm, 'n, 'e, 'j) db" where
  "dbDropIndex name db =
     (if db_closed db then (Some ErrClosed, db)
      else let s = db_state db
           in if map_of (st_idx s) name = None then (Some (ErrNew ''no such index''), db)
              else (None, db\<lparr>db_state := s\<lparr>st_idx := filter (\<lambda>p. fst p \<noteq> name) (st_idx s)\<rparr>\<rparr>))"

definition dbIndexes :: "('k, 'v, 'm, 'n, 'e, 'j) db \<Rightarrow> string list" where
  "dbIndexes db = sort (map fst (st_idx (db_state db)))"

section \<open>Iteration\<close>

definition iterIndexTree where
  "iterIndexTree B now s ix desc pivoted pk pv yield c =
     (let t = ix_tree ix;
          seq = (if desc \<and> pivoted then t_descend (idxOps B) t \<lparr>ie_k = pk, ie_v = pv\<rparr>
                 else if desc then t_backward (idxOps B) t
                 else if pivoted then t_ascend (idxOps B) t \<lparr>ie_k = pk, ie_v = pv\<rparr>
                 else t_all (idxOps B) t)
      in iterPairs (\<lambda>k. expired B k now s) (map (\<lambda>e. (ie_k e, ie_v e)) seq) yield c)"

definition dbIterIndex where
  "dbIterIndex B now name desc pivoted pk pv db yield c =
     (case map_of (st_idx (db_state db)) name of
        None \<Rightarrow> c
      | Some ix \<Rightarrow> iterIndexTree B now (db_state db) ix desc pivoted pk pv yield c)"

definition txIterIndex where
  "txIterIndex B now name desc pivoted pk pv tx yield c =
     (if tx_done tx then c
      else case map_of (st_idx (tx_state tx)) name of
          None \<Rightarrow> c
        | Some ix \<Rightarrow> iterIndexTree B now (tx_state tx) ix desc pivoted pk pv yield c)"

text \<open>\<open>zk\<close> and \<open>zv\<close> are the zero values of the key and the value type.\<close>

definition dbAscendIndex where
  "dbAscendIndex B now zk zv name db yield c = dbIterIndex B now name False False zk zv db yield c"

definition dbDescendIndex where
  "dbDescendIndex B now zk zv name db yield c = dbIterIndex B now name True False zk zv db yield c"

definition dbAscendIndexFrom where
  "dbAscendIndexFrom B now name pivotKey pivotValue db yield c =
     dbIterIndex B now name False True pivotKey pivotValue db yield c"

definition dbDescendIndexFrom where
  "dbDescendIndexFrom B now name pivotKey pivotValue db yield c =
     dbIterIndex B now name True True pivotKey pivotValue db yield c"

definition txAscendIndex where
  "txAscendIndex B now zk zv name tx yield c = txIterIndex B now name False False zk zv tx yield c"

definition txDescendIndex where
  "txDescendIndex B now zk zv name tx yield c = txIterIndex B now name True False zk zv tx yield c"

definition txAscendIndexFrom where
  "txAscendIndexFrom B now name pivotKey pivotValue tx yield c =
     txIterIndex B now name False True pivotKey pivotValue tx yield c"

definition txDescendIndexFrom where
  "txDescendIndexFrom B now name pivotKey pivotValue tx yield c =
     txIterIndex B now name True True pivotKey pivotValue tx yield c"

section \<open>What an index yields\<close>

definition pairOf :: "('k, 'v) ientry \<Rightarrow> 'k \<times> 'v" where
  "pairOf e = (ie_k e, ie_v e)"

definition entryOf :: "'k \<times> 'v \<Rightarrow> ('k, 'v) ientry" where
  "entryOf p = \<lparr>ie_k = fst p, ie_v = snd p\<rparr>"

lemma entryOf_pairOf [simp]: "entryOf (pairOf e) = e" "pairOf (entryOf p) = p"
  by (simp_all add: entryOf_def pairOf_def)

text \<open>The live pairs in the order of an index.\<close>

definition idxPairs ::
    "('k::linorder, 'v, 'm, 'n, 'e, 'j) trees \<Rightarrow> int \<Rightarrow> ('k, 'v, 'm, 'n, 'e, 'j) dbState
       \<Rightarrow> ('k, 'v, 'j) index \<Rightarrow> ('k \<times> 'v) list" where
  "idxPairs B now s ix =
     filter (\<lambda>p. \<not> expired B (fst p) now s) (map pairOf (t_all (idxOps B) (ix_tree ix)))"

text \<open>How an index orders two pairs.\<close>

definition idxLess ::
    "('k::linorder \<Rightarrow> 'v \<Rightarrow> 'k \<Rightarrow> 'v \<Rightarrow> int) \<Rightarrow> 'k \<times> 'v \<Rightarrow> 'k \<times> 'v \<Rightarrow> bool" where
  "idxLess cmp p q \<longleftrightarrow> cmp (fst p) (snd p) (fst q) (snd q) < 0 \<or>
     cmp (fst p) (snd p) (fst q) (snd q) = 0 \<and> fst p < fst q"

lemma indexCompare_less: "indexCompare cmp (entryOf p) (entryOf q) < 0 \<longleftrightarrow> idxLess cmp p q"
  by (auto simp: indexCompare_def entryOf_def idxLess_def Let_def)

lemma indexCompare_less': "indexCompare cmp e f < 0 \<longleftrightarrow> idxLess cmp (pairOf e) (pairOf f)"
  using indexCompare_less [of cmp "pairOf e" "pairOf f"] by simp

context state_trees
begin

lemma index_wf_at:
  assumes "state_wf B s" "map_of (st_idx s) name = Some ix"
  shows "index_wf B (st_data s) (name, ix)"
  using assms map_of_SomeD [OF assms(2)] by (auto simp: state_wf_def list_all_iff)

lemma idxPairs_set:
  assumes wf: "state_wf B s" and ix: "map_of (st_idx s) name = Some ix" and u: "user_compare (ix_compare ix)"
  shows "(k, v) \<in> set (idxPairs B now s ix) \<longleftrightarrow> visible now (view B s) k = Some v"
proof -
  have "set (t_all (idxOps B) (ix_tree ix)) = {e. m_get (dataOps B) (st_data s) (ie_k e) = Some (ie_v e)}"
    using index_wf_at [OF wf ix] u by (simp add: index_wf_def)
  then have "(k, v) \<in> set (map pairOf (t_all (idxOps B) (ix_tree ix))) \<longleftrightarrow> m_get (dataOps B) (st_data s) k = Some v"
    by (force simp: pairOf_def image_iff intro: exI [of _ "\<lparr>ie_k = k, ie_v = v\<rparr>"])
  then show ?thesis
    using in_livePairs [OF wf, of k v now] by (simp add: idxPairs_def livePairs_def d.in_all)
qed

lemma idxPairs_sorted:
  assumes wf: "state_wf B s" and ix: "map_of (st_idx s) name = Some ix" and u: "user_compare (ix_compare ix)"
  shows "sorted_wrt (idxLess (ix_compare ix)) (idxPairs B now s ix)"
proof -
  have o: "t_order (idxOps B) (ix_tree ix) = indexCompare (ix_compare ix)"
    using index_wf_at [OF wf ix] by (simp add: index_wf_def)
  from i.tall_sorted [of "ix_tree ix"] u have
    "sorted_wrt (\<lambda>e f. indexCompare (ix_compare ix) e f < 0) (t_all (idxOps B) (ix_tree ix))" by (simp add: o)
  then show ?thesis
    by (simp add: idxPairs_def indexCompare_less' sorted_wrt_map sorted_wrt_filter)
qed

text \<open>The four walks, for a consumer that collects.\<close>

lemma iterIndexTree_collect:
  assumes wf: "state_wf B s" and ix: "map_of (st_idx s) name = Some ix" and u: "user_compare (ix_compare ix)"
  shows "iterIndexTree B now s ix False False pk pv collect [] = idxPairs B now s ix"
    "iterIndexTree B now s ix True False pk pv collect [] = rev (idxPairs B now s ix)"
    "iterIndexTree B now s ix False True pk pv collect [] =
       filter (\<lambda>p. \<not> idxLess (ix_compare ix) p (pk, pv)) (idxPairs B now s ix)"
    "iterIndexTree B now s ix True True pk pv collect [] =
       rev (filter (\<lambda>p. \<not> idxLess (ix_compare ix) (pk, pv) p) (idxPairs B now s ix))"
proof -
  let ?t = "ix_tree ix" and ?c = "indexCompare (ix_compare ix)"
  have o: "t_order (idxOps B) ?t = ?c" using index_wf_at [OF wf ix] by (simp add: index_wf_def)
  have c: "comparator ?c" using u by simp
  have run: "iterPairs (\<lambda>k. expired B k now s) xs collect [] = filter (\<lambda>p. \<not> expired B (fst p) now s) xs" for xs
    by (subst iterPairs_filter) (simp add: iterPairs_collect)
  have sym: "?c x y \<le> 0 \<longleftrightarrow> \<not> ?c y x < 0" for x y using c unfolding comparator_def by (metis not_le)
  have pe: "(\<lambda>e. (ie_k e, ie_v e)) = pairOf" by (simp add: fun_eq_iff pairOf_def)
  have piv: "\<lparr>ie_k = pk, ie_v = pv\<rparr> = entryOf (pk, pv)" by (simp add: entryOf_def)
  show "iterIndexTree B now s ix False False pk pv collect [] = idxPairs B now s ix"
    by (simp add: iterIndexTree_def run idxPairs_def pe)
  show "iterIndexTree B now s ix True False pk pv collect [] = rev (idxPairs B now s ix)"
    by (simp add: iterIndexTree_def run idxPairs_def pe i.tbackward_all rev_map rev_filter)
  have asc: "t_ascend (idxOps B) ?t (entryOf q) = filter (\<lambda>e. \<not> idxLess (ix_compare ix) (pairOf e) q) (t_all (idxOps B) ?t)" for q
    by (simp add: i.tascend_all o c sym indexCompare_less')
  have desc: "t_descend (idxOps B) ?t (entryOf q) =
      rev (filter (\<lambda>e. \<not> idxLess (ix_compare ix) q (pairOf e)) (t_all (idxOps B) ?t))" for q
    by (simp add: i.tdescend_all o c sym indexCompare_less')
  show "iterIndexTree B now s ix False True pk pv collect [] =
      filter (\<lambda>p. \<not> idxLess (ix_compare ix) p (pk, pv)) (idxPairs B now s ix)"
    by (simp add: iterIndexTree_def run idxPairs_def pe piv asc filter_map comp_def conj_commute)
  show "iterIndexTree B now s ix True True pk pv collect [] =
      rev (filter (\<lambda>p. \<not> idxLess (ix_compare ix) (pk, pv) p) (idxPairs B now s ix))"
    by (simp add: iterIndexTree_def run idxPairs_def pe piv desc rev_map [symmetric] rev_filter [symmetric]
        filter_map comp_def conj_commute)
qed

text \<open>Creating and dropping an index.\<close>

lemma fold_index:
  assumes "comparator c" "t_order (idxOps B) t = c" "\<And>e f. c e f = 0 \<Longrightarrow> ie_k e = ie_k f"
    and "distinct (map fst kvs)" "\<And>e. e \<in> set (t_all (idxOps B) t) \<Longrightarrow> ie_k e \<notin> fst ` set kvs"
  shows "set (t_all (idxOps B) (foldl (\<lambda>t (k, v). t_set (idxOps B) t \<lparr>ie_k = k, ie_v = v\<rparr>) t kvs)) =
      set (t_all (idxOps B) t) \<union> entryOf ` set kvs"
  using assms(2,4,5)
proof (induction kvs arbitrary: t)
  case Nil
  then show ?case by simp
next
  case (Cons p kvs)
  obtain k v where p: "p = (k, v)" by (cases p)
  let ?t = "t_set (idxOps B) t \<lparr>ie_k = k, ie_v = v\<rparr>"
  have e: "\<lparr>ie_k = k, ie_v = v\<rparr> = entryOf p" by (simp add: entryOf_def p)
  have set: "set (t_all (idxOps B) ?t) = insert (entryOf p) (set (t_all (idxOps B) t))"
    using Cons.prems(1,3) assms(1,3) p unfolding e by (fastforce simp: i.tall_set entryOf_def)
  have "t_order (idxOps B) ?t = c" using Cons.prems(1) by (simp add: i.order_set)
  moreover have "distinct (map fst kvs)" using Cons.prems(2) by simp
  moreover have "ie_k x \<notin> fst ` set kvs" if "x \<in> set (t_all (idxOps B) ?t)" for x
    using that Cons.prems(3) [of x] Cons.prems(2) p unfolding set by (force simp: entryOf_def)
  ultimately show ?case using Cons.IH [of ?t] set p by simp
qed

lemma foldl_order:
  "t_order (idxOps B) (foldl (\<lambda>t (k, v). t_set (idxOps B) t \<lparr>ie_k = k, ie_v = v\<rparr>) t kvs) = t_order (idxOps B) t"
  by (induction kvs arbitrary: t) (auto simp: i.order_set)

lemma createIndex_wf:
  assumes wf: "state_wf B (db_state db)" and run: "dbCreateIndex B name cmp db = (None, db')"
  shows "state_wf B (db_state db') \<and> view B (db_state db') = view B (db_state db) \<and>
    (\<exists>ix. map_of (st_idx (db_state db')) name = Some ix \<and> Some (ix_compare ix) = cmp)"
proof -
  let ?s = "db_state db"
  obtain c where c: "cmp = Some c" using run by (cases cmp) (auto simp: dbCreateIndex_def)
  let ?t = "foldl (\<lambda>t (k, v). t_set (idxOps B) t \<lparr>ie_k = k, ie_v = v\<rparr>) (t_new (idxOps B) (indexCompare c))
      (m_all (dataOps B) (st_data ?s))"
  let ?ix = "\<lparr>ix_name = name, ix_compare = c, ix_tree = ?t\<rparr>"
  have new: "map_of (st_idx ?s) name = None" and db': "db_state db' = ?s\<lparr>st_idx := st_idx ?s @ [(name, ?ix)]\<rparr>"
    using run c by (auto simp: dbCreateIndex_def newIndex_def Let_def split: if_splits)
  have set: "set (t_all (idxOps B) ?t) = {e. m_get (dataOps B) (st_data ?s) (ie_k e) = Some (ie_v e)}"
    if u: "user_compare c"
  proof -
    have "set (t_all (idxOps B) ?t) = entryOf ` set (m_all (dataOps B) (st_data ?s))"
      using fold_index [of "indexCompare c" "t_new (idxOps B) (indexCompare c)" "m_all (dataOps B) (st_data ?s)"]
        u d.distinct_all indexCompare_key [of c] comparator_index [of c] by (simp add: i.order_new i.tall_new)
    also have "\<dots> = {e. m_get (dataOps B) (st_data ?s) (ie_k e) = Some (ie_v e)}"
      using d.in_all [of _ _ "st_data ?s"] by (force simp: entryOf_def image_iff intro: bexI [of _ "pairOf _"])
    finally show ?thesis .
  qed
  then have "index_wf B (st_data ?s) (name, ?ix)" by (simp add: index_wf_def foldl_order i.order_new)
  moreover have "name \<notin> fst ` set (st_idx ?s)" using new by (simp add: map_of_eq_None_iff)
  ultimately have "state_wf B (db_state db')" using wf by (simp add: db' state_wf_def)
  then show ?thesis using new c by (simp add: db' view_def fun_eq_iff map_add_Some_iff)
qed

lemma dropIndex_wf:
  assumes wf: "state_wf B (db_state db)" and run: "dbDropIndex name db = (None, db')"
  shows "state_wf B (db_state db') \<and> view B (db_state db') = view B (db_state db) \<and>
    (\<forall>n. map_of (st_idx (db_state db')) n = (if n = name then None else map_of (st_idx (db_state db)) n))"
proof -
  have db': "db_state db' = (db_state db)\<lparr>st_idx := filter (\<lambda>p. fst p \<noteq> name) (st_idx (db_state db))\<rparr>"
    using run by (auto simp: dbDropIndex_def Let_def split: if_splits)
  have "map_of (filter (\<lambda>p. fst p \<noteq> name) l) n = (if n = name then None else map_of l n)"
    for l :: "(string \<times> ('k, 'v, 'j) index) list" and n by (induction l) auto
  moreover have "distinct (map fst (filter (\<lambda>p. fst p \<noteq> name) (st_idx (db_state db))))"
    using wf by (simp add: state_wf_def distinct_map_filter)
  ultimately show ?thesis using wf
    by (auto simp: db' state_wf_def view_def fun_eq_iff list_all_iff)
qed

end

end
