(* ===== verification/Ttl.thy ===== *)
theory Ttl
  imports TxInv
begin

text \<open>
  The expiry sweeper, \<^verbatim>\<open>src/ttl.go\<close>: a scan of the deadline table for expired keys, the
  transaction that removes them after checking each deadline again, and one tick of the
  background loop. Writes may come between the scan and the transaction, so the two are
  separate definitions; the transaction's deletes read the clock again (\<open>now'\<close>).
\<close>

definition sweepBatchLimit :: nat where
  "sweepBatchLimit = 512"

fun sweepCollect :: "int \<Rightarrow> 'k expEntry list \<Rightarrow> 'k list \<Rightarrow> 'k list" where
  "sweepCollect now [] keys = keys"
| "sweepCollect now (e # es) keys =
     (if now < ee_at e \<or> sweepBatchLimit \<le> length keys then keys
      else sweepCollect now es (keys @ [ee_key e]))"

definition sweepScan ::
    "('k::linorder, 'v, 'm, 'n, 'e, 'j) trees \<Rightarrow> int \<Rightarrow> ('k, 'v, 'm, 'n, 'e, 'j) db \<Rightarrow> 'k list" where
  "sweepScan B now db =
     (if db_closed db then [] else sweepCollect now (t_all (expOps B) (st_exp (db_state db))) [])"

fun sweepTx ::
    "('k::linorder, 'v, 'm, 'n, 'e, 'j) trees \<Rightarrow> int \<Rightarrow> int \<Rightarrow> ('k, 'v, 'm, 'n, 'e, 'j) db \<Rightarrow> 'k list
       \<Rightarrow> ('k, 'v, 'm, 'n, 'e, 'j) tx \<Rightarrow> goerr option \<times> ('k, 'v, 'm, 'n, 'e, 'j) tx" where
  "sweepTx B now now' db [] tx = (None, tx)"
| "sweepTx B now now' db (k # ks) tx =
     (case m_get (ttlOps B) (st_ttl (tx_state tx)) k of
        None \<Rightarrow> sweepTx B now now' db ks tx
      | Some dl \<Rightarrow>
          if now < dl then sweepTx B now now' db ks tx
          else case txDelete B now' db k tx of
              (Inl e, tx) \<Rightarrow> (Some e, tx)
            | (Inr _, tx) \<Rightarrow> sweepTx B now now' db ks tx)"

definition sweepCommit ::
    "('k::linorder, 'v, 'm, 'n, 'e, 'j) trees \<Rightarrow> io_env \<Rightarrow> int \<Rightarrow> int \<Rightarrow> 'k list
       \<Rightarrow> ('k, 'v, 'm, 'n, 'e, 'j) db \<Rightarrow> goerr option \<times> ('k, 'v, 'm, 'n, 'e, 'j) db" where
  "sweepCommit B env now now' keys db =
     (if keys = [] then (None, db)
      else let (res, _, db) = dbUpdate B env
                 (\<lambda>hp db tx. let (err, tx) = sweepTx B now now' db keys tx in (Returned err, hp, db, tx))
                 (\<lambda>_. None) db
           in (case res of Returned err \<Rightarrow> err | Panicked \<Rightarrow> None, db))"

definition sweepExpired ::
    "('k::linorder, 'v, 'm, 'n, 'e, 'j) trees \<Rightarrow> io_env \<Rightarrow> int \<Rightarrow> int
       \<Rightarrow> ('k, 'v, 'm, 'n, 'e, 'j) db \<Rightarrow> goerr option \<times> ('k, 'v, 'm, 'n, 'e, 'j) db" where
  "sweepExpired B env now now' db =
     (if db_closed db then (None, db) else sweepCommit B env now now' (sweepScan B now db) db)"

text \<open>The loop records the first error in a critical section of its own.\<close>

definition sweepEnd ::
    "goerr option \<Rightarrow> ('k, 'v, 'm, 'n, 'e, 'j) db \<Rightarrow> ('k, 'v, 'm, 'n, 'e, 'j) db" where
  "sweepEnd err db =
     (case err of
        None \<Rightarrow> db
      | Some e \<Rightarrow>
          if e \<noteq> ErrClosed \<and> db_sweepErr db = None then db\<lparr>db_sweepErr := Some e\<rparr> else db)"

definition sweepTick ::
    "('k::linorder, 'v, 'm, 'n, 'e, 'j) trees \<Rightarrow> io_env \<Rightarrow> int \<Rightarrow> int
       \<Rightarrow> ('k, 'v, 'm, 'n, 'e, 'j) db \<Rightarrow> ('k, 'v, 'm, 'n, 'e, 'j) db" where
  "sweepTick B env now now' db =
     (let (err, db) = sweepExpired B env now now' db in sweepEnd err db)"

section \<open>The scan\<close>

lemma sweepCollect_take:
  "sweepCollect now es keys =
     keys @ map ee_key (take (sweepBatchLimit - length keys) (takeWhile (\<lambda>e. ee_at e \<le> now) es))"
  by (induction es arbitrary: keys) (auto simp: not_less take_Cons')

text \<open>The keys a transaction of the sweeper removes: those whose deadline has passed.\<close>

definition sweepGone :: "int \<Rightarrow> 'k list \<Rightarrow> ('k, 'v) amap \<Rightarrow> 'k set" where
  "sweepGone now ks m = {k \<in> set ks. \<exists>v dl. m k = Some (v, Some dl) \<and> dl \<le> now}"

definition remove_keys :: "'k set \<Rightarrow> ('k, 'v) amap \<Rightarrow> ('k, 'v) amap" where
  "remove_keys X m = (\<lambda>k. if k \<in> X then None else m k)"

lemma remove_keys_empty [simp]: "remove_keys {} m = m"
  by (simp add: remove_keys_def)

lemma visible_remove_gone:
  assumes "now \<le> t"
  shows "visible t (remove_keys (sweepGone now ks m) m) = visible t m"
  using assms by (auto simp: visible_def remove_keys_def sweepGone_def fun_eq_iff split: option.splits)

context state_trees
begin

lemma view_ttl:
  "state_wf B s \<Longrightarrow> m_get (ttlOps B) (st_ttl s) k = Some dl \<longleftrightarrow> (\<exists>v. view B s k = Some (v, Some dl))"
  unfolding view_def state_wf_def by (auto simp: dom_def)

lemma sweepScan_keys:
  assumes wf: "state_wf B (db_state db)" and "\<not> db_closed db"
  shows "distinct (sweepScan B now db)"
    "set (sweepScan B now db) \<subseteq> {k. expired B k now (db_state db)}"
    "length (sweepScan B now db) = min sweepBatchLimit (card {k. expired B k now (db_state db)})"
proof -
  let ?es = "t_all (expOps B) (st_exp (db_state db))"
  let ?f = "filter (\<lambda>e. ee_at e \<le> now) ?es"
  have scan: "sweepScan B now db = map ee_key (take sweepBatchLimit ?f)"
    using assms(2) takeWhile_filter_sorted [OF exp_sorted [OF wf]]
    by (simp add: sweepScan_def sweepCollect_take)
  have set: "set ?es = {e. m_get (ttlOps B) (st_ttl (db_state db)) (ee_key e) = Some (ee_at e)}"
    and ord: "t_order (expOps B) (st_exp (db_state db)) = expCompare"
    using wf by (simp_all add: state_wf_def)
  have "distinct ?es" using x.tall_distinct [of "st_exp (db_state db)"] by (simp add: ord)
  moreover have "inj_on ee_key (set ?es)"
    unfolding set by (auto simp: inj_on_def intro!: expEntry.equality)
  ultimately have "distinct (map ee_key ?f)"
    by (auto simp: distinct_map intro: inj_on_subset)
  then show "distinct (sweepScan B now db)" unfolding scan take_map [symmetric] by (rule distinct_take)
  have "set (take sweepBatchLimit ?f) \<subseteq> {e \<in> set ?es. ee_at e \<le> now}"
    using set_take_subset [of sweepBatchLimit ?f] by auto
  then show "set (sweepScan B now db) \<subseteq> {k. expired B k now (db_state db)}"
    unfolding scan set by (auto simp: expired_iff)
  show "length (sweepScan B now db) = min sweepBatchLimit (card {k. expired B k now (db_state db)})"
    using card_expired [OF wf, of now] by (simp add: scan min.commute)
qed

end

section \<open>The transaction\<close>

context wal_db
begin

lemma sweepTx_steps:
  assumes "handle_of wc kc vc db" "list_all (\<lambda>k. vK k \<and> key_fits kc k) ks"
    and "sweepTx B now now' db ks tx = (r, tx')"
  shows "(txStep B vK vV db)\<^sup>*\<^sup>* (hp, tx) (hp, tx') \<and> tx_nops tx' \<le> tx_nops tx + length ks"
  using assms(2,3)
proof (induction ks arbitrary: tx)
  case Nil
  then show ?case by simp
next
  case (Cons k ks)
  show ?case
  proof (cases "\<exists>dl. m_get (ttlOps B) (st_ttl (tx_state tx)) k = Some dl \<and> dl \<le> now")
    case False
    then have "sweepTx B now now' db ks tx = (r, tx')" using Cons.prems(2) by (auto split: option.splits if_splits)
    with Cons.IH [of tx] Cons.prems(1) show ?thesis by simp
  next
    case True
    obtain d tx1 where d: "txDelete B now' db k tx = (d, tx1)" by (metis prod.exhaust)
    have st: "txStep B vK vV db (hp, tx) (hp, tx1)"
      using Cons.prems(1) assms(1) by (intro txStep.step_delete [OF _ _ d]) (simp_all add: handle_of_def)
    have n: "tx_nops tx1 \<le> tx_nops tx + 1"
      using d by (auto simp: txDelete_def txDrop_def split: if_splits sum.splits)
    show ?thesis
    proof (cases d)
      case (Inl e)
      then have "tx' = tx1" using True d Cons.prems(2) by auto
      with st n show ?thesis by auto
    next
      case (Inr b)
      then have "sweepTx B now now' db ks tx1 = (r, tx')" using True d Cons.prems(2) by auto
      with Cons.IH [of tx1] Cons.prems(1) st n show ?thesis
        by (auto intro: converse_rtranclp_into_rtranclp)
    qed
  qed
qed

lemma sweepTx_effect:
  assumes "state_wf B (tx_state tx)" "\<not> tx_done tx" "tx_writable tx"
    and enc: "\<And>k. k \<in> set ks \<Longrightarrow> \<exists>kb. Encode (db_keyCodec db) k = Inr kb" "distinct ks"
  shows "fst (sweepTx B now now' db ks tx) = None \<and>
    view B (tx_state (snd (sweepTx B now now' db ks tx))) =
      remove_keys (sweepGone now ks (view B (tx_state tx))) (view B (tx_state tx))"
  using assms
proof (induction ks arbitrary: tx)
  case Nil
  then show ?case by (simp add: sweepGone_def)
next
  case (Cons k ks)
  let ?m = "view B (tx_state tx)"
  show ?case
  proof (cases "\<exists>dl. m_get (ttlOps B) (st_ttl (tx_state tx)) k = Some dl \<and> dl \<le> now")
    case False
    then have "sweepTx B now now' db (k # ks) tx = sweepTx B now now' db ks tx" by (auto split: option.splits)
    moreover have "sweepGone now (k # ks) ?m = sweepGone now ks ?m"
      using False by (auto simp: sweepGone_def view_ttl [OF Cons.prems(1)])
    ultimately show ?thesis using Cons by simp
  next
    case True
    then obtain dl v where dl: "m_get (ttlOps B) (st_ttl (tx_state tx)) k = Some dl" "dl \<le> now"
      and v: "?m k = Some (v, Some dl)" by (auto simp: view_ttl [OF Cons.prems(1)])
    obtain kb where kb: "Encode (db_keyCodec db) k = Inr kb" using Cons.prems(4) by auto
    have has: "m_contains (dataOps B) (st_data (tx_state tx)) k" using v by (auto simp: view_def d.contains_get)
    let ?tx = "txDrop B k kb tx"
    have run: "sweepTx B now now' db (k # ks) tx = sweepTx B now now' db ks ?tx"
      using dl Cons.prems(2,3) has kb by (simp add: txDelete_def)
    have w: "state_wf B (tx_state ?tx)" "view B (tx_state ?tx) = ?m(k := None)" "\<not> tx_done ?tx" "tx_writable ?tx"
      using Cons.prems by (simp_all add: txDrop_def state_wf_delete view_delete)
    have "remove_keys (sweepGone now ks (?m(k := None))) (?m(k := None)) = remove_keys (sweepGone now (k # ks) ?m) ?m"
      using v dl Cons.prems(5) by (auto simp: remove_keys_def sweepGone_def fun_eq_iff)
    moreover have "fst (sweepTx B now now' db ks ?tx) = None \<and> view B (tx_state (snd (sweepTx B now now' db ks ?tx))) =
        remove_keys (sweepGone now ks (view B (tx_state ?tx))) (view B (tx_state ?tx))"
      using Cons.prems(4,5) by (intro Cons.IH w) simp_all
    ultimately show ?thesis by (simp only: run w(2))
  qed
qed

text \<open>
  A sweep leaves what every reader from \<open>now\<close> on sees, whatever fails in it; one that
  succeeds removes the entries of the batch that had expired.
\<close>

lemma sweepCommit_cases:
  assumes inv: "log_inv B vK vV t db hdr its ops" and h: "handle_of wc kc vc db" and mu: "\<not> db_writerMu db"
    and ks: "list_all (\<lambda>k. vK k \<and> key_fits kc k \<and> (\<exists>kb. Encode kc k = Inr kb)) ks" "distinct ks" "length ks < 2 ^ 64"
    and run: "sweepCommit B env now now' ks db = (r, db')"
  shows "\<not> db_writerMu db' \<and> same_handle db db' \<and>
    (\<exists>its' ops'. log_inv B vK vV t db' hdr (its @ its') (ops @ ops')) \<and>
    (\<forall>u. now \<le> u \<longrightarrow> visible u (view B (db_state db')) = visible u (view B (db_state db))) \<and>
    (r = None \<longrightarrow> view B (db_state db') = remove_keys (sweepGone now ks (view B (db_state db))) (view B (db_state db)))"
proof (cases "ks = [] \<or> canWrite db \<noteq> None")
  case True
  then have "db' = db \<and> (r = None \<longrightarrow> ks = [])"
    using run by (cases "ks = []") (auto simp: sweepCommit_def dbUpdate_refused dest: sym)
  with inv mu show ?thesis by (auto simp: sweepGone_def intro!: exI [of _ "[]"])
next
  case False
  let ?fn = "\<lambda>hp db tx. let (err, tx) = sweepTx B now now' db ks tx in (Returned err, hp, db, tx)"
  let ?db1 = "db\<lparr>db_writerMu := True\<rparr>"
  let ?m = "view B (db_state db)"
  obtain tx where bg: "dbBegin B True db = (Inr tx, ?db1)" using False by (auto simp: dbBegin_def)
  note b = dbBegin_inv [OF inv bg]
  obtain err tx1 where sw: "sweepTx B now now' ?db1 ks tx = (err, tx1)" by (metis prod.exhaust)
  have h1: "handle_of wc kc vc ?db1" using h by (simp add: handle_of_def)
  have ks': "list_all (\<lambda>k. vK k \<and> key_fits kc k) ks" using ks(1) by (auto simp: list_all_iff)
  note st = sweepTx_steps [OF h1 ks' sw, of "\<lambda>_. None"]
  have "tx_nops tx = 0" using bg by (auto simp: dbBegin_def split: option.splits if_splits)
  then have n: "tx_nops tx1 < 2 ^ 64" using st ks(3) by simp
  have wf: "state_wf B (tx_state tx)" using b(1) by (simp add: tx_inv_def)
  have "\<exists>kb. Encode (db_keyCodec ?db1) k = Inr kb" if "k \<in> set ks" for k
    using that ks(1) h by (auto simp: list_all_iff handle_of_def)
  from sweepTx_effect [OF wf b(3,4) this ks(2), of now now']
  have eff: "err = None" "view B (tx_state tx1) = remove_keys (sweepGone now ks ?m) ?m"
    using sw b(5) by simp_all
  obtain out hp' where up: "dbUpdate B env ?fn (\<lambda>_. None) db = (out, hp', db')"
      and r: "r = (case out of Returned err \<Rightarrow> err | Panicked \<Rightarrow> None)"
    using run False by (auto simp: sweepCommit_def split: prod.splits)
  have fn: "?fn (\<lambda>_. None) ?db1 tx = (Returned err, \<lambda>_. None, ?db1, tx1)" by (simp add: sw)
  have "visible u (view B (tx_state tx1)) = visible u ?m" if "now \<le> u" for u
    using visible_remove_gone [OF that] by (simp add: eff)
  moreover have "log_inv B vK vV t db' hdr its ops \<Longrightarrow> \<exists>its' ops'. log_inv B vK vV t db' hdr (its @ its') (ops @ ops')"
    by (intro exI [of _ "[]"]) simp
  ultimately show ?thesis
    using dbUpdate_run [where fn = ?fn, OF inv h bg fn conjunct1 [OF st] n up] eff mu r
    by (auto simp: same_handle_def)
qed

lemma expired_ok:
  assumes inv: "log_inv B vK vV t db hdr its ops" and e: "expired B k now (db_state db)"
  shows "vK k \<and> view B (db_state db) k \<noteq> None"
proof -
  have wf: "state_wf B (db_state db)" and ok: "amap_ok vK vV (view B (db_state db))"
    using inv by (simp_all add: log_inv_def state_inv_def)
  from e obtain v dl where "view B (db_state db) k = Some (v, Some dl)"
    unfolding expired_iff view_ttl [OF wf] by blast
  with ok show ?thesis by (auto simp: amap_ok_def)
qed

lemma sweepExpired_cases:
  assumes inv: "log_inv B vK vV t db hdr its ops" and h: "handle_of wc kc vc db" and mu: "\<not> db_writerMu db"
    and enc: "\<And>k. view B (db_state db) k \<noteq> None \<Longrightarrow> key_fits kc k \<and> (\<exists>kb. Encode kc k = Inr kb)"
    and run: "sweepExpired B env now now' db = (r, db')"
  shows "\<not> db_writerMu db' \<and> same_handle db db' \<and>
    (\<exists>its' ops'. log_inv B vK vV t db' hdr (its @ its') (ops @ ops')) \<and>
    (\<forall>u. now \<le> u \<longrightarrow> visible u (view B (db_state db')) = visible u (view B (db_state db))) \<and>
    (r = None \<and> \<not> db_closed db \<longrightarrow>
       card {k. expired B k now (db_state db')} = card {k. expired B k now (db_state db)} - sweepBatchLimit)"
proof (cases "db_closed db")
  case True
  then show ?thesis using run inv mu by (auto simp: sweepExpired_def intro!: exI [of _ "[]"])
next
  case False
  let ?s = "db_state db" and ?ks = "sweepScan B now db"
  let ?X = "{k. expired B k now ?s}"
  have wf: "state_wf B ?s" using inv by (simp add: log_inv_def state_inv_def)
  note sc = sweepScan_keys [OF wf False, of now]
  have "list_all (\<lambda>k. vK k \<and> key_fits kc k \<and> (\<exists>kb. Encode kc k = Inr kb)) ?ks"
    using sc(2) expired_ok [OF inv] enc by (fastforce simp: list_all_iff)
  moreover have "length ?ks < 2 ^ 64" using sc(3) by (simp add: sweepBatchLimit_def)
  moreover have "sweepCommit B env now now' ?ks db = (r, db')" using run False by (simp add: sweepExpired_def)
  ultimately have c: "\<not> db_writerMu db' \<and> same_handle db db' \<and>
    (\<exists>its' ops'. log_inv B vK vV t db' hdr (its @ its') (ops @ ops')) \<and>
    (\<forall>u. now \<le> u \<longrightarrow> visible u (view B (db_state db')) = visible u (view B (db_state db))) \<and>
    (r = None \<longrightarrow> view B (db_state db') = remove_keys (sweepGone now ?ks (view B ?s)) (view B ?s))"
    using sweepCommit_cases [OF inv h mu _ sc(1)] by blast
  have "card {k. expired B k now (db_state db')} = card ?X - sweepBatchLimit" if "r = None"
  proof -
    have wf': "state_wf B (db_state db')" using c by (auto simp: log_inv_def state_inv_def)
    have gone: "sweepGone now ?ks (view B ?s) = set ?ks"
      using sc(2) by (auto simp: sweepGone_def expired_iff view_ttl [OF wf])
    have "{k. expired B k now (db_state db')} = ?X - set ?ks"
      using c that by (auto simp: expired_iff view_ttl [OF wf] view_ttl [OF wf'] gone remove_keys_def split: if_splits)
    moreover have "card (set ?ks) = min sweepBatchLimit (card ?X)" using sc(1,3) by (simp add: distinct_card)
    moreover have "finite ?X" using expired_present [OF wf, of now] by (rule finite_subset) simp
    ultimately show ?thesis using card_Diff_subset [OF _ sc(2)] by simp
  qed
  with c show ?thesis by simp
qed

end

end
