(* ===== verification/Backup.thy ===== *)
theory Backup
  imports CompactInv
begin

text \<open>
  Backups, \<^verbatim>\<open>src/backup.go\<close>. \<^verbatim>\<open>BackupTo\<close> returns what its writer received; \<^verbatim>\<open>Backup\<close> is the
  temporary file, the sync and the rename around it. Both hold \<^verbatim>\<open>compactMu\<close>, so the file
  they read stays the current one, and the bytes below the captured length do not change.
\<close>

definition backupSuffix :: string where
  "backupSuffix = ''.backup-tmp''"

text \<open>
  \<^verbatim>\<open>BackupTo\<close> captures the file and its length under the lock and copies without it:
  \<open>backupCapture\<close>, then \<open>lf_copy\<close>. \<open>dbBackupTo\<close> runs them with nothing in between.
\<close>

definition backupCapture :: "('k, 'v, 'm, 'n, 'e, 'j) db \<Rightarrow> (nat \<times> nat) result" where
  "backupCapture db = (if db_closed db then Inl ErrClosed else Inr (db_file db, db_walSize db))"

definition dbBackupTo ::
    "io_env \<Rightarrow> ('k, 'v, 'm, 'n, 'e, 'j) db \<Rightarrow> goerr option \<times> nat \<times> bytes" where
  "dbBackupTo env db =
     (case backupCapture db of
        Inl e \<Rightarrow> (Some e, 0, [])
      | Inr (f, n) \<Rightarrow> lf_copy (env ''backup copy'') 0 n (fs_inode (db_fs db) f))"

definition dbBackup ::
    "io_env \<Rightarrow> string \<Rightarrow> ('k, 'v, 'm, 'n, 'e, 'j) db \<Rightarrow> goerr option \<times> ('k, 'v, 'm, 'n, 'e, 'j) db" where
  "dbBackup env destPath db =
     (let tmpPath = destPath @ backupSuffix
      in case fsCreate (env ''create temp'') tmpPath (db_fs db) of
           (Inl e, fs) \<Rightarrow> (Some e, db\<lparr>db_fs := fs\<rparr>)
         | (Inr tmp, fs) \<Rightarrow>
      let db = db\<lparr>db_fs := fs\<rparr>;
          (err, _, out) = dbBackupTo env db;
          fs = fs_upd tmp (snd (lf_write None out (fs_inode fs tmp))) fs
      in case err of
           Some e \<Rightarrow> (Some e, db\<lparr>db_fs := discard env tmp tmpPath fs\<rparr>)
         | None \<Rightarrow>
      case lf_sync (env ''sync backup'') (fs_inode fs tmp) of
           (Some e, f) \<Rightarrow> (Some e, db\<lparr>db_fs := discard env tmp tmpPath (fs_upd tmp f fs)\<rparr>)
         | (None, f) \<Rightarrow>
      case fsRename (env ''swap backup into place'') tmpPath destPath (fs_upd tmp f fs) of
           (Some e, fs) \<Rightarrow> (Some e, db\<lparr>db_fs := discard env tmp tmpPath fs\<rparr>)
         | (None, fs) \<Rightarrow>
      let fs = fsSyncDir (env ''sync dir'') destPath fs;
          (err, f) = lf_close (env ''close'') (fs_inode fs tmp)
      in (err, db\<lparr>db_fs := fs_upd tmp f fs\<rparr>))"

section \<open>What a backup holds\<close>

lemma fs_upd_upd: "fs_upd h f (fs_upd h g fs) = fs_upd h f fs"
  by (simp add: fs_upd_def)

lemma dbBackupTo_bytes:
  assumes inv: "file_inv db hdr its ops" and nc: "\<not> db_closed db" and run: "dbBackupTo env db = (None, n, out)"
  shows "out = hdr @ logBytes its"
proof -
  have "lf_copy (env ''backup copy'') 0 (db_walSize db) (the_file db) = (None, n, out)"
    using run nc by (simp add: dbBackupTo_def backupCapture_def)
  from lf_copy_log(3,4) [OF inv _ this] inv show ?thesis by (simp add: file_inv_def)
qed

text \<open>The file at \<open>path\<close> and what is known to be on stable storage of it.\<close>

definition path_file :: "string \<Rightarrow> fsys \<Rightarrow> logfile option" where
  "path_file path fs = map_option (fs_inode fs) (fs_cur fs path)"

text \<open>
  The live log stays as it is; the destination holds what it held, or the whole log on
  stable storage.
\<close>

lemma dbBackup_cases:
  assumes inv: "file_inv db hdr its ops" and ne: "dest \<noteq> db_path db" "dest @ backupSuffix \<noteq> db_path db"
    and run: "dbBackup env dest db = (r, db')"
  shows "\<exists>fs. db' = db\<lparr>db_fs := fs\<rparr> \<and> live_kept db fs \<and>
    (r \<noteq> None \<and> path_file dest fs = path_file dest (db_fs db) \<or>
     (\<exists>f. path_file dest fs = Some f \<and> lf_content f = hdr @ logBytes its \<and> lf_synced f = hdr @ logBytes its))"
proof -
  let ?p = "dest @ backupSuffix"
  have pn: "?p \<noteq> dest" by (simp add: backupSuffix_def)
  note live = live_kept_self [OF inv]
  obtain c fs0 where cr: "fsCreate (env ''create temp'') ?p (db_fs db) = (c, fs0)" by (metis prod.exhaust)
  show ?thesis
  proof (cases c)
    case (Inl e)
    with run cr fsCreate_err [OF cr [unfolded Inl]] live show ?thesis
      by (auto simp: dbBackup_def Let_def intro!: exI [of _ "db_fs db"])
  next
    case (Inr tmp)
    note cr' = cr [unfolded Inr]
    note t = fsCreate_at [OF live cr' ne(2)]
    have tmp: "tmp_at ?p db tmp fs0" "appendable (fs_inode fs0 tmp)" "lf_content (fs_inode fs0 tmp) = []"
      using t(1) by simp_all
    obtain err n out where bt: "dbBackupTo env (db\<lparr>db_fs := fs0\<rparr>) = (err, n, out)" by (metis prod.exhaust)
    define fs1 where "fs1 = fs_upd tmp (snd (lf_write None out (fs_inode fs0 tmp))) fs0"
    have keep: "path_file dest (discard env tmp ?p (fs_upd tmp f fs0)) = path_file dest (db_fs db)" for f
      using t(2) [of dest] t(3) t(4) [of dest] pn
      by (auto simp: path_file_def discard_def fsRemove_def closeFile_def map_option_case split: option.splits)
    have fail: ?thesis if "r \<noteq> None \<and> db' = db\<lparr>db_fs := discard env tmp ?p (fs_upd tmp f fs0)\<rparr>" for f
      using that keep [of f] discard_tmp [OF tmp_at_upd [OF tmp(1)] ne(2), of env f] by auto
    have inv0: "file_inv (db\<lparr>db_fs := fs0\<rparr>) hdr its ops"
      using file_inv_live_kept [OF inv] tmp(1) by (simp add: tmp_at_def)
    obtain f1 where w: "lf_write None out (fs_inode fs0 tmp) = (None, f1)" and f1: "lf_content f1 = out" "\<not> lf_closed f1"
      using tmp(2,3) by (simp add: lf_write_def appendable_def)
    obtain se f2 where sy: "lf_sync (env ''sync backup'') f1 = (se, f2)" by (metis prod.exhaust)
    obtain re fs2 where rn: "fsRename (env ''swap backup into place'') ?p dest (fs_upd tmp f2 fs0) = (re, fs2)"
      by (metis prod.exhaust)
    note unf = run [unfolded dbBackup_def Let_def cr' prod.case sum.case bt w snd_conv fs_upd_sel fs_upd_upd sy]
    show ?thesis
    proof (cases "err = None \<and> se = None \<and> re = None")
      case False
      then have "(\<exists>f. r \<noteq> None \<and> db' = db\<lparr>db_fs := discard env tmp ?p (fs_upd tmp f fs0)\<rparr>)"
        using unf rn by (auto simp: fsRename_def split: option.splits)
      with fail show ?thesis by blast
    next
      case True
      have "\<not> db_closed db" using bt True by (auto simp: dbBackupTo_def backupCapture_def)
      then have out: "out = hdr @ logBytes its" using dbBackupTo_bytes [OF inv0 _ bt [unfolded conjunct1 [OF True]]] by simp
      have f2: "lf_content f2 = out" "lf_synced f2 = out" using sy True f1 by (auto simp: lf_sync_def split: option.splits)
      obtain ce f3 where cl: "lf_close (env ''close'') (fs_inode (fsSyncDir (env ''sync dir'') dest fs2) tmp) = (ce, f3)"
        by (metis prod.exhaust)
      have fs2: "fs2 = (fs_upd tmp f2 fs0)\<lparr>fs_cur := (fs_cur fs0)(?p := None, dest := Some tmp)\<rparr>"
        using rn True tmp(1) by (auto simp: fsRename_def tmp_at_def split: option.splits)
      have f3: "lf_content f3 = out" "lf_synced f3 = out" using cl f2 fs2 by (auto simp: lf_close_def split: if_splits)
      have db': "db' = db\<lparr>db_fs := fs_upd tmp f3 (fsSyncDir (env ''sync dir'') dest fs2)\<rparr>"
        using unf True rn cl by simp
      have "fs_wf fs2" using fs_wf_rename [of fs0 ?p tmp fs2 dest] tmp(1) by (simp add: tmp_at_def live_kept_def fs2)
      then have "live_kept db (fs_upd tmp f3 (fsSyncDir (env ''sync dir'') dest fs2))"
        using tmp(1) ne by (auto simp: live_kept_def tmp_at_def fs2 fs_wf_def)
      then show ?thesis unfolding db' using f3 out
        by (intro exI [of _ "fs_upd tmp f3 (fsSyncDir (env ''sync dir'') dest fs2)"]) (simp add: path_file_def fs2)
    qed
  qed
qed

context wal_db
begin

text \<open>Opening the copy recovers the operations of the log as it stood.\<close>

lemma backup_opens:
  assumes inv: "log_inv B vK vV t db hdr its ops" and h: "handle_of wc kc vc db"
    and fs: "crashed_fs path (hdr @ logBytes its) fs" and oc: "openCipher hkdf aesNew (openOptions opts) = Inr wc"
  shows "\<exists>db' fs'. openDB B hkdf aesNew io_ok path kc vc opts fs = (Inr db', fs') \<and>
    (\<forall>now\<ge>t. visible now (view B (db_state db')) = visible now (view B (db_state db)))"
proof -
  have f: "hdr_ok wc hdr" "list_all item_ok its" "denotes wc kc vc (logRecs its) ops"
    using inv h by (auto simp: log_inv_def file_inv_def handle_of_def)
  have "fs_wf fs" using fs by (simp add: crashed_fs_def)
  from openDB_whole [OF this oc openedFile_crashed [OF fs] f, of t] obtain db' fs' where
    o: "openDB B hkdf aesNew io_ok path kc vc opts fs = (Inr db', fs')" "view B (db_state db') = apOps ops Map.empty"
    by blast
  have "agree t (view B (db_state db')) (view B (db_state db))"
    using inv by (auto simp: log_inv_def state_inv_def o(2) intro: agree_sym)
  with o(1) agree_visible show ?thesis by blast
qed

end

end
