(* ===== verification/Replication.thy ===== *)
theory Replication
  imports CompactInv
begin

text \<open>
  The replication primitives, \<^verbatim>\<open>src/replication.go\<close>: the epoch and size of the log, and
  the copy of a byte range of one epoch to a follower.
\<close>

definition dbLogState :: "('k, 'v, 'm, 'n, 'e, 'j) db \<Rightarrow> (nat \<times> nat) result" where
  "dbLogState db = (if db_closed db then Inl ErrClosed else Inr (db_fileEpoch db, db_walSize db))"

text \<open>
  \<^verbatim>\<open>ReadLogRange\<close> checks and captures under the lock and copies without it: \<open>readCapture\<close> gives
  the file and the length \<open>n\<close> of the copy. \<open>dbReadLogRange\<close> runs both with nothing in between.
\<close>

definition readCapture ::
    "nat \<Rightarrow> int \<Rightarrow> int \<Rightarrow> ('k, 'v, 'm, 'n, 'e, 'j) db \<Rightarrow> (nat \<times> nat) result" where
  "readCapture epoch from' mx db =
     (if from' < 0 \<or> mx < 0 then Inl (ErrNew ''negative range'')
      else if db_closed db then Inl ErrClosed
      else if db_fileEpoch db \<noteq> epoch then Inl ErrEpochChanged
      else if int (db_walSize db) < from' then Inl (ErrNew ''range start beyond log size'')
      else Inr (db_file db, nat (min mx (int (db_walSize db) - from'))))"

text \<open>The error, the count and the bytes delivered.\<close>

definition readCopy ::
    "io_env \<Rightarrow> nat \<Rightarrow> nat \<Rightarrow> int \<Rightarrow> ('k, 'v, 'm, 'n, 'e, 'j) db \<Rightarrow> goerr option \<times> nat \<times> bytes" where
  "readCopy env f n from' db =
     (if n = 0 then (None, 0, [])
      else lf_copy (env ''read log range'') (nat from') n (fs_inode (db_fs db) f))"

definition dbReadLogRange ::
    "io_env \<Rightarrow> nat \<Rightarrow> int \<Rightarrow> int \<Rightarrow> ('k, 'v, 'm, 'n, 'e, 'j) db \<Rightarrow> goerr option \<times> nat \<times> bytes" where
  "dbReadLogRange env epoch from' mx db =
     (case readCapture epoch from' mx db of
        Inl e \<Rightarrow> (Some e, 0, [])
      | Inr (f, n) \<Rightarrow> readCopy env f n from' db)"

section \<open>What a follower receives\<close>

lemma dbReadLogRange_epoch:
  "0 \<le> from' \<Longrightarrow> 0 \<le> mx \<Longrightarrow> \<not> db_closed db \<Longrightarrow> db_fileEpoch db \<noteq> epoch \<Longrightarrow>
   dbReadLogRange env epoch from' mx db = (Some ErrEpochChanged, 0, [])"
  by (simp add: dbReadLogRange_def readCapture_def)

lemma readCapture_Inr:
  "readCapture epoch from' mx db = Inr (f, n) \<Longrightarrow>
   0 \<le> from' \<and> 0 \<le> mx \<and> \<not> db_closed db \<and> db_fileEpoch db = epoch \<and> f = db_file db \<and>
   int n = min mx (int (db_walSize db) - from') \<and> nat from' + n \<le> db_walSize db"
  by (auto simp: readCapture_def split: if_splits)

text \<open>A copy of captured bytes, made while the handle still has the file that was captured.\<close>

lemma readCopy_bytes:
  assumes inv: "file_inv db hdr its ops" and le: "nat from' + n \<le> db_walSize db"
    and run: "readCopy env (db_file db) n from' db = (err, c, out)"
  shows "c = length out" "c \<le> n" "out = take c (drop (nat from') (hdr @ logBytes its))" "err = None \<Longrightarrow> c = n"
proof -
  have "c = length out \<and> c \<le> n \<and> out = take c (drop (nat from') (hdr @ logBytes its)) \<and> (err = None \<longrightarrow> c = n)"
  proof (cases "n = 0")
    case True
    then show ?thesis using run by (simp add: readCopy_def)
  next
    case False
    then have "lf_copy (env ''read log range'') (nat from') n (the_file db) = (err, c, out)"
      using run by (simp add: readCopy_def)
    from lf_copy_log [OF inv le this] show ?thesis by blast
  qed
  then show "c = length out" "c \<le> n" "out = take c (drop (nat from') (hdr @ logBytes its))" "err = None \<Longrightarrow> c = n"
    by blast+
qed

lemma dbReadLogRange_bytes:
  assumes inv: "file_inv db hdr its ops" and run: "dbReadLogRange env epoch from' mx db = (err, n, out)"
  shows "n = length out" "int n \<le> max 0 mx"
    "out \<noteq> [] \<Longrightarrow> db_fileEpoch db = epoch \<and> out = take n (drop (nat from') (hdr @ logBytes its))"
    "err = None \<Longrightarrow> int n = min mx (int (db_walSize db) - from') \<and> 0 \<le> from' \<and> 0 \<le> mx \<and>
       db_fileEpoch db = epoch \<and> out = take n (drop (nat from') (hdr @ logBytes its))"
proof -
  have "n = length out \<and> int n \<le> max 0 mx \<and>
    (out \<noteq> [] \<longrightarrow> db_fileEpoch db = epoch \<and> out = take n (drop (nat from') (hdr @ logBytes its))) \<and>
    (err = None \<longrightarrow> int n = min mx (int (db_walSize db) - from') \<and> 0 \<le> from' \<and> 0 \<le> mx \<and>
       db_fileEpoch db = epoch \<and> out = take n (drop (nat from') (hdr @ logBytes its)))"
  proof (cases "readCapture epoch from' mx db")
    case (Inl e)
    then show ?thesis using run by (auto simp: dbReadLogRange_def)
  next
    case (Inr p)
    obtain f k where p: "p = (f, k)" by (cases p)
    note c = readCapture_Inr [OF Inr [unfolded p]]
    have le: "nat from' + k \<le> db_walSize db" using c by simp
    have "readCopy env (db_file db) k from' db = (err, n, out)" using run c Inr p by (simp add: dbReadLogRange_def)
    note b = readCopy_bytes [OF inv le this]
    have "int k \<le> mx" using c by simp
    then have "int n \<le> max 0 mx" using b(2) by simp
    with b(1,3,4) c show ?thesis by blast
  qed
  then show "n = length out" "int n \<le> max 0 mx"
    "out \<noteq> [] \<Longrightarrow> db_fileEpoch db = epoch \<and> out = take n (drop (nat from') (hdr @ logBytes its))"
    "err = None \<Longrightarrow> int n = min mx (int (db_walSize db) - from') \<and> 0 \<le> from' \<and> 0 \<le> mx \<and>
       db_fileEpoch db = epoch \<and> out = take n (drop (nat from') (hdr @ logBytes its))" by blast+
qed

text \<open>
  A follower of one epoch: it holds the start of the log and asks for what follows. Between
  its calls writers append items; the call may fail after some bytes.
\<close>

lemma follower_extends:
  assumes inv: "file_inv db hdr (its @ its') ops" and rep: "rep = take (length rep) (hdr @ logBytes its)"
    and run: "dbReadLogRange env epoch (int (length rep)) mx db = (err, n, out)"
  shows "rep @ out = take (length (rep @ out)) (hdr @ logBytes (its @ its'))"
proof -
  let ?log = "hdr @ logBytes (its @ its')"
  have le: "length rep \<le> length (hdr @ logBytes its)" using arg_cong [OF rep, of length] by simp
  have "?log = (hdr @ logBytes its) @ logBytes its'" by simp
  then have "take (length rep) ?log = take (length rep) (hdr @ logBytes its)"
    using le by (simp only: take_append diff_is_0_eq [THEN iffD2] take_0 append_Nil2)
  with rep have pre: "rep = take (length rep) ?log" by simp
  show ?thesis
  proof (cases "out = []")
    case True
    then show ?thesis using pre by simp
  next
    case False
    from dbReadLogRange_bytes(1,3) [OF inv run] False
    have "out = take (length out) (drop (length rep) ?log)" by simp
    then have "take (length rep + length out) ?log = take (length rep) ?log @ out" unfolding take_add by simp
    with pre show ?thesis by (simp only: length_append)
  qed
qed

lemma follower_catches_up:
  assumes inv: "file_inv db hdr its ops" and rep: "rep = take (length rep) (hdr @ logBytes its)"
    and run: "dbReadLogRange env epoch (int (length rep)) mx db = (None, n, out)"
    and mx: "int (db_walSize db) \<le> int (length rep) + mx"
  shows "rep @ out = hdr @ logBytes its"
proof -
  have w: "db_walSize db = length (hdr @ logBytes its)" using inv by (simp add: file_inv_def)
  have le: "length rep \<le> length (hdr @ logBytes its)" using arg_cong [OF rep, of length] by simp
  from dbReadLogRange_bytes(4) [OF inv run] mx le w
  have "n = length (hdr @ logBytes its) - length rep" "out = take n (drop (length rep) (hdr @ logBytes its))" by auto
  then have "out = drop (length rep) (hdr @ logBytes its)" by simp
  then show ?thesis using rep by (metis append_take_drop_id)
qed

end
