(* ===== verification/Database.thy ===== *)
theory Database
  imports CompactInv Index Ttl Backup Replication
begin

text \<open>
  The invariant of a handle and what each call keeps of it. \<open>db_ok\<close> at time \<open>t\<close> says that the
  handle and its log agree for every reader whose clock shows \<open>t\<close> or later; \<open>appends\<close> that a
  call has appended whole items to the log and touched no other file; \<open>frozen\<close> that it has
  changed neither. Then what opening a database and a crash leave of it.
\<close>

section \<open>When an error is sticky\<close>

text \<open>
  Under \<^verbatim>\<open>SyncAlways\<close> a handle that still accepts writes has its whole log on stable storage;
  a failed group sync has made the handle read-only.
\<close>

definition sound :: "('k, 'v, 'm, 'n, 'e, 'j) db \<Rightarrow> bool" where
  "sound db \<longleftrightarrow>
     (gs_err (db_gsync db) \<noteq> None \<longrightarrow> db_writeErr db \<noteq> None \<or> db_closed db) \<and>
     (db_policy db = SyncAlways \<and> db_writeErr db = None \<longrightarrow> log_durable db)"

lemma writeLog_fields:
  assumes "writeLog env buf db = (None, db1)"
  shows "db_writeErr db1 = db_writeErr db" "db_gsync db1 = db_gsync db" "db_closed db1 = db_closed db"
    "db_policy db1 = db_policy db" "db_appendSeq db1 = db_appendSeq db + 1" "db_state db1 = db_state db"
proof -
  obtain f where "db1 = maybeAutoCompact ((set_file f db)\<lparr>db_appendSeq := db_appendSeq db + 1,
      db_walSize := db_walSize db + length buf\<rparr>)"
    using assms by (auto simp: writeLog_def split: prod.splits option.splits)
  then obtain b where "db1 = ((set_file f db)\<lparr>db_appendSeq := db_appendSeq db + 1,
      db_walSize := db_walSize db + length buf\<rparr>)\<lparr>db_compacting := b\<rparr>"
    using maybeAutoCompact_eq by metis
  then show "db_writeErr db1 = db_writeErr db" "db_gsync db1 = db_gsync db" "db_closed db1 = db_closed db"
    "db_policy db1 = db_policy db" "db_appendSeq db1 = db_appendSeq db + 1" "db_state db1 = db_state db"
    by simp_all
qed

lemma writeLog_err: "writeLog env buf db = (Some e, db1) \<Longrightarrow> db_writeErr db1 \<noteq> None"
  by (auto simp: writeLog_def split: prod.splits option.splits)

text \<open>An append and its wait end acknowledged, or with the handle read-only.\<close>

lemma append_settles:
  assumes "canWrite db = None" "gs_err (db_gsync db) = None" "writeLog env buf db = (None, db1)"
    and "waitDurable env (db_appendSeq db1) (db1\<lparr>db_state := s, db_writerMu := w\<rparr>) = (r, db2)"
  shows "if r = None then db_writeErr db2 = None \<and> gs_err (db_gsync db2) = None else db_writeErr db2 \<noteq> None"
proof -
  note w = writeLog_fields [OF assms(3)]
  have c: "\<not> db_closed db" "db_writeErr db = None" using assms(1) by (auto simp: canWrite_def split: if_splits)
  let ?d = "db1\<lparr>db_state := s, db_writerMu := w\<rparr>"
  show ?thesis
  proof (cases "db_policy db = SyncAlways")
    case False
    then have "r = None" "db2 = ?d" using assms(4) w by (simp_all add: waitDurable_def)
    then show ?thesis using c assms(2) w by simp
  next
    case True
    have "waitDurable env (db_appendSeq ?d) ?d = (r, db2)" using assms(4) by simp
    then show ?thesis using True w c assms(2)
      by (subst (asm) waitDurable_once)
        (auto simp: Let_def leaderSync_def markDurable_def split: if_splits prod.splits option.splits)
  qed
qed

definition settled :: "('k, 'v, 'm, 'n, 'e, 'j) db \<Rightarrow> bool \<Rightarrow> ('k, 'v, 'm, 'n, 'e, 'j) db \<Rightarrow> bool" where
  "settled db ok db' \<longleftrightarrow>
     (if ok then db_writeErr db' = None \<and> gs_err (db_gsync db') = None else db' = db \<or> db_writeErr db' \<noteq> None)"

lemma setInternal_settled:
  assumes "sound db" "setInternal B env rnd k v dl db = (r, db')"
  shows "settled db (r = None) db'"
proof (cases "canWrite db")
  case (Some e)
  then have "db' = db \<and> r \<noteq> None"
    using assms(2) by (auto simp: setInternal_def Let_def split: sum.splits if_splits dest: sym)
  then show ?thesis by (auto simp: settled_def)
next
  case None
  have g: "gs_err (db_gsync db) = None"
    using assms(1) None by (auto simp: sound_def canWrite_def split: if_splits)
  from assms(2) None consider "db' = db" "r \<noteq> None"
    | buf e where "writeLog env buf db = (Some e, db')" "r \<noteq> None"
    | buf db1 where "writeLog env buf db = (None, db1)"
        "waitDurable env (db_appendSeq db1) (db1\<lparr>db_state := stateSet B k v dl (db_state db1)\<rparr>) = (r, db')"
    by (auto simp: setInternal_def appendToLog_def Let_def split: sum.splits if_splits prod.splits option.splits)
  then show ?thesis
  proof cases
    case 2
    then show ?thesis using writeLog_err [OF 2(1)] by (auto simp: settled_def)
  next
    case 3
    then show ?thesis
      using append_settles [OF None g 3(1), where s = "stateSet B k v dl (db_state db1)" and w = "db_writerMu db1"]
      by (auto simp: settled_def split: if_splits)
  qed (auto simp: settled_def)
qed

lemma dbDelete_settled:
  assumes "sound db" "dbDelete B env rnd now k db = (r, db')"
  shows "db' = db \<or> settled db (\<exists>b. r = Inr b) db'"
proof (cases "canWrite db")
  case (Some e)
  then have "db' = db"
    using assms(2) by (auto simp: dbDelete_def Let_def split: sum.splits if_splits)
  then show ?thesis by simp
next
  case None
  have g: "gs_err (db_gsync db) = None"
    using assms(1) None by (auto simp: sound_def canWrite_def split: if_splits)
  from assms(2) None consider "db' = db"
    | buf e e' where "writeLog env buf db = (Some e, db')" "r = Inl e'"
    | buf db1 r' where "writeLog env buf db = (None, db1)"
        "waitDurable env (db_appendSeq db1) (db1\<lparr>db_state := fst (stateDelete B k (db_state db1))\<rparr>) = (r', db')"
        "r' = None \<longleftrightarrow> (\<exists>b. r = Inr b)"
    by (auto simp: dbDelete_def appendToLog_def Let_def split: sum.splits if_splits prod.splits option.splits)
  then show ?thesis
  proof cases
    case 2
    then show ?thesis using writeLog_err [OF 2(1)] by (auto simp: settled_def)
  next
    case 3
    then show ?thesis
      using append_settles [OF None g 3(1), where s = "fst (stateDelete B k (db_state db1))" and w = "db_writerMu db1"]
      by (auto simp: settled_def split: if_splits)
  qed simp
qed

lemma txCommit_settled:
  assumes "sound db" "txCommit env hp db tx = (r, hp', db', tx')" "\<not> tx_done tx" "tx_writable tx"
  shows "db' = db\<lparr>db_writerMu := False\<rparr> \<or> settled db (r = None) db'"
proof (cases "canWrite db \<noteq> None \<or> tx_nops tx = 0")
  case True
  then have "db' = db\<lparr>db_writerMu := False\<rparr>"
    using assms(2-4) by (auto simp: txCommit_def releaseSaves_def Let_def)
  then show ?thesis by simp
next
  case False
  then have None: "canWrite db = None" by simp
  have g: "gs_err (db_gsync db) = None"
    using assms(1) None by (auto simp: sound_def canWrite_def split: if_splits)
  define buf where "buf = (if 1 < tx_nops tx then batchPrefix (tx_nops tx) @ tx_pending tx else tx_pending tx)"
  have n: "tx_nops tx \<noteq> 0" using False by simp
  note c = assms(2) [unfolded txCommit_append [OF assms(3,4) None n buf_def]]
  obtain wr db1 where w: "writeLog env buf db = (wr, db1)" by (metis prod.exhaust)
  show ?thesis
  proof (cases wr)
    case (Some e)
    then show ?thesis using c w writeLog_err [of env buf db e db1] by (auto simp: settled_def)
  next
    case wn: None
    then have "waitDurable env (db_appendSeq db1) (db1\<lparr>db_state := tx_state tx, db_writerMu := False\<rparr>) = (r, db')"
      using c w by (auto split: prod.splits)
    from append_settles [OF None g w [unfolded wn] this] show ?thesis by (auto simp: settled_def split: if_splits)
  qed
qed

section \<open>The invariant of a handle\<close>

definition db_ok ::
    "('k::linorder, 'v, 'm, 'n, 'e, 'j) trees \<Rightarrow> walCipher option \<Rightarrow> 'k codec \<Rightarrow> ('k \<Rightarrow> bool) \<Rightarrow> 'v codec
       \<Rightarrow> ('v \<Rightarrow> bool) \<Rightarrow> int \<Rightarrow> ('k, 'v, 'm, 'n, 'e, 'j) db \<Rightarrow> bool" where
  "db_ok B wc kc vK vc vV t db \<longleftrightarrow>
     handle_of wc kc vc db \<and> sound db \<and> (\<exists>hdr its ops. log_inv B vK vV t db hdr its ops)"

lemma db_okI:
  "log_inv B vK vV t db hdr its ops \<Longrightarrow> handle_of wc kc vc db \<Longrightarrow> sound db \<Longrightarrow>
   db_ok B wc kc vK vc vV t db"
  unfolding db_ok_def by blast

lemma log_inv_mono: "log_inv B vK vV t db hdr its ops \<Longrightarrow> t \<le> t' \<Longrightarrow> log_inv B vK vV t' db hdr its ops"
  by (auto simp: log_inv_def state_inv_def intro: agree_mono)

lemma db_ok_mono: "db_ok B wc kc vK vc vV t db \<Longrightarrow> t \<le> t' \<Longrightarrow> db_ok B wc kc vK vc vV t' db"
  unfolding db_ok_def by (meson log_inv_mono)

lemma same_handle_of: "same_handle db db' \<Longrightarrow> handle_of wc kc vc db' = handle_of wc kc vc db"
  by (simp add: same_handle_def handle_of_def)

lemma sound_settled:
  assumes "sound db" "settled db ok db'" "ok \<and> db_policy db = SyncAlways \<Longrightarrow> log_durable db'"
    and "db_policy db' = db_policy db"
  shows "sound db'"
  using assms by (cases ok) (auto simp: sound_def settled_def)

lemma sound_frame [simp]:
  "sound (db\<lparr>db_writerMu := w\<rparr>) = sound db" "sound (db\<lparr>db_state := s\<rparr>) = sound db"
  "sound (db\<lparr>db_compacting := c\<rparr>) = sound db" "sound (db\<lparr>db_syncErr := e\<rparr>) = sound db"
  "sound (db\<lparr>db_compactErr := e\<rparr>) = sound db" "sound (db\<lparr>db_sweepErr := e\<rparr>) = sound db"
  by (simp_all add: sound_def log_durable_def)

lemma log_inv_frame [simp]:
  "log_inv B vK vV t (db\<lparr>db_writerMu := w\<rparr>) hdr its ops = log_inv B vK vV t db hdr its ops"
  "log_inv B vK vV t (db\<lparr>db_compacting := c\<rparr>) hdr its ops = log_inv B vK vV t db hdr its ops"
  "log_inv B vK vV t (db\<lparr>db_syncErr := e\<rparr>) hdr its ops = log_inv B vK vV t db hdr its ops"
  "log_inv B vK vV t (db\<lparr>db_compactErr := e\<rparr>) hdr its ops = log_inv B vK vV t db hdr its ops"
  "log_inv B vK vV t (db\<lparr>db_sweepErr := e\<rparr>) hdr its ops = log_inv B vK vV t db hdr its ops"
  by (simp_all add: log_inv_def)

lemma handle_of_frame [simp]:
  "handle_of wc kc vc (db\<lparr>db_writerMu := w\<rparr>) = handle_of wc kc vc db"
  "handle_of wc kc vc (db\<lparr>db_state := s\<rparr>) = handle_of wc kc vc db"
  "handle_of wc kc vc (db\<lparr>db_compacting := c\<rparr>) = handle_of wc kc vc db"
  "handle_of wc kc vc (db\<lparr>db_syncErr := e\<rparr>) = handle_of wc kc vc db"
  "handle_of wc kc vc (db\<lparr>db_compactErr := e\<rparr>) = handle_of wc kc vc db"
  "handle_of wc kc vc (db\<lparr>db_sweepErr := e\<rparr>) = handle_of wc kc vc db"
  "handle_of wc kc vc (db\<lparr>db_fs := fs\<rparr>) = handle_of wc kc vc db"
  by (simp_all add: handle_of_def)

lemma db_ok_frame [simp]:
  "db_ok B wc kc vK vc vV t (db\<lparr>db_writerMu := w\<rparr>) = db_ok B wc kc vK vc vV t db"
  "db_ok B wc kc vK vc vV t (db\<lparr>db_compacting := c\<rparr>) = db_ok B wc kc vK vc vV t db"
  "db_ok B wc kc vK vc vV t (db\<lparr>db_syncErr := e\<rparr>) = db_ok B wc kc vK vc vV t db"
  "db_ok B wc kc vK vc vV t (db\<lparr>db_compactErr := e\<rparr>) = db_ok B wc kc vK vc vV t db"
  "db_ok B wc kc vK vc vV t (db\<lparr>db_sweepErr := e\<rparr>) = db_ok B wc kc vK vc vV t db"
  by (simp_all add: db_ok_def)

text \<open>The live file untouched: everything stays.\<close>

lemma db_ok_live_kept:
  assumes "db_ok B wc kc vK vc vV t db" "live_kept db fs"
  shows "db_ok B wc kc vK vc vV t (db\<lparr>db_fs := fs\<rparr>)"
proof -
  have "sound (db\<lparr>db_fs := fs\<rparr>) = sound db"
    using assms(2) by (simp add: sound_def log_durable_def live_kept_def)
  with assms log_inv_live_kept show ?thesis unfolding db_ok_def by fastforce
qed

text \<open>
  What a call leaves that does not replace the log file: the log it found, and whole items
  after it; every other file as it was.
\<close>

definition appends ::
    "('k::linorder, 'v, 'm, 'n, 'e, 'j) trees \<Rightarrow> ('k \<Rightarrow> bool) \<Rightarrow> ('v \<Rightarrow> bool) \<Rightarrow> int
       \<Rightarrow> ('k, 'v, 'm, 'n, 'e, 'j) db \<Rightarrow> ('k, 'v, 'm, 'n, 'e, 'j) db \<Rightarrow> bool" where
  "appends B vK vV t db db' \<longleftrightarrow> writers_ran db db' \<and> sound db' \<and>
     (\<forall>hdr its ops. log_inv B vK vV t db hdr its ops \<longrightarrow>
        (\<exists>its' ops'. log_inv B vK vV t db' hdr (its @ its') (ops @ ops')))"

lemma appends_refl: "sound db \<Longrightarrow> appends B vK vV t db db"
  unfolding appends_def by (metis append_Nil2 writers_ran_refl)

lemma appends_trans: "appends B vK vV t db db1 \<Longrightarrow> appends B vK vV t db1 db2 \<Longrightarrow> appends B vK vV t db db2"
  unfolding appends_def by (metis append.assoc writers_ran_trans)

lemma appends_frame:
  "appends B vK vV t db db' \<Longrightarrow> appends B vK vV t db (db'\<lparr>db_writerMu := w\<rparr>)"
  "appends B vK vV t db db' \<Longrightarrow> appends B vK vV t db (db'\<lparr>db_compacting := c\<rparr>)"
  "appends B vK vV t db db' \<Longrightarrow> appends B vK vV t db (db'\<lparr>db_syncErr := e\<rparr>)"
  "appends B vK vV t db db' \<Longrightarrow> appends B vK vV t db (db'\<lparr>db_compactErr := e\<rparr>)"
  "appends B vK vV t db db' \<Longrightarrow> appends B vK vV t db (db'\<lparr>db_sweepErr := e\<rparr>)"
  by (simp_all add: appends_def writers_ran_def same_handle_def)

lemma writers_ran_handle: "writers_ran db db' \<Longrightarrow> handle_of wc kc vc db' = handle_of wc kc vc db"
  by (simp add: writers_ran_def same_handle_def handle_of_def)

lemma appends_ok: "appends B vK vV t db db' \<Longrightarrow> db_ok B wc kc vK vc vV t db \<Longrightarrow> db_ok B wc kc vK vc vV t db'"
  unfolding appends_def db_ok_def using writers_ran_handle by blast

lemma appendsI:
  assumes "db_ok B wc kc vK vc vV t db"
    and "\<And>hdr its ops. log_inv B vK vV t db hdr its ops \<Longrightarrow> writers_ran db db' \<and> sound db' \<and>
      (log_inv B vK vV t db' hdr its ops \<or> (\<exists>its' ops'. log_inv B vK vV t db' hdr (its @ its') (ops @ ops')))"
  shows "appends B vK vV t db db'"
  using assms unfolding appends_def db_ok_def by (metis append_Nil2)

context wal_db
begin

lemma set_appends:
  assumes ok: "db_ok B wc kc vK vc vV t db" and kv: "vK k" "vV v" "int64_range dl" "fits wc kc vc k v"
    and run: "setInternal B env rnd k v dl db = (r, db')"
  shows "appends B vK vV t db db'" "db_writerMu db' = db_writerMu db"
proof -
  have h: "handle_of wc kc vc db" and s: "sound db" using ok by (simp_all add: db_ok_def)
  note st = sound_settled [OF s setInternal_settled [OF s run]]
  note c = setInternal_cases [OF _ h kv run]
  show "appends B vK vV t db db'"
  proof (rule appendsI [OF ok])
    fix hdr its ops assume "log_inv B vK vV t db hdr its ops"
    from c [OF this] show "writers_ran db db' \<and> sound db' \<and>
        (log_inv B vK vV t db' hdr its ops \<or> (\<exists>its' ops'. log_inv B vK vV t db' hdr (its @ its') (ops @ ops')))"
      using st same_handle_writers by (fastforce simp: same_handle_def)
  qed
  show "db_writerMu db' = db_writerMu db" using c ok by (fastforce simp: db_ok_def same_handle_def)
qed

lemma delete_appends:
  assumes ok: "db_ok B wc kc vK vc vV t db" and k: "vK k" "key_fits kc k"
    and run: "dbDelete B env rnd now k db = (r, db')"
  shows "appends B vK vV t db db'" "db_writerMu db' = db_writerMu db"
proof -
  have "appends B vK vV t db db' \<and> db_writerMu db' = db_writerMu db"
  proof (cases "db' = db")
    case False
    have h: "handle_of wc kc vc db" and s: "sound db" using ok by (simp_all add: db_ok_def)
    have st: "settled db (\<exists>b. r = Inr b) db'" using dbDelete_settled [OF s run] False by simp
    have nz: "r \<noteq> Inr False \<or> view B (db_state db) k \<noteq> None"
    proof (rule ccontr)
      assume "\<not> ?thesis"
      then have "db' = db" using run
        by (cases "canWrite db") (auto simp: dbDelete_def view_def d.contains_get Let_def split: sum.splits)
      with False show False by simp
    qed
    from ok obtain hdr its ops where "log_inv B vK vV t db hdr its ops" by (auto simp: db_ok_def)
    from dbDelete_cases [OF this h k run] have mu: "db_writerMu db' = db_writerMu db" by (auto simp: same_handle_def)
    have "appends B vK vV t db db'"
    proof (rule appendsI [OF ok])
      fix hdr its ops assume inv: "log_inv B vK vV t db hdr its ops"
      from dbDelete_cases [OF inv h k run] show "writers_ran db db' \<and> sound db' \<and>
          (log_inv B vK vV t db' hdr its ops \<or> (\<exists>its' ops'. log_inv B vK vV t db' hdr (its @ its') (ops @ ops')))"
        using sound_settled [OF s st] same_handle_writers nz by (fastforce simp: same_handle_def)
    qed
    with mu show ?thesis by blast
  qed (use ok in \<open>simp add: appends_refl db_ok_def\<close>)
  then show "appends B vK vV t db db'" "db_writerMu db' = db_writerMu db" by blast+
qed

lemma commit_appends:
  assumes ok: "db_ok B wc kc vK vc vV t db" and txi: "tx_inv B vK vV db (view B (db_state db)) hp tx rs tops"
    and st: "\<not> tx_done tx" "tx_writable tx" and n: "tx_nops tx < 2 ^ 64"
    and run: "txCommit env hp db tx = (r, hp', db', tx')"
  shows "appends B vK vV t db db'" "\<not> db_writerMu db'"
proof -
  have h: "handle_of wc kc vc db" and s: "sound db" using ok by (simp_all add: db_ok_def)
  have nr: "length rs < 2 ^ 64" using n txi by (simp add: tx_inv_def)
  note c = txCommit_cases [OF _ h txi st nr run]
  show "appends B vK vV t db db'"
  proof (rule appendsI [OF ok])
    fix hdr its ops assume inv: "log_inv B vK vV t db hdr its ops"
    have sh: "same_handle (db\<lparr>db_writerMu := False\<rparr>) db'" using c [OF inv] by blast
    have "sound db'"
    proof (cases "db' = db\<lparr>db_writerMu := False\<rparr>")
      case True
      then show ?thesis using s by simp
    next
      case False
      then have "settled db (r = None) db'" using txCommit_settled [OF s run st] by blast
      then show ?thesis using c [OF inv] False sh by (intro sound_settled [OF s]) (auto simp: same_handle_def)
    qed
    then show "writers_ran db db' \<and> sound db' \<and>
        (log_inv B vK vV t db' hdr its ops \<or> (\<exists>its' ops'. log_inv B vK vV t db' hdr (its @ its') (ops @ ops')))"
      using c [OF inv] by (auto simp: writers_ran_def same_handle_def)
  qed
  show "\<not> db_writerMu db'" using c ok by (auto simp: db_ok_def)
qed

lemma update_appends:
  assumes ok: "db_ok B wc kc vK vc vV t db"
    and bg: "dbBegin B True db = (Inr tx, db1)" and fn: "fn hp db1 tx = (o1, hp1, db1, tx1)"
    and steps: "(txStep B vK vV db1)\<^sup>*\<^sup>* (hp, tx) (hp1, tx1)" and n: "tx_nops tx1 < 2 ^ 64"
    and run: "dbUpdate B env fn hp db = (out, hp', db')"
  shows "appends B vK vV t db db'" "\<not> db_writerMu db'"
proof -
  from ok obtain hdr its ops where inv: "log_inv B vK vV t db hdr its ops" by (auto simp: db_ok_def)
  have db1: "db1 = db\<lparr>db_writerMu := True\<rparr>" by (rule dbBegin_inv(2) [OF inv bg])
  have ok1: "db_ok B wc kc vK vc vV t db1" using ok by (simp add: db1)
  have ap1: "appends B vK vV t db (db\<lparr>db_writerMu := w\<rparr>)" for w
    using ok by (intro appends_frame appends_refl) (simp add: db_ok_def)
  have h1: "handle_of wc kc vc db1" using ok1 by (simp add: db_ok_def)
  from txReach_inv [OF steps h1 dbBegin_inv(1) [OF inv bg]] dbBegin_inv(3,4) [OF inv bg] obtain rs tops where
    t1: "tx_inv B vK vV db1 (view B (db_state db1)) hp1 tx1 rs tops" "\<not> tx_done tx1" "tx_writable tx1"
    by (auto simp: db1)
  have "appends B vK vV t db db' \<and> \<not> db_writerMu db'"
  proof (cases "o1 = Returned None")
    case False
    then have "db' = db\<lparr>db_writerMu := False\<rparr>"
      using run t1(2,3) unfolding dbUpdate_def bg prod.case sum.case fn
      by (cases o1) (auto simp: Let_def txRollback_def releaseSaves_def db1 split: prod.splits option.splits)
    then show ?thesis using ap1 by simp
  next
    case True
    then obtain r' hp2 tx2 where c: "txCommit env hp1 db1 tx1 = (r', hp2, db', tx2)"
      using run unfolding dbUpdate_def bg prod.case sum.case fn by (auto simp: Let_def split: prod.splits)
    from commit_appends [OF ok1 t1 n c] appends_trans [OF ap1 [of True, folded db1]] show ?thesis by blast
  qed
  then show "appends B vK vV t db db'" "\<not> db_writerMu db'" by blast+
qed

end

section \<open>Syncing, closing, indexes, background work\<close>

text \<open>The log as it was, the file possibly synced or closed.\<close>

lemma appends_same:
  assumes "db_ok B wc kc vK vc vV t db" "sound db'" "writers_ran db db'"
    and "\<And>hdr its ops. file_inv db hdr its ops \<Longrightarrow> file_inv db' hdr its ops" "db_state db' = db_state db"
  shows "appends B vK vV t db db'"
  by (rule appendsI [OF assms(1)]) (use assms(2-5) in \<open>simp add: log_inv_def\<close>)

lemma synced_appends:
  assumes ok: "db_ok B wc kc vK vc vV t db"
  defines "f \<equiv> (the_file db)\<lparr>lf_synced := lf_content (the_file db)\<rparr>"
  shows "appends B vK vV t db (set_file f db)" "appends B vK vV t db (markDurable (set_file f db))"
proof -
  from ok obtain hdr its ops where fi: "file_inv db hdr its ops" and s: "sound db" by (auto simp: db_ok_def log_inv_def)
  have dur: "log_durable (set_file f db)" "log_durable (markDurable (set_file f db))"
    using fi unfolding f_def by (auto simp: log_durable_def markDurable_def file_inv_def)
  have w: "writers_ran db (set_file f db)" "writers_ran db (markDurable (set_file f db))"
    by (simp_all add: writers_ran_def same_handle_def markDurable_def)
  have so: "sound (set_file f db)" "sound (markDurable (set_file f db))"
    using s dur by (auto simp: sound_def markDurable_def)
  have "file_inv (set_file f db) hdr its ops" if "file_inv db hdr its ops" for hdr its ops
    using that unfolding f_def by (auto simp: file_inv_def)
  then show "appends B vK vV t db (set_file f db)" by (intro appends_same [OF ok so(1) w(1)]) simp_all
  show "appends B vK vV t db (markDurable (set_file f db))"
    by (rule appends_same [OF ok so(2) w(2)]) (simp add: f_def file_inv_synced, simp add: markDurable_def)
qed

lemma sync_appends:
  assumes ok: "db_ok B wc kc vK vc vV t db" and run: "dbSync env db = (r, db')"
  shows "appends B vK vV t db db'"
proof (cases "db_closed db")
  case True
  then show ?thesis using run ok by (simp add: dbSync_def appends_refl db_ok_def)
next
  case False
  from lf_sync_cases [of "env ''sync''" "the_file db"] show ?thesis
    using run False synced_appends [OF ok] ok by (auto simp: dbSync_def appends_refl db_ok_def)
qed

lemma backgroundSync_appends:
  assumes ok: "db_ok B wc kc vK vc vV t db"
  shows "appends B vK vV t db (backgroundSync env db)"
proof (cases "db_closed db")
  case False
  have "appends B vK vV t db db" using ok by (simp add: appends_refl db_ok_def)
  with lf_sync_cases [of "env ''background sync''" "the_file db"] show ?thesis
    using False synced_appends(1) [OF ok] by (auto simp: backgroundSync_def intro: appends_frame)
qed (use ok in \<open>simp add: backgroundSync_def appends_refl db_ok_def\<close>)

text \<open>The two halves of \<^verbatim>\<open>Close\<close>.\<close>

lemma closeMark_appends:
  assumes ok: "db_ok B wc kc vK vc vV t db"
  shows "appends B vK vV t db (db\<lparr>db_closed := True\<rparr>)"
proof (rule appends_same [OF ok])
  show "sound (db\<lparr>db_closed := True\<rparr>)" using ok by (simp add: db_ok_def sound_def log_durable_def)
qed (auto simp: file_inv_def writers_ran_def same_handle_def)

lemma fileClosed_appends:
  assumes ok: "db_ok B wc kc vK vc vV t db" and c: "db_closed db"
  shows "appends B vK vV t db (set_file ((the_file db)\<lparr>lf_closed := True\<rparr>) db)"
proof (rule appends_same [OF ok])
  show "sound (set_file ((the_file db)\<lparr>lf_closed := True\<rparr>) db)" using ok by (simp add: db_ok_def sound_def log_durable_def)
qed (use c in \<open>auto simp: file_inv_def writers_ran_def same_handle_def\<close>)

lemma closeFinish_appends:
  assumes ok: "db_ok B wc kc vK vc vV t db" and c: "db_closed db" and run: "closeFinish env db = (errs, db')"
  shows "appends B vK vV t db db'"
proof -
  obtain e f where sy: "lf_sync (env ''final sync'') (the_file db) = (e, f)" by (metis prod.exhaust)
  define d where "d = (case e of None \<Rightarrow> markDurable (set_file f db) | Some _ \<Rightarrow> set_file f db)"
  have ap: "appends B vK vV t db d" "db_closed d"
    using lf_sync_cases [of "env ''final sync''" "the_file db"] synced_appends [OF ok] ok c sy
    by (auto simp: d_def appends_refl db_ok_def markDurable_def)
  have "db' = set_file (snd (lf_close (env ''close file'') (the_file d))) d"
    using run sy by (cases e) (auto simp: d_def closeFinish_def Let_def split: prod.splits option.splits)
  then have "db' = d \<or> db' = set_file ((the_file d)\<lparr>lf_closed := True\<rparr>) d" by (auto simp: lf_close_def)
  then show ?thesis using ap appends_trans [OF ap(1) fileClosed_appends [OF appends_ok [OF ap(1) ok] ap(2)]] by blast
qed

lemma close_appends:
  assumes ok: "db_ok B wc kc vK vc vV t db" and run: "dbClose env db = (errs, db')"
  shows "appends B vK vV t db db'"
proof (cases "db_closed db")
  case True
  then show ?thesis using run ok by (simp add: dbClose_def appends_refl db_ok_def)
next
  case False
  note m = closeMark_appends [OF ok]
  have "closeFinish env (db\<lparr>db_closed := True\<rparr>) = (errs, db')" using run False by (simp add: dbClose_def)
  from appends_trans [OF m closeFinish_appends [OF appends_ok [OF m ok] _ this]] show ?thesis by simp
qed

lemma autoCompactEnd_appends:
  "db_ok B wc kc vK vc vV t db \<Longrightarrow> appends B vK vV t db (autoCompactEnd err db)"
  by (auto simp: autoCompactEnd_def Let_def db_ok_def split: option.splits intro: appends_frame appends_refl)

context wal_db
begin

lemma state_appends:
  assumes ok: "db_ok B wc kc vK vc vV t db" and s: "state_wf B s" "view B s = view B (db_state db)"
  shows "appends B vK vV t db (db\<lparr>db_state := s\<rparr>)"
  by (rule appendsI [OF ok])
    (use ok s in \<open>auto simp: db_ok_def log_inv_def state_inv_def writers_ran_def same_handle_def\<close>)

lemma createIndex_appends:
  assumes ok: "db_ok B wc kc vK vc vV t db" and run: "dbCreateIndex B name cmp db = (r, db')"
  shows "appends B vK vV t db db'"
proof -
  have wf: "state_wf B (db_state db)" and s: "sound db" using ok by (auto simp: db_ok_def log_inv_def state_inv_def)
  have "db' = db \<or> r = None \<and> db' = db\<lparr>db_state := db_state db'\<rparr>"
    using run by (auto simp: dbCreateIndex_def Let_def split: option.splits if_splits)
  then show ?thesis using appends_refl [OF s] state_appends [OF ok, of "db_state db'"] createIndex_wf [OF wf] run by metis
qed

lemma dropIndex_appends:
  assumes ok: "db_ok B wc kc vK vc vV t db" and run: "dbDropIndex name db = (r, db')"
  shows "appends B vK vV t db db'"
proof -
  have wf: "state_wf B (db_state db)" and s: "sound db" using ok by (auto simp: db_ok_def log_inv_def state_inv_def)
  have "db' = db \<or> r = None \<and> db' = db\<lparr>db_state := db_state db'\<rparr>"
    using run by (auto simp: dbDropIndex_def Let_def split: if_splits)
  then show ?thesis using appends_refl [OF s] state_appends [OF ok, of "db_state db'"] dropIndex_wf [OF wf] run by metis
qed

text \<open>The sweeper's transaction, on keys that some earlier scan found.\<close>

lemma sweepCommit_appends:
  assumes ok: "db_ok B wc kc vK vc vV t db" and mu: "\<not> db_writerMu db"
    and ks: "list_all (\<lambda>k. vK k \<and> key_fits kc k) ks" "length ks < 2 ^ 64"
    and run: "sweepCommit B env now now' ks db = (r, db')"
  shows "appends B vK vV t db db'" "\<not> db_writerMu db'"
proof -
  have "appends B vK vV t db db' \<and> \<not> db_writerMu db'"
  proof (cases "ks = [] \<or> canWrite db \<noteq> None")
    case True
    then have "db' = db" using run by (cases "ks = []") (auto simp: sweepCommit_def dbUpdate_refused)
    then show ?thesis using ok mu by (simp add: appends_refl db_ok_def)
  next
    case False
    let ?fn = "\<lambda>hp db tx. let (err, tx) = sweepTx B now now' db ks tx in (Returned err, hp, db, tx)"
    let ?db1 = "db\<lparr>db_writerMu := True\<rparr>"
    obtain tx where bg: "dbBegin B True db = (Inr tx, ?db1)" using False by (auto simp: dbBegin_def)
    obtain err tx1 where sw: "sweepTx B now now' ?db1 ks tx = (err, tx1)" by (metis prod.exhaust)
    have h1: "handle_of wc kc vc ?db1" using ok by (simp add: db_ok_def)
    note st = sweepTx_steps [OF h1 ks(1) sw, of "\<lambda>_. None"]
    have "tx_nops tx = 0" using bg by (auto simp: dbBegin_def split: option.splits if_splits)
    then have n: "tx_nops tx1 < 2 ^ 64" using st ks(2) by simp
    obtain out hp' where up: "dbUpdate B env ?fn (\<lambda>_. None) db = (out, hp', db')"
      using run False by (auto simp: sweepCommit_def split: prod.splits)
    have fn: "?fn (\<lambda>_. None) ?db1 tx = (Returned err, \<lambda>_. None, ?db1, tx1)" by (simp add: sw)
    show ?thesis using update_appends [where fn = ?fn, OF ok bg fn conjunct1 [OF st] n up] by blast
  qed
  then show "appends B vK vV t db db'" "\<not> db_writerMu db'" by blast+
qed

end

lemma sweepEnd_appends:
  "appends B vK vV t db db' \<Longrightarrow> appends B vK vV t db (sweepEnd err db')"
  by (auto simp: sweepEnd_def split: option.splits intro: appends_frame)

section \<open>Calls that take the writer lock\<close>

text \<open>
  The calls that hold \<^verbatim>\<open>writerMu\<close> to their end, each with the outcome of its I/O, successful or
  not, and its clock. Keys and values are values of their Go types whose encodings the reader
  accepts.
\<close>

inductive callStep ::
    "('k::linorder, 'v, 'm, 'n, 'e, 'j) trees \<Rightarrow> walCipher option \<Rightarrow> 'k codec \<Rightarrow> ('k \<Rightarrow> bool) \<Rightarrow> 'v codec
       \<Rightarrow> ('v \<Rightarrow> bool) \<Rightarrow> int \<Rightarrow> ('k, 'v, 'm, 'n, 'e, 'j) db \<Rightarrow> ('k, 'v, 'm, 'n, 'e, 'j) db \<Rightarrow> bool"
  for B wc kc vK vc vV where
  do_set: "vK k \<Longrightarrow> vV v \<Longrightarrow> fits wc kc vc k v \<Longrightarrow> dbSet B env rnd k v db = (r, db') \<Longrightarrow>
    callStep B wc kc vK vc vV now db db'"
| do_setTTL: "vK k \<Longrightarrow> vV v \<Longrightarrow> fits wc kc vc k v \<Longrightarrow> dbSetTTL B env rnd now k v ttl db = (r, db') \<Longrightarrow>
    callStep B wc kc vK vc vV now db db'"
| do_delete: "vK k \<Longrightarrow> key_fits kc k \<Longrightarrow> dbDelete B env rnd now k db = (rb, db') \<Longrightarrow>
    callStep B wc kc vK vc vV now db db'"
| do_update: "dbBegin B True db = (Inr tx, db1) \<Longrightarrow> fn hp db1 tx = (o1, hp1, db1, tx1) \<Longrightarrow>
    (txStep B vK vV db1)\<^sup>*\<^sup>* (hp, tx) (hp1, tx1) \<Longrightarrow> tx_nops tx1 < 2 ^ 64 \<Longrightarrow>
    dbUpdate B env fn hp db = (out, hp', db') \<Longrightarrow> callStep B wc kc vK vc vV now db db'"
| do_createIndex: "dbCreateIndex B name cmp db = (r, db') \<Longrightarrow> callStep B wc kc vK vc vV now db db'"
| do_dropIndex: "dbDropIndex name db = (r, db') \<Longrightarrow> callStep B wc kc vK vc vV now db db'"

context wal_db
begin

lemma callStep_appends:
  assumes "callStep B wc kc vK vc vV now db db'" and ok: "db_ok B wc kc vK vc vV t db"
  shows "appends B vK vV t db db'" "\<not> db_writerMu db \<Longrightarrow> \<not> db_writerMu db'"
proof -
  from assms(1) have "appends B vK vV t db db' \<and> (\<not> db_writerMu db \<longrightarrow> \<not> db_writerMu db')"
  proof cases
    case (do_set k v env rnd r)
    then have "setInternal B env rnd k v 0 db = (r, db')" "int64_range 0" by (simp_all add: dbSet_def int64_range_def)
    then show ?thesis using set_appends [OF ok do_set(1,2) _ do_set(3)] by blast
  next
    case (do_setTTL k v env rnd ttl r)
    show ?thesis
    proof (cases "ttl \<le> 0")
      case True
      then show ?thesis using do_setTTL ok by (simp add: dbSetTTL_def appends_refl db_ok_def)
    next
      case False
      then have "setInternal B env rnd k v (deadlineAt now ttl) db = (r, db')" "int64_range (deadlineAt now ttl)"
        using do_setTTL by (simp_all add: dbSetTTL_def deadlineAt_def)
      then show ?thesis using set_appends [OF ok do_setTTL(1,2) _ do_setTTL(3)] by blast
    qed
  next
    case (do_delete k env rnd rb)
    then show ?thesis using delete_appends [OF ok do_delete] by blast
  next
    case (do_update tx db1 fn hp o1 hp1 tx1 env out hp')
    show ?thesis using update_appends [OF ok do_update] by blast
  next
    case (do_createIndex name cmp r)
    then show ?thesis using createIndex_appends [OF ok do_createIndex]
      by (auto simp: dbCreateIndex_def Let_def split: option.splits if_splits)
  next
    case (do_dropIndex name r)
    then show ?thesis using dropIndex_appends [OF ok do_dropIndex]
      by (auto simp: dbDropIndex_def Let_def split: if_splits)
  qed
  then show "appends B vK vV t db db'" "\<not> db_writerMu db \<Longrightarrow> \<not> db_writerMu db'" by blast+
qed

end

section \<open>Opening and crashing\<close>

text \<open>What a fresh process finds on disk is on stable storage.\<close>

definition disk_synced :: "string \<Rightarrow> fsys \<Rightarrow> bool" where
  "disk_synced path fs \<longleftrightarrow> fs_wf fs \<and> lf_synced (openedFile path fs) = lf_content (openedFile path fs)"

lemma openDB_synced:
  assumes ds: "disk_synced path fs" and oc: "openCipher hkdf aesNew (openOptions opts) = Inr wc"
    and run: "openDB B hkdf aesNew io_ok path kc vc opts fs = (Inr db, fs')"
  shows "take (db_walSize db) (lf_synced (the_file db)) = take (db_walSize db) (lf_content (the_file db)) \<and>
    length (lf_content (the_file db)) \<le> length (lf_synced (the_file db)) \<and> gs_err (db_gsync db) = None"
proof -
  have wf: "fs_wf fs" and sy: "lf_synced (openedFile path fs) = lf_content (openedFile path fs)"
    using ds by (simp_all add: disk_synced_def)
  from openDB_unfold [OF wf oc, of path B kc vc] obtain h fs1 where eq:
    "openDB B hkdf aesNew io_ok path kc vc opts fs =
      openedResult B wc kc vc (openOptions opts) path h (openedFile path fs) fs1" by blast
  note eq = eq [unfolded openedResult_def]
  obtain n f where ph: "prepareHeader io_ok (openedFile path fs) wc = (Inr n, f)"
    using run unfolding eq by (auto split: prod.splits sum.splits)
  from prepareHeader_result [OF openedFile_open ph] sy
  have f: "lf_synced f = lf_content f" "\<not> lf_closed f" by (auto simp: openedFile_def emptyFile_def split: option.splits)
  obtain v p e s where rl: "replayLog \<lparr>rd_bytes = drop n (lf_content f), rd_end = None\<rparr>
      (applyRecord B wc kc vc) (newDBState B) = (v, p, e, s)" by (metis prod.exhaust)
  have cl: "\<not> lf_closed (f\<lparr>lf_pos := n\<rparr>)" using f(2) by simp
  have "db = newHandle path kc vc wc (openOptions opts) s h
      (fs_upd h (f\<lparr>lf_content := take (v + n) (lf_content f), lf_pos := v + n\<rparr>) fs1) (v + n)"
    using run unfolding eq ph by (auto simp: rl openTail_ok [OF cl] split: option.splits if_splits)
  then show ?thesis using f(1) by (simp add: newHandle_def)
qed

context wal_db
begin

lemma open_ok:
  assumes ds: "disk_synced path fs" and oc: "openCipher hkdf aesNew (openOptions opts) = Inr wc"
    and run: "openDB B hkdf aesNew io_ok path kc vc opts fs = (Inr db, fs')"
  shows "db_ok B wc kc vK vc vV t db" "\<not> db_writerMu db"
proof -
  have "fs_wf fs" using ds by (simp add: disk_synced_def)
  from openDB_inv [OF this oc run, of t] obtain hdr its ops where
    inv: "log_inv B vK vV t db hdr its ops" and h: "handle_of wc kc vc db" "\<not> db_writerMu db" by blast
  have "db_walSize db \<le> length (lf_content (the_file db))" using inv by (auto simp: log_inv_def file_inv_def)
  with openDB_synced [OF ds oc run] have "sound db" by (simp add: sound_def log_durable_def)
  with inv h show "db_ok B wc kc vK vc vV t db" "\<not> db_writerMu db" by (simp_all add: db_okI)
qed

lemma crash_whole:
  assumes ok: "db_ok B wc kc vK vc vV t db" and pol: "db_policy db = SyncAlways" "db_writeErr db = None"
    and cr: "crash_bytes (the_file db) bs" and fs: "crashed_fs path bs fs"
    and oc: "openCipher hkdf aesNew (openOptions opts) = Inr wc"
  shows "\<exists>db' fs'. openDB B hkdf aesNew io_ok path kc vc opts fs = (Inr db', fs') \<and>
    (\<forall>now\<ge>t. visible now (view B (db_state db')) = visible now (view B (db_state db)))"
proof -
  from ok obtain hdr its ops where inv: "log_inv B vK vV t db hdr its ops" and h: "handle_of wc kc vc db"
    and s: "sound db" by (auto simp: db_ok_def)
  have c: "lf_content (the_file db) = hdr @ logBytes its" "db_walSize db = length (hdr @ logBytes its)"
    using inv pol(2) by (auto simp: log_inv_def file_inv_def)
  have "log_durable db" using s pol by (simp add: sound_def)
  with cr have "bs = hdr @ logBytes its" unfolding crash_bytes_def log_durable_def c by auto
  with backup_opens [OF inv h _ oc] fs show ?thesis by blast
qed

end

section \<open>A handle that refuses writes\<close>

text \<open>
  Once an append or a group sync has failed, or the handle is closed, no call changes the
  contents or the announced log, and the refusal stays.
\<close>

definition frozen :: "('k::linorder, 'v, 'm, 'n, 'e, 'j) trees \<Rightarrow> ('k, 'v, 'm, 'n, 'e, 'j) db \<Rightarrow> ('k, 'v, 'm, 'n, 'e, 'j) db \<Rightarrow> bool" where
  "frozen B db db' \<longleftrightarrow>
     (db_closed db \<longrightarrow> db_closed db') \<and> db_writeErr db' = db_writeErr db \<and> view B (db_state db') = view B (db_state db) \<and>
     db_walSize db' = db_walSize db \<and> lf_content (the_file db') = lf_content (the_file db)"

lemma frozen_refl [simp]: "frozen B db db"
  by (simp add: frozen_def)

lemma frozen_trans: "frozen B db db1 \<Longrightarrow> frozen B db1 db2 \<Longrightarrow> frozen B db db2"
  by (simp add: frozen_def)

lemma frozen_canWrite: "frozen B db db' \<Longrightarrow> canWrite db \<noteq> None \<Longrightarrow> canWrite db' \<noteq> None"
  by (auto simp: frozen_def canWrite_def split: if_splits)

lemma frozen_live_kept: "live_kept db fs \<Longrightarrow> frozen B db (db\<lparr>db_fs := fs\<rparr>)"
  by (simp add: frozen_def live_kept_def)

lemma setInternal_refused:
  "canWrite db = Some e \<Longrightarrow> \<exists>e'. setInternal B env rnd k v dl db = (Some e', db)"
  by (auto simp: setInternal_def Let_def split: sum.splits)

lemma dbDelete_refused: "canWrite db = Some e \<Longrightarrow> \<exists>e'. dbDelete B env rnd now k db = (Inl e', db)"
  by (auto simp: dbDelete_def split: sum.splits)

lemma compactStart_refused: "canWrite db = Some e \<Longrightarrow> compactStart B db = Inl e"
  by (auto simp: compactStart_def canWrite_def split: if_splits)

lemma sweepCommit_refused: "canWrite db = Some e \<Longrightarrow> \<exists>r. sweepCommit B env now now' ks db = (r, db)"
  by (simp add: sweepCommit_def dbUpdate_def dbBegin_def)

lemma callStep_frozen:
  assumes "callStep B wc kc vK vc vV now db db'" and cw: "canWrite db = Some e"
  shows "frozen B db db'"
  using assms(1)
proof cases
  case (do_set k v env rnd r)
  then show ?thesis using setInternal_refused [OF cw, of B env rnd k v 0] by (auto simp: dbSet_def)
next
  case (do_setTTL k v env rnd ttl r)
  then show ?thesis using setInternal_refused [OF cw, of B env rnd k v "deadlineAt now ttl"]
    by (auto simp: dbSetTTL_def split: if_splits)
next
  case (do_delete k env rnd rb)
  then show ?thesis using dbDelete_refused [OF cw, of B env rnd now k] by auto
next
  case (do_update tx db1 fn hp o1 hp1 tx1 env out hp')
  then show ?thesis using cw by (simp add: dbBegin_def)
next
  case (do_createIndex name cmp r)
  then show ?thesis by (auto simp: dbCreateIndex_def Let_def frozen_def view_def split: option.splits if_splits)
next
  case (do_dropIndex name r)
  then show ?thesis by (auto simp: dbDropIndex_def Let_def frozen_def view_def split: if_splits)
qed

lemma sync_frozen: "dbSync env db = (r, db') \<Longrightarrow> frozen B db db'"
  by (auto simp: dbSync_def lf_sync_def frozen_def markDurable_def Let_def split: option.splits if_splits)

lemma backgroundSync_frozen: "frozen B db (backgroundSync env db)"
  by (auto simp: backgroundSync_def lf_sync_def frozen_def split: option.splits)

lemma closeFinish_frozen: "closeFinish env db = (errs, db') \<Longrightarrow> frozen B db db'"
  by (auto simp: closeFinish_def lf_sync_def lf_close_def frozen_def markDurable_def Let_def split: option.splits if_splits prod.splits)

lemma autoCompactEnd_frozen: "frozen B db (autoCompactEnd err db)"
  by (auto simp: autoCompactEnd_def frozen_def Let_def split: option.splits)

lemma sweepEnd_frozen: "frozen B db (sweepEnd err db)"
  by (auto simp: sweepEnd_def frozen_def split: option.splits)

end
