(* ===== verification/Interleave.thy ===== *)
theory Interleave
  imports Database "HOL-Library.Sublist"
begin

text \<open>
  The goroutines of a process around one handle. Every critical section of \<^verbatim>\<open>mu\<close> is a step;
  between the steps of one call the steps of others run, as far as \<^verbatim>\<open>writerMu\<close> and \<^verbatim>\<open>compactMu\<close>
  allow: a transaction stays open while a compaction streams and swaps the file under it,
  writers append while a backup copies, \<^verbatim>\<open>Close\<close> comes in the middle of either.
\<close>

section \<open>The state\<close>

text \<open>
  What the holder of \<^verbatim>\<open>compactMu\<close> carries from one critical section to the next: a compaction
  its snapshot and the offset of the tail, then also the clock of the stream, the temporary
  file and the bytes in it; a \<^verbatim>\<open>BackupTo\<close> or \<^verbatim>\<open>ReadLogRange\<close> the captured file and the end of its
  copy.
\<close>

datatype ('k, 'v, 'm, 'n, 'e, 'j) job =
    Frozen "('k, 'v, 'm, 'n, 'e, 'j) dbState" nat
  | Streamed int "('k, 'v, 'm, 'n, 'e, 'j) dbState" nat nat nat
  | Reading nat nat

text \<open>
  The handle, the open writable transaction with its savepoints (it holds \<^verbatim>\<open>writerMu\<close>), the
  holder of \<^verbatim>\<open>compactMu\<close>, and the clock and keys of a sweep between its scan and its
  transaction.
\<close>

record ('k, 'v, 'm, 'n, 'e, 'j) machine =
  m_db :: "('k, 'v, 'm, 'n, 'e, 'j) db"
  m_tx :: "(('k, 'v, 'm, 'n, 'e, 'j) spstore \<times> ('k, 'v, 'm, 'n, 'e, 'j) tx) option"
  m_job :: "('k, 'v, 'm, 'n, 'e, 'j) job option"
  m_sweep :: "(int \<times> 'k list) option"

definition idle :: "('k, 'v, 'm, 'n, 'e, 'j) db \<Rightarrow> ('k, 'v, 'm, 'n, 'e, 'j) machine" where
  "idle db = \<lparr>m_db = db, m_tx = None, m_job = None, m_sweep = None\<rparr>"

lemma idle_sel [simp]: "m_db (idle db) = db" "m_tx (idle db) = None" "m_job (idle db) = None" "m_sweep (idle db) = None"
  by (simp_all add: idle_def)

section \<open>The steps\<close>

text \<open>Critical sections that leave the contents alone and ask for \<^verbatim>\<open>mu\<close> only.\<close>

inductive quietStep :: "('k, 'v, 'm, 'n, 'e, 'j) db \<Rightarrow> ('k, 'v, 'm, 'n, 'e, 'j) db \<Rightarrow> bool" where
  sync: "dbSync env db = (r, db') \<Longrightarrow> quietStep db db'"
| background: "quietStep db (backgroundSync env db)"
| close_mark: "quietStep db (db\<lparr>db_closed := True\<rparr>)"
| close_finish: "db_closed db \<Longrightarrow> closeFinish env db = (errs, db') \<Longrightarrow> quietStep db db'"
| sweep_end: "quietStep db (sweepEnd err db)"
| auto_end: "quietStep db (autoCompactEnd err db)"

text \<open>The life of a writable transaction, the owner of \<^verbatim>\<open>writerMu\<close>.\<close>

inductive ownerStep ::
    "('k::linorder, 'v, 'm, 'n, 'e, 'j) trees \<Rightarrow> ('k \<Rightarrow> bool) \<Rightarrow> ('v \<Rightarrow> bool)
       \<Rightarrow> ('k, 'v, 'm, 'n, 'e, 'j) db \<times> (('k, 'v, 'm, 'n, 'e, 'j) spstore \<times> ('k, 'v, 'm, 'n, 'e, 'j) tx) option
       \<Rightarrow> ('k, 'v, 'm, 'n, 'e, 'j) db \<times> (('k, 'v, 'm, 'n, 'e, 'j) spstore \<times> ('k, 'v, 'm, 'n, 'e, 'j) tx) option \<Rightarrow> bool"
  for B vK vV where
  tx_begin: "dbBegin B True db = (Inr tx, db') \<Longrightarrow> ownerStep B vK vV (db, None) (db', Some (hp, tx))"
| tx_op: "txStep B vK vV db (hp, tx) (hp', tx') \<Longrightarrow> ownerStep B vK vV (db, Some (hp, tx)) (db, Some (hp', tx'))"
| tx_commit: "tx_nops tx < 2 ^ 64 \<Longrightarrow> txCommit env hp db tx = (r, hp', db', tx') \<Longrightarrow>
    ownerStep B vK vV (db, Some (hp, tx)) (db', None)"
| tx_rollback: "txRollback hp db tx = (hp', db', tx') \<Longrightarrow> ownerStep B vK vV (db, Some (hp, tx)) (db', None)"

text \<open>
  The owner of \<^verbatim>\<open>compactMu\<close>. The stream of a snapshot is one step: it writes a file that no
  other step touches and reads a state that no longer changes.
\<close>

inductive jobStep ::
    "('k::linorder, 'v, 'm, 'n, 'e, 'j) trees \<Rightarrow> walCipher option \<Rightarrow> 'k codec \<Rightarrow> 'v codec \<Rightarrow> int
       \<Rightarrow> ('k, 'v, 'm, 'n, 'e, 'j) db \<times> ('k, 'v, 'm, 'n, 'e, 'j) job option
       \<Rightarrow> ('k, 'v, 'm, 'n, 'e, 'j) db \<times> ('k, 'v, 'm, 'n, 'e, 'j) job option \<Rightarrow> bool"
  for B wc kc vc now where
  compact_start: "compactStart B db = Inr (snap, off) \<Longrightarrow>
    jobStep B wc kc vc now (db, None) (db, Some (Frozen snap off))"
| compact_stream: "(\<And>k v. visible now (view B snap) k = Some v \<Longrightarrow> fits wc kc vc k v) \<Longrightarrow>
    compactStream B env wenv rnds now snap db = (Inr (tmp, n), db') \<Longrightarrow>
    jobStep B wc kc vc now (db, Some (Frozen snap off)) (db', Some (Streamed now snap tmp n off))"
| compact_fail: "(\<And>k v. visible now (view B snap) k = Some v \<Longrightarrow> fits wc kc vc k v) \<Longrightarrow>
    compactStream B env wenv rnds now snap db = (Inl e, db') \<Longrightarrow>
    jobStep B wc kc vc now (db, Some (Frozen snap off)) (db', None)"
| compact_finish: "compactFinish env tmp n off db = (r, db') \<Longrightarrow>
    jobStep B wc kc vc now (db, Some (Streamed streamed snap tmp n off)) (db', None)"
| backup_capture: "backupCapture db = Inr (f, n) \<Longrightarrow> jobStep B wc kc vc now (db, None) (db, Some (Reading f n))"
| read_capture: "readCapture epoch from' mx db = Inr (f, n) \<Longrightarrow>
    jobStep B wc kc vc now (db, None) (db, Some (Reading f (nat from' + n)))"
| read_end: "jobStep B wc kc vc now (db, Some (Reading f n)) (db, None)"
| backup: "dest \<noteq> db_path db \<Longrightarrow> dest @ backupSuffix \<noteq> db_path db \<Longrightarrow> dbBackup env dest db = (r, db') \<Longrightarrow>
    jobStep B wc kc vc now (db, None) (db', None)"

inductive mStep ::
    "('k::linorder, 'v, 'm, 'n, 'e, 'j) trees \<Rightarrow> walCipher option \<Rightarrow> 'k codec \<Rightarrow> ('k \<Rightarrow> bool) \<Rightarrow> 'v codec
       \<Rightarrow> ('v \<Rightarrow> bool) \<Rightarrow> int \<Rightarrow> ('k, 'v, 'm, 'n, 'e, 'j) machine \<Rightarrow> ('k, 'v, 'm, 'n, 'e, 'j) machine \<Rightarrow> bool"
  for B wc kc vK vc vV now where
  call: "m_tx m = None \<Longrightarrow> callStep B wc kc vK vc vV now (m_db m) db' \<Longrightarrow>
    mStep B wc kc vK vc vV now m (m\<lparr>m_db := db'\<rparr>)"
| quiet: "quietStep (m_db m) db' \<Longrightarrow> mStep B wc kc vK vc vV now m (m\<lparr>m_db := db'\<rparr>)"
| owner: "ownerStep B vK vV (m_db m, m_tx m) (db', tx') \<Longrightarrow>
    mStep B wc kc vK vc vV now m (m\<lparr>m_db := db', m_tx := tx'\<rparr>)"
| job: "jobStep B wc kc vc now (m_db m, m_job m) (db', j') \<Longrightarrow>
    mStep B wc kc vK vc vV now m (m\<lparr>m_db := db', m_job := j'\<rparr>)"
| sweep_scan: "m_sweep m = None \<Longrightarrow> (\<And>k. view B (db_state (m_db m)) k \<noteq> None \<Longrightarrow> key_fits kc k) \<Longrightarrow>
    mStep B wc kc vK vc vV now m (m\<lparr>m_sweep := Some (now, sweepScan B now (m_db m))\<rparr>)"
| sweep_commit: "m_sweep m = Some (scanned, ks) \<Longrightarrow> m_tx m = None \<Longrightarrow>
    sweepCommit B env scanned now ks (m_db m) = (r, db') \<Longrightarrow>
    mStep B wc kc vK vc vV now m (m\<lparr>m_db := db', m_sweep := None\<rparr>)"

text \<open>A run whose clock stays below \<open>T\<close>.\<close>

definition mRun ::
    "('k::linorder, 'v, 'm, 'n, 'e, 'j) trees \<Rightarrow> walCipher option \<Rightarrow> 'k codec \<Rightarrow> ('k \<Rightarrow> bool) \<Rightarrow> 'v codec
       \<Rightarrow> ('v \<Rightarrow> bool) \<Rightarrow> int \<Rightarrow> ('k, 'v, 'm, 'n, 'e, 'j) machine \<Rightarrow> ('k, 'v, 'm, 'n, 'e, 'j) machine \<Rightarrow> bool" where
  "mRun B wc kc vK vc vV T = (\<lambda>m m'. \<exists>now\<le>T. mStep B wc kc vK vc vV now m m')\<^sup>*\<^sup>*"

lemma mRun_refl [simp]: "mRun B wc kc vK vc vV T m m"
  by (simp add: mRun_def)

lemma mRun_trans: "mRun B wc kc vK vc vV T m m1 \<Longrightarrow> mRun B wc kc vK vc vV T m1 m2 \<Longrightarrow> mRun B wc kc vK vc vV T m m2"
  unfolding mRun_def by (rule rtranclp_trans)

lemma mRun_step: "now \<le> T \<Longrightarrow> mStep B wc kc vK vc vV now m m' \<Longrightarrow> mRun B wc kc vK vc vV T m m'"
  unfolding mRun_def by (rule r_into_rtranclp) blast

section \<open>The invariant\<close>

text \<open>The records and the private state of an open transaction start from the handle's state.\<close>

definition tx_ok ::
    "('k::linorder, 'v, 'm, 'n, 'e, 'j) trees \<Rightarrow> ('k \<Rightarrow> bool) \<Rightarrow> ('v \<Rightarrow> bool) \<Rightarrow> ('k, 'v, 'm, 'n, 'e, 'j) db
       \<Rightarrow> ('k, 'v, 'm, 'n, 'e, 'j) spstore \<Rightarrow> ('k, 'v, 'm, 'n, 'e, 'j) tx \<Rightarrow> bool" where
  "tx_ok B vK vV db hp tx \<longleftrightarrow> \<not> tx_done tx \<and> tx_writable tx \<and>
     (\<exists>rs tops. tx_inv B vK vV db (view B (db_state db)) hp tx rs tops)"

definition owner_ok ::
    "('k::linorder, 'v, 'm, 'n, 'e, 'j) trees \<Rightarrow> ('k \<Rightarrow> bool) \<Rightarrow> ('v \<Rightarrow> bool) \<Rightarrow> ('k, 'v, 'm, 'n, 'e, 'j) db
       \<Rightarrow> (('k, 'v, 'm, 'n, 'e, 'j) spstore \<times> ('k, 'v, 'm, 'n, 'e, 'j) tx) option \<Rightarrow> bool" where
  "owner_ok B vK vV db txo \<longleftrightarrow>
     (db_writerMu db \<longleftrightarrow> txo \<noteq> None) \<and> (\<forall>hp tx. txo = Some (hp, tx) \<longrightarrow> tx_ok B vK vV db hp tx)"

text \<open>The snapshot of a compaction is the log up to its offset; the captured file is the log.\<close>

fun job_ok ::
    "('k::linorder, 'v, 'm, 'n, 'e, 'j) trees \<Rightarrow> ('k \<Rightarrow> bool) \<Rightarrow> ('v \<Rightarrow> bool) \<Rightarrow> int \<Rightarrow> ('k, 'v, 'm, 'n, 'e, 'j) db
       \<Rightarrow> ('k, 'v, 'm, 'n, 'e, 'j) job \<Rightarrow> bool" where
  "job_ok B vK vV T db (Frozen snap off) \<longleftrightarrow>
     (\<exists>hdr its its' ops ops'. tail_since B vK vV T snap off db hdr its its' ops ops')"
| "job_ok B vK vV T db (Streamed now snap tmp n off) \<longleftrightarrow> now \<le> T \<and>
     (\<exists>hdr its its' ops ops'. tail_since B vK vV T snap off db hdr its its' ops ops') \<and>
     (\<exists>rs. snapshot_file B now snap db tmp n rs)"
| "job_ok B vK vV T db (Reading f n) \<longleftrightarrow> f = db_file db \<and> n \<le> db_walSize db"

definition m_ok ::
    "('k::linorder, 'v, 'm, 'n, 'e, 'j) trees \<Rightarrow> walCipher option \<Rightarrow> 'k codec \<Rightarrow> ('k \<Rightarrow> bool) \<Rightarrow> 'v codec
       \<Rightarrow> ('v \<Rightarrow> bool) \<Rightarrow> int \<Rightarrow> ('k, 'v, 'm, 'n, 'e, 'j) machine \<Rightarrow> bool" where
  "m_ok B wc kc vK vc vV T m \<longleftrightarrow>
     db_ok B wc kc vK vc vV T (m_db m) \<and> owner_ok B vK vV (m_db m) (m_tx m) \<and>
     (\<forall>j. m_job m = Some j \<longrightarrow> job_ok B vK vV T (m_db m) j) \<and>
     (\<forall>t ks. m_sweep m = Some (t, ks) \<longrightarrow> list_all (\<lambda>k. vK k \<and> key_fits kc k) ks \<and> length ks < 2 ^ 64)"

lemma m_ok_idle: "db_ok B wc kc vK vc vV T db \<Longrightarrow> \<not> db_writerMu db \<Longrightarrow> m_ok B wc kc vK vc vV T (idle db)"
  by (simp add: m_ok_def owner_ok_def)

lemma owner_ok_cong:
  assumes "owner_ok B vK vV db txo" "handle_of wc kc vc db" "handle_of wc kc vc db'"
    and "db_state db' = db_state db" "db_writerMu db' = db_writerMu db"
  shows "owner_ok B vK vV db' txo"
  using assms by (simp add: owner_ok_def tx_ok_def tx_inv_def handle_of_def)

text \<open>Appended items join the tail; the temporary file and the captured bytes stay.\<close>

lemma job_ok_appends:
  assumes ap: "appends B vK vV T db db'" and ok: "db_ok B wc kc vK vc vV T db" and j: "job_ok B vK vV T db j"
  shows "job_ok B vK vV T db' j"
proof -
  have w: "writers_ran db db'" using ap by (simp add: appends_def)
  from ok obtain hdr its ops where inv: "log_inv B vK vV T db hdr its ops" by (auto simp: db_ok_def)
  from ap inv obtain its' ops' where inv': "log_inv B vK vV T db' hdr (its @ its') (ops @ ops')"
    unfolding appends_def by blast
  have ts: "\<exists>its2 ops2. tail_since B vK vV T snap off db' h0 i0 its2 o0 ops2"
    if "tail_since B vK vV T snap off db h0 i0 i1 o0 o1" for snap off h0 i0 i1 o0 o1
  proof -
    from that ap obtain i2 o2 where "log_inv B vK vV T db' h0 ((i0 @ i1) @ i2) ((o0 @ o1) @ o2)"
      unfolding tail_since_def appends_def by blast
    then have "tail_since B vK vV T snap off db' h0 i0 (i1 @ i2) o0 (o1 @ o2)" using that by (simp add: tail_since_def)
    then show ?thesis by blast
  qed
  show ?thesis
  proof (cases j)
    case (Reading f n)
    then show ?thesis using j w inv inv'
      by (auto simp: writers_ran_def same_handle_def log_inv_def file_inv_def)
  next
    case (Streamed now snap tmp n off)
    have "file_inv db' hdr (its @ its') (ops @ ops')" using inv' by (simp add: log_inv_def)
    note sf = snapshot_file_writers [OF _ w this]
    from j obtain rs h0 i0 i1 o0 o1 where "now \<le> T" "snapshot_file B now snap db tmp n rs"
      "tail_since B vK vV T snap off db h0 i0 i1 o0 o1" unfolding Streamed job_ok.simps by blast
    then show ?thesis using sf [of B now snap tmp n rs] ts unfolding Streamed job_ok.simps by blast
  next
    case (Frozen snap off)
    show ?thesis using j ts unfolding Frozen job_ok.simps by blast
  qed
qed

section \<open>Every step keeps it\<close>

lemma quietStep_keeps:
  assumes "quietStep db db'" and ok: "db_ok B wc kc vK vc vV T db"
  shows "appends B vK vV T db db' \<and> db_state db' = db_state db \<and> db_writerMu db' = db_writerMu db \<and> frozen B db db'"
proof -
  have s: "sound db" using ok by (simp add: db_ok_def)
  from assms(1) show ?thesis
  proof cases
    case (sync env r)
    then show ?thesis using sync_appends [OF ok sync] sync_frozen [OF sync]
      by (auto simp: dbSync_def markDurable_def split: if_splits prod.splits option.splits)
  next
    case (background env)
    then show ?thesis using backgroundSync_appends [OF ok, where env = env] backgroundSync_frozen [where B = B and db = db and env = env]
      by (auto simp: backgroundSync_def split: prod.splits option.splits)
  next
    case close_mark
    then show ?thesis using closeMark_appends [OF ok] by (simp add: frozen_def)
  next
    case (close_finish env errs)
    then show ?thesis using closeFinish_appends [OF ok close_finish] closeFinish_frozen [OF close_finish(2)]
      by (auto simp: closeFinish_def markDurable_def Let_def split: if_splits prod.splits option.splits)
  next
    case (sweep_end err)
    then show ?thesis using sweepEnd_appends [OF appends_refl [OF s], where err = err] sweepEnd_frozen [where B = B and db = db and err = err]
      by (auto simp: sweepEnd_def split: option.splits)
  next
    case (auto_end err)
    then show ?thesis using autoCompactEnd_appends [OF ok, where err = err] autoCompactEnd_frozen [where B = B and db = db and err = err]
      by (auto simp: autoCompactEnd_def Let_def split: option.splits)
  qed
qed

context wal_db
begin

lemma ownerStep_keeps:
  assumes "ownerStep B vK vV (db, txo) (db', txo')" and ok: "db_ok B wc kc vK vc vV T db" and o: "owner_ok B vK vV db txo"
  shows "appends B vK vV T db db' \<and> owner_ok B vK vV db' txo' \<and> (canWrite db \<noteq> None \<longrightarrow> frozen B db db')"
proof -
  from ok obtain hdr its ops where inv: "log_inv B vK vV T db hdr its ops" and h: "handle_of wc kc vc db"
    and s: "sound db" by (auto simp: db_ok_def)
  have ap: "appends B vK vV T db (db\<lparr>db_writerMu := w\<rparr>)" for w by (rule appends_frame(1) [OF appends_refl [OF s]])
  have fz: "frozen B db (db\<lparr>db_writerMu := w\<rparr>)" for w by (simp add: frozen_def)
  from assms(1) show ?thesis
  proof cases
    case (tx_begin tx hp)
    note b = dbBegin_inv [OF inv tx_begin(3)]
    have "tx_ok B vK vV db' hp tx" unfolding tx_ok_def using b(1) [of hp] b(2-4) by auto
    then show ?thesis using tx_begin(2) ap fz b(2) by (simp add: owner_ok_def)
  next
    case (tx_op hp tx hp' tx')
    have t: "tx_ok B vK vV db hp tx" using o tx_op(1) by (simp add: owner_ok_def)
    then obtain rs tops where i: "tx_inv B vK vV db (view B (db_state db)) hp tx rs tops" by (auto simp: tx_ok_def)
    have "(txStep B vK vV db)\<^sup>*\<^sup>* (hp, tx) (hp', tx')" using tx_op(4) by (rule r_into_rtranclp)
    from txReach_inv [OF this h i] t have "tx_ok B vK vV db hp' tx'" by (auto simp: tx_ok_def)
    then show ?thesis using o tx_op(1-3) appends_refl [OF s] by (simp add: owner_ok_def)
  next
    case (tx_commit tx env hp r hp' tx')
    obtain rs tops where t: "tx_inv B vK vV db (view B (db_state db)) hp tx rs tops" "\<not> tx_done tx" "tx_writable tx"
      using o tx_commit(1) by (auto simp: owner_ok_def tx_ok_def)
    have "frozen B db db'" if "canWrite db \<noteq> None"
      using tx_commit(4) t(2,3) that fz by (auto simp: txCommit_def releaseSaves_def Let_def)
    then show ?thesis using commit_appends [OF ok t tx_commit(3,4)] tx_commit(2) by (simp add: owner_ok_def)
  next
    case (tx_rollback hp tx hp' tx')
    have "tx_ok B vK vV db hp tx" using o tx_rollback(1) by (simp add: owner_ok_def)
    then have "db' = db\<lparr>db_writerMu := False\<rparr>"
      using tx_rollback(3) by (auto simp: txRollback_def releaseSaves_def Let_def tx_ok_def split: if_splits)
    then show ?thesis using ap fz tx_rollback(2) by (simp add: owner_ok_def)
  qed
qed

lemma compactStream_job:
  assumes ok: "db_ok B wc kc vK vc vV T db" and j: "job_ok B vK vV T db (Frozen snap off)"
    and fit: "\<And>k v. visible now (view B snap) k = Some v \<Longrightarrow> fits wc kc vc k v"
    and run: "compactStream B env wenv rnds now snap db = (res, db')" and now: "now \<le> T"
  shows "\<exists>fs. db' = db\<lparr>db_fs := fs\<rparr> \<and> live_kept db fs"
    "res = Inr (tmp, n) \<Longrightarrow> job_ok B vK vV T db' (Streamed now snap tmp n off)"
proof -
  from j obtain hdr its its' ops ops' where ts: "tail_since B vK vV T snap off db hdr its its' ops ops'" by auto
  have inv: "log_inv B vK vV T db hdr (its @ its') (ops @ ops')" using ts by (simp add: tail_since_def)
  have c: "file_inv db hdr (its @ its') (ops @ ops')" "state_wf B snap" "amap_ok vK vV (view B snap)" "handle_of wc kc vc db"
    using ts ok by (simp_all add: tail_since_def log_inv_def db_ok_def)
  note cs = compactStream_cases [OF c(1,4,2,3) fit run]
  then show "\<exists>fs. db' = db\<lparr>db_fs := fs\<rparr> \<and> live_kept db fs" by blast
  then obtain fs where fs: "db' = db\<lparr>db_fs := fs\<rparr>" "live_kept db fs" by blast
  have "tail_since B vK vV T snap off db' hdr its its' ops ops'"
    using ts log_inv_live_kept [OF inv fs(2)] by (simp add: tail_since_def fs(1))
  then show "job_ok B vK vV T db' (Streamed now snap tmp n off)" if "res = Inr (tmp, n)"
    using cs that now unfolding job_ok.simps by blast
qed

lemma compactFinish_job:
  assumes ok: "db_ok B wc kc vK vc vV T db" and j: "job_ok B vK vV T db (Streamed now snap tmp n off)"
    and run: "compactFinish env tmp n off db = (r, db')"
  shows "r \<noteq> None \<and> (\<exists>fs. db' = db\<lparr>db_fs := fs\<rparr> \<and> live_kept db fs) \<or>
    r = None \<and> canWrite db = None \<and> db_ok B wc kc vK vc vV T db' \<and> db_writeErr db' = None \<and>
    db_state db' = db_state db \<and> same_config db db' \<and> db_fileEpoch db' = db_fileEpoch db + 1"
proof -
  have h: "handle_of wc kc vc db" and s: "sound db" using ok by (simp_all add: db_ok_def)
  from j obtain hdr its its' ops ops' rs where ts: "tail_since B vK vV T snap off db hdr its its' ops ops'"
    and sf: "snapshot_file B now snap db tmp n rs" and now: "max T now = T" by auto
  from compactFinish_inv [OF ts h sf run] consider
      "r \<noteq> None" "\<exists>fs. db' = db\<lparr>db_fs := fs\<rparr> \<and> live_kept db fs"
    | its1 ops1 where "r = None" "log_durable db'" "same_config db db'" "db_writeErr db = None" "db_writeErr db' = None"
        "db_fileEpoch db' = db_fileEpoch db + 1" "log_inv B vK vV T db' (headerFor wc) (its1 @ its') (ops1 @ ops')"
        "db_state db' = db_state db"
    unfolding now by blast
  then show ?thesis
  proof cases
    case 2
    have nc: "\<not> db_closed db"
      using run 2(1) by (auto simp: compactFinish_def Let_def)
    then have "sound db'" using s 2 by (auto simp: sound_def same_config_def)
    moreover have "handle_of wc kc vc db'" using h 2(3) by (simp add: same_config_def handle_of_def)
    ultimately show ?thesis using 2 nc by (auto simp: canWrite_def intro: db_okI)
  qed blast
qed

lemma sweepScan_fits:
  assumes ok: "db_ok B wc kc vK vc vV T db" and enc: "\<And>k. view B (db_state db) k \<noteq> None \<Longrightarrow> key_fits kc k"
  shows "list_all (\<lambda>k. vK k \<and> key_fits kc k) (sweepScan B now db) \<and> length (sweepScan B now db) < 2 ^ 64"
proof (cases "db_closed db")
  case False
  from ok obtain hdr its ops where inv: "log_inv B vK vV T db hdr its ops" by (auto simp: db_ok_def)
  then have wf: "state_wf B (db_state db)" by (simp add: log_inv_def state_inv_def)
  from sweepScan_keys [OF wf False, of now] expired_ok [OF inv] enc show ?thesis
    by (fastforce simp: list_all_iff sweepBatchLimit_def)
qed (simp add: sweepScan_def)

text \<open>
  The owner of \<^verbatim>\<open>compactMu\<close> leaves the contents, and the log file unless it swaps in a new one.
\<close>

lemma jobStep_keeps:
  assumes st: "jobStep B wc kc vc now (db, jo) (db', jo')" and ok: "db_ok B wc kc vK vc vV T db" and now: "now \<le> T"
    and "\<forall>j. jo = Some j \<longrightarrow> job_ok B vK vV T db j"
  shows "(\<exists>fs. db' = db\<lparr>db_fs := fs\<rparr> \<and> live_kept db fs) \<and> (\<forall>j. jo' = Some j \<longrightarrow> job_ok B vK vV T db' j) \<or>
    (\<exists>s snap tmp n off. jo = Some (Streamed s snap tmp n off)) \<and> jo' = None \<and> canWrite db = None \<and>
    db_ok B wc kc vK vc vV T db' \<and> db_state db' = db_state db \<and> same_config db db' \<and> db_fileEpoch db' = db_fileEpoch db + 1"
proof -
  have j: "jo = Some j \<Longrightarrow> job_ok B vK vV T db j" for j using assms(4) by blast
  from ok obtain hdr its ops where inv: "log_inv B vK vV T db hdr its ops" by (auto simp: db_ok_def)
  have fi: "file_inv db hdr its ops" using inv by (simp add: log_inv_def)
  have same: "\<exists>fs. db = db\<lparr>db_fs := fs\<rparr> \<and> live_kept db fs"
    by (rule exI [of _ "db_fs db"]) (simp add: live_kept_self [OF fi])
  from st show ?thesis
  proof cases
    case (compact_start snap off)
    have "job_ok B vK vV T db (Frozen snap off)"
      unfolding job_ok.simps using compactStart_tail [OF inv compact_start(4)] by blast
    then show ?thesis using compact_start(1-3) same by simp
  next
    case (compact_stream snap env wenv rnds tmp n off)
    note c = compactStream_job [OF ok j [OF compact_stream(1)] compact_stream(3,4) now]
    show ?thesis using c compact_stream(2) by blast
  next
    case (compact_fail snap env wenv rnds e off)
    show ?thesis using compactStream_job(1) [OF ok j [OF compact_fail(1)] compact_fail(3,4) now] compact_fail(2) by simp
  next
    case (compact_finish env tmp n off r streamed snap)
    from compactFinish_job [OF ok j [OF compact_finish(1)] compact_finish(3)] compact_finish(1,2) show ?thesis by blast
  next
    case (backup_capture f n)
    then show ?thesis using same by (auto simp: backupCapture_def split: if_splits)
  next
    case (read_capture epoch from' mx f n)
    then show ?thesis using same readCapture_Inr [OF read_capture(4)] by auto
  next
    case (read_end f n)
    then show ?thesis using same by simp
  next
    case (backup dest env r)
    from dbBackup_cases [OF fi backup(3-5)] backup(2) show ?thesis by blast
  qed
qed

lemma mStep_ok:
  assumes st: "mStep B wc kc vK vc vV now m m'" and ok: "m_ok B wc kc vK vc vV T m" and now: "now \<le> T"
  shows "m_ok B wc kc vK vc vV T m'"
proof -
  have dok: "db_ok B wc kc vK vc vV T (m_db m)" and o: "owner_ok B vK vV (m_db m) (m_tx m)"
    and jk: "\<forall>j. m_job m = Some j \<longrightarrow> job_ok B vK vV T (m_db m) j"
    and sw: "\<And>t ks. m_sweep m = Some (t, ks) \<Longrightarrow> list_all (\<lambda>k. vK k \<and> key_fits kc k) ks \<and> length ks < 2 ^ 64"
    using ok by (simp_all add: m_ok_def)
  have h: "handle_of wc kc vc (m_db m)" using dok by (simp add: db_ok_def)
  have ap: "db_ok B wc kc vK vc vV T db'" "\<And>j. m_job m = Some j \<Longrightarrow> job_ok B vK vV T db' j"
    if "appends B vK vV T (m_db m) db'" for db'
    using appends_ok [OF that dok] job_ok_appends [OF that dok] jk by blast+
  have free: "owner_ok B vK vV db' None" if "\<not> db_writerMu db'" for db' using that by (simp add: owner_ok_def)
  have mu: "m_tx m = None \<Longrightarrow> \<not> db_writerMu (m_db m)" using o by (simp add: owner_ok_def)
  from st show ?thesis
  proof cases
    case (call db')
    note c = callStep_appends [OF call(3) dok]
    show ?thesis using ap [OF c(1)] free [OF c(2) [OF mu [OF call(2)]]] call(1,2) sw by (simp add: m_ok_def)
  next
    case (quiet db')
    note q = quietStep_keeps [OF quiet(2) dok]
    have a: "appends B vK vV T (m_db m) db'" using q by blast
    have "handle_of wc kc vc db'" using ap(1) [OF a] by (simp add: db_ok_def)
    from owner_ok_cong [OF o h this] q have "owner_ok B vK vV db' (m_tx m)" by blast
    then show ?thesis using ap [OF a] quiet(1) sw by (simp add: m_ok_def)
  next
    case (owner db' tx')
    from ownerStep_keeps [OF owner(2) dok o] show ?thesis using ap owner(1) sw by (simp add: m_ok_def)
  next
    case (job db' j')
    from jobStep_keeps [OF job(2) dok now jk] show ?thesis
    proof (elim disjE conjE exE)
      fix fs assume a: "\<forall>j. j' = Some j \<longrightarrow> job_ok B vK vV T db' j" "db' = (m_db m)\<lparr>db_fs := fs\<rparr>" "live_kept (m_db m) fs"
      have "owner_ok B vK vV db' (m_tx m)" using owner_ok_cong [OF o h] h a(2) by simp
      then show ?thesis using a db_ok_live_kept [OF dok a(3)] job(1) sw by (simp add: m_ok_def)
    next
      assume a: "j' = None" "db_ok B wc kc vK vc vV T db'" "db_state db' = db_state (m_db m)" "same_config (m_db m) db'"
      have "handle_of wc kc vc db'" using a(2) by (simp add: db_ok_def)
      from owner_ok_cong [OF o h this a(3)] a(4) have "owner_ok B vK vV db' (m_tx m)" by (simp add: same_config_def)
      then show ?thesis using a job(1) sw by (simp add: m_ok_def)
    qed
  next
    case sweep_scan
    then show ?thesis using ok sweepScan_fits [OF dok] by (simp add: m_ok_def)
  next
    case (sweep_commit scanned ks env r db')
    note c = sweepCommit_appends [OF dok mu [OF sweep_commit(3)] conjunct1 [OF sw [OF sweep_commit(2)]]
        conjunct2 [OF sw [OF sweep_commit(2)]] sweep_commit(4)]
    show ?thesis using ap [OF c(1)] free [OF c(2)] sweep_commit(1,3) by (simp add: m_ok_def)
  qed
qed

lemma mRun_ok:
  assumes "mRun B wc kc vK vc vV T m m'" "m_ok B wc kc vK vc vV T m"
  shows "m_ok B wc kc vK vc vV T m'"
  using assms(1) unfolding mRun_def
  by (induction rule: rtranclp_induct) (use assms(2) mStep_ok in blast)+

end

section \<open>The log of an epoch\<close>

text \<open>The bytes that \<^verbatim>\<open>LogState\<close> announces.\<close>

definition logPart :: "('k, 'v, 'm, 'n, 'e, 'j) db \<Rightarrow> bytes" where
  "logPart db = take (db_walSize db) (lf_content (the_file db))"

definition grows :: "('k, 'v, 'm, 'n, 'e, 'j) db \<Rightarrow> ('k, 'v, 'm, 'n, 'e, 'j) db \<Rightarrow> bool" where
  "grows db db' \<longleftrightarrow>
     db_fileEpoch db < db_fileEpoch db' \<or>
     db_fileEpoch db' = db_fileEpoch db \<and> prefix (logPart db) (logPart db')"

lemma grows_refl [simp]: "grows db db"
  by (simp add: grows_def)

lemma grows_trans: "grows db db1 \<Longrightarrow> grows db1 db2 \<Longrightarrow> grows db db2"
  unfolding grows_def using prefix_order.trans by fastforce

lemma logPart_inv: "log_inv B vK vV t db hdr its ops \<Longrightarrow> logPart db = hdr @ logBytes its"
  by (auto simp: log_inv_def file_inv_def logPart_def)

lemma appends_grows:
  assumes ap: "appends B vK vV t db db'" and ok: "db_ok B wc kc vK vc vV t db"
  shows "grows db db'" "db_fileEpoch db' = db_fileEpoch db"
proof -
  from ok obtain hdr its ops where inv: "log_inv B vK vV t db hdr its ops" by (auto simp: db_ok_def)
  from ap inv obtain its' ops' where inv': "log_inv B vK vV t db' hdr (its @ its') (ops @ ops')"
    unfolding appends_def by blast
  show e: "db_fileEpoch db' = db_fileEpoch db" using ap by (simp add: appends_def writers_ran_def same_handle_def)
  show "grows db db'" using e by (simp add: grows_def logPart_inv [OF inv] logPart_inv [OF inv'])
qed

lemma logPart_live_kept: "live_kept db fs \<Longrightarrow> logPart (db\<lparr>db_fs := fs\<rparr>) = logPart db"
  by (simp add: logPart_def live_kept_def)

context wal_db
begin

text \<open>What a step does to the log and to a handle that refuses writes.\<close>

lemma mStep_log:
  assumes st: "mStep B wc kc vK vc vV now m m'" and ok: "m_ok B wc kc vK vc vV T m" and now: "now \<le> T"
  shows "grows (m_db m) (m_db m')" "canWrite (m_db m) \<noteq> None \<Longrightarrow> frozen B (m_db m) (m_db m')"
    "m_job m = Some (Reading f n) \<Longrightarrow> db_fileEpoch (m_db m') = db_fileEpoch (m_db m)"
proof -
  have dok: "db_ok B wc kc vK vc vV T (m_db m)" and o: "owner_ok B vK vV (m_db m) (m_tx m)"
    and jk: "\<forall>j. m_job m = Some j \<longrightarrow> job_ok B vK vV T (m_db m) j"
    and sw: "\<And>t ks. m_sweep m = Some (t, ks) \<Longrightarrow> list_all (\<lambda>k. vK k \<and> key_fits kc k) ks \<and> length ks < 2 ^ 64"
    using ok by (simp_all add: m_ok_def)
  note g = appends_grows [OF _ dok]
  let ?P = "\<lambda>db'. grows (m_db m) db' \<and> (canWrite (m_db m) \<noteq> None \<longrightarrow> frozen B (m_db m) db') \<and>
    (\<forall>f n. m_job m = Some (Reading f n) \<longrightarrow> db_fileEpoch db' = db_fileEpoch (m_db m))"
  from st have "?P (m_db m')"
  proof cases
    case (call db')
    have "frozen B (m_db m) db'" if "canWrite (m_db m) \<noteq> None" using that callStep_frozen [OF call(3)] by auto
    then show ?thesis using g [OF callStep_appends(1) [OF call(3) dok]] call(1) by simp
  next
    case (quiet db')
    note q = quietStep_keeps [OF quiet(2) dok]
    show ?thesis using g [OF conjunct1 [OF q]] q quiet(1) by simp
  next
    case (owner db' tx')
    note q = ownerStep_keeps [OF owner(2) dok o]
    show ?thesis using g [OF conjunct1 [OF q]] q owner(1) by simp
  next
    case (job db' j')
    from jobStep_keeps [OF job(2) dok now jk] show ?thesis
    proof (elim disjE conjE exE)
      fix fs assume "db' = (m_db m)\<lparr>db_fs := fs\<rparr>" "live_kept (m_db m) fs"
      then show ?thesis using job(1) by (simp add: grows_def logPart_live_kept frozen_live_kept)
    next
      fix s snap tmp n off assume "m_job m = Some (Streamed s snap tmp n off)" "canWrite (m_db m) = None"
        "db_fileEpoch db' = db_fileEpoch (m_db m) + 1"
      then show ?thesis using job(1) by (simp add: grows_def)
    qed
  next
    case (sweep_commit scanned ks env r db')
    have mu: "\<not> db_writerMu (m_db m)" using o sweep_commit(3) by (simp add: owner_ok_def)
    have "frozen B (m_db m) db'" if cw: "canWrite (m_db m) \<noteq> None"
    proof -
      obtain e where "canWrite (m_db m) = Some e" using cw by auto
      from sweepCommit_refused [OF this, of B env scanned now ks] sweep_commit(4) show ?thesis by auto
    qed
    then show ?thesis using g [OF sweepCommit_appends(1) [OF dok mu conjunct1 [OF sw [OF sweep_commit(2)]]
        conjunct2 [OF sw [OF sweep_commit(2)]] sweep_commit(4)]] sweep_commit(1) by simp
  qed simp
  then show "grows (m_db m) (m_db m')" "canWrite (m_db m) \<noteq> None \<Longrightarrow> frozen B (m_db m) (m_db m')"
    "m_job m = Some (Reading f n) \<Longrightarrow> db_fileEpoch (m_db m') = db_fileEpoch (m_db m)" by blast+
qed

lemma mRun_grows:
  assumes "mRun B wc kc vK vc vV T m m'" "m_ok B wc kc vK vc vV T m"
  shows "grows (m_db m) (m_db m')"
  using assms(1) unfolding mRun_def
proof (induction rule: rtranclp_induct)
  case (step x y)
  have "m_ok B wc kc vK vc vV T x" using mRun_ok [OF _ assms(2)] step.hyps(1) by (simp add: mRun_def)
  then show ?case using step mStep_log(1) grows_trans by blast
qed simp

lemma mRun_frozen:
  assumes "mRun B wc kc vK vc vV T m m'" "m_ok B wc kc vK vc vV T m" "canWrite (m_db m) \<noteq> None"
  shows "frozen B (m_db m) (m_db m') \<and> canWrite (m_db m') \<noteq> None"
  using assms(1) unfolding mRun_def
proof (induction rule: rtranclp_induct)
  case (step x y)
  have ok: "m_ok B wc kc vK vc vV T x" using mRun_ok [OF _ assms(2)] step.hyps(1) by (simp add: mRun_def)
  obtain now where "now \<le> T" "mStep B wc kc vK vc vV now x y" using step.hyps(2) by blast
  from mStep_log(2) [OF this(2) ok this(1)] step.IH show ?case using frozen_trans frozen_canWrite by blast
qed (use assms(3) in simp)

end

section \<open>Reading while others write\<close>

text \<open>Steps of others while a reader holds \<^verbatim>\<open>compactMu\<close>.\<close>

definition mHeld ::
    "('k::linorder, 'v, 'm, 'n, 'e, 'j) trees \<Rightarrow> walCipher option \<Rightarrow> 'k codec \<Rightarrow> ('k \<Rightarrow> bool) \<Rightarrow> 'v codec
       \<Rightarrow> ('v \<Rightarrow> bool) \<Rightarrow> int \<Rightarrow> nat \<Rightarrow> nat \<Rightarrow> ('k, 'v, 'm, 'n, 'e, 'j) machine \<Rightarrow> ('k, 'v, 'm, 'n, 'e, 'j) machine \<Rightarrow> bool" where
  "mHeld B wc kc vK vc vV T f n =
     (\<lambda>m m'. (\<exists>now\<le>T. mStep B wc kc vK vc vV now m m') \<and> m_job m' = Some (Reading f n))\<^sup>*\<^sup>*"

context wal_db
begin

lemma mHeld_keeps:
  assumes run: "mHeld B wc kc vK vc vV T f n m m'" and ok: "m_ok B wc kc vK vc vV T m" and j: "m_job m = Some (Reading f n)"
  shows "m_ok B wc kc vK vc vV T m' \<and> m_job m' = Some (Reading f n) \<and> prefix (logPart (m_db m)) (logPart (m_db m'))"
proof -
  have "m_ok B wc kc vK vc vV T m' \<and> m_job m' = Some (Reading f n) \<and>
    db_fileEpoch (m_db m') = db_fileEpoch (m_db m) \<and> grows (m_db m) (m_db m')"
    using run unfolding mHeld_def
  proof (induction rule: rtranclp_induct)
    case (step x y)
    obtain now where st: "now \<le> T" "mStep B wc kc vK vc vV now x y" "m_job y = Some (Reading f n)" using step.hyps(2) by blast
    have okx: "m_ok B wc kc vK vc vV T x" using step.IH by blast
    note l = mStep_log(1,3) [OF st(2) okx st(1)]
    show ?case using mStep_ok [OF st(2) okx st(1)] st(3) l(2) step.IH grows_trans [OF _ l(1)] by simp
  qed (use ok j in simp)
  then show ?thesis by (auto simp: grows_def)
qed

text \<open>
  The copy of a backup, made at any later moment while compaction is held off, is the log as it
  stood at the capture; a copy that fails is the start of it.
\<close>

lemma held_copy:
  assumes ok: "m_ok B wc kc vK vc vV T m" and cap: "backupCapture (m_db m) = Inr (f, n)"
    and run: "mHeld B wc kc vK vc vV T f n (m\<lparr>m_job := Some (Reading f n)\<rparr>) m'"
    and copy: "lf_copy out 0 n (fs_inode (db_fs (m_db m')) f) = (err, c, bs)"
  shows "c = length bs \<and> prefix bs (logPart (m_db m)) \<and> (err = None \<longrightarrow> bs = logPart (m_db m))"
proof -
  have fn: "f = db_file (m_db m)" "n = db_walSize (m_db m)" using cap by (auto simp: backupCapture_def split: if_splits)
  then have ok1: "m_ok B wc kc vK vc vV T (m\<lparr>m_job := Some (Reading f n)\<rparr>)" using ok by (simp add: m_ok_def)
  from mHeld_keeps [OF run ok1] have ok': "m_ok B wc kc vK vc vV T m'" and j: "m_job m' = Some (Reading f n)"
    and pre: "prefix (logPart (m_db m)) (logPart (m_db m'))" by simp_all
  have f': "f = db_file (m_db m')" "n \<le> db_walSize (m_db m')" using ok' j by (simp_all add: m_ok_def)
  obtain hdr its ops where inv: "log_inv B vK vV T (m_db m') hdr its ops" using ok' by (auto simp: m_ok_def db_ok_def)
  have fi: "file_inv (m_db m') hdr its ops" using inv by (simp add: log_inv_def)
  have len: "length (logPart (m_db m)) = n"
    using ok fn(2) by (auto simp: m_ok_def db_ok_def log_inv_def file_inv_def logPart_def)
  note cp = lf_copy_log [OF fi _ copy [unfolded f'(1)], simplified, OF f'(2)]
  obtain rest where r: "logPart (m_db m') = logPart (m_db m) @ rest" using pre by (auto simp: prefix_def)
  have "bs = take c (logPart (m_db m') )" using cp(3) by (simp add: logPart_inv [OF inv])
  then have "bs = take c (logPart (m_db m))" using cp(2) len by (simp add: r)
  then show ?thesis using cp(1,4) len take_is_prefix [of c "logPart (m_db m)"] by auto
qed

end

end
