(* ===== verification/Follower.thy ===== *)
theory Follower
  imports Interleave
begin

text \<open>
  Log shipping: a follower that polls \<^verbatim>\<open>ReadLogRange\<close> of \<^verbatim>\<open>src/replication.go\<close>, with the steps of
  every other goroutine between its polls and in the middle of each, holds the start of the
  log of its epoch.
\<close>

section \<open>A follower\<close>

text \<open>
  A follower of one epoch holds the bytes it has received and asks for those that follow
  them. A poll captures the file and the length under the lock, which makes it the owner of
  \<^verbatim>\<open>compactMu\<close> until its copy has ended; the copy may fail after some bytes.
\<close>

inductive followStep ::
    "('k::linorder, 'v, 'm, 'n, 'e, 'j) trees \<Rightarrow> walCipher option \<Rightarrow> 'k codec \<Rightarrow> ('k \<Rightarrow> bool) \<Rightarrow> 'v codec
       \<Rightarrow> ('v \<Rightarrow> bool) \<Rightarrow> int \<Rightarrow> nat \<Rightarrow> ('k, 'v, 'm, 'n, 'e, 'j) machine \<times> (nat \<times> nat) option \<times> bytes
       \<Rightarrow> ('k, 'v, 'm, 'n, 'e, 'j) machine \<times> (nat \<times> nat) option \<times> bytes \<Rightarrow> bool"
  for B wc kc vK vc vV T epoch where
  other: "now \<le> T \<Longrightarrow> mStep B wc kc vK vc vV now m m' \<Longrightarrow> pd = None \<or> m_job m' = m_job m \<Longrightarrow>
    followStep B wc kc vK vc vV T epoch (m, pd, rep) (m', pd, rep)"
| capture: "m_job m = None \<Longrightarrow> readCapture epoch (int (length rep)) mx (m_db m) = Inr (f, n) \<Longrightarrow>
    followStep B wc kc vK vc vV T epoch (m, None, rep)
      (m\<lparr>m_job := Some (Reading f (length rep + n))\<rparr>, Some (f, n), rep)"
| copy: "readCopy env f n (int (length rep)) (m_db m) = (err, c, out) \<Longrightarrow>
    followStep B wc kc vK vc vV T epoch (m, Some (f, n), rep) (m\<lparr>m_job := None\<rparr>, None, rep @ out)"

text \<open>The bytes a copy adds continue the log.\<close>

lemma copy_extends:
  assumes inv: "log_inv B vK vV t db hdr its ops" and pre: "prefix rep (logPart db)"
    and le: "length rep + n \<le> db_walSize db"
    and run: "readCopy env (db_file db) n (int (length rep)) db = (err, c, out)"
  shows "prefix (rep @ out) (logPart db)"
proof -
  have fi: "file_inv db hdr its ops" using inv by (simp add: log_inv_def)
  obtain more where more: "logPart db = rep @ more" using pre by (auto simp: prefix_def)
  have "out = take c (drop (length rep) (logPart db))"
    using readCopy_bytes(3) [OF fi _ run] le by (simp add: logPart_inv [OF inv])
  then have "out = take c more" by (simp add: more)
  then show ?thesis unfolding more using take_is_prefix [of c more] by simp
qed

text \<open>
  At some moment of the run the log of the epoch began with what the follower now holds. In
  the middle of a poll the epoch is current and the follower owns \<^verbatim>\<open>compactMu\<close>.
\<close>

definition follow_at ::
    "('k::linorder, 'v, 'm, 'n, 'e, 'j) trees \<Rightarrow> walCipher option \<Rightarrow> 'k codec \<Rightarrow> ('k \<Rightarrow> bool) \<Rightarrow> 'v codec
       \<Rightarrow> ('v \<Rightarrow> bool) \<Rightarrow> int \<Rightarrow> nat \<Rightarrow> ('k, 'v, 'm, 'n, 'e, 'j) machine \<Rightarrow> ('k, 'v, 'm, 'n, 'e, 'j) machine
       \<Rightarrow> (nat \<times> nat) option \<Rightarrow> bytes \<Rightarrow> bool" where
  "follow_at B wc kc vK vc vV T epoch m0 m pd rep \<longleftrightarrow>
     (\<exists>mx. mRun B wc kc vK vc vV T m0 mx \<and> mRun B wc kc vK vc vV T mx m \<and>
        db_fileEpoch (m_db mx) = epoch \<and> prefix rep (logPart (m_db mx))) \<and>
     (\<forall>f n. pd = Some (f, n) \<longrightarrow>
        m_job m = Some (Reading f (length rep + n)) \<and> db_fileEpoch (m_db m) = epoch)"

context wal_db
begin

lemma followStep_at:
  assumes ok: "m_ok B wc kc vK vc vV T m0" and st: "followStep B wc kc vK vc vV T epoch (m, pd, rep) (m', pd', rep')"
    and at: "follow_at B wc kc vK vc vV T epoch m0 m pd rep"
  shows "follow_at B wc kc vK vc vV T epoch m0 m' pd' rep'"
proof -
  from at obtain mx where x: "mRun B wc kc vK vc vV T m0 mx" "mRun B wc kc vK vc vV T mx m"
    "db_fileEpoch (m_db mx) = epoch" "prefix rep (logPart (m_db mx))" by (auto simp: follow_at_def)
  have run1: "mRun B wc kc vK vc vV T m0 m" by (rule mRun_trans [OF x(1,2)])
  have okm: "m_ok B wc kc vK vc vV T m" by (rule mRun_ok [OF run1 ok])
  have step: "follow_at B wc kc vK vc vV T epoch m0 m1 pd1 rep"
    if "mStep B wc kc vK vc vV now m m1" "now \<le> T"
      "\<And>f n. pd1 = Some (f, n) \<Longrightarrow> m_job m1 = Some (Reading f (length rep + n)) \<and> db_fileEpoch (m_db m1) = epoch"
    for now m1 pd1
    unfolding follow_at_def using x mRun_trans [OF x(2) mRun_step [OF that(2,1)]] that(3) by blast
  from st show ?thesis
  proof cases
    case (other now)
    have "m_job m' = Some (Reading f (length rep + n)) \<and> db_fileEpoch (m_db m') = epoch" if "pd = Some (f, n)" for f n
    proof -
      have j: "m_job m = Some (Reading f (length rep + n))" "db_fileEpoch (m_db m) = epoch"
        using at that by (simp_all add: follow_at_def)
      then show ?thesis using mStep_log(3) [OF other(4) okm other(3) j(1)] other(5) that by simp
    qed
    then show ?thesis using step [OF other(4,3)] other(1,2) by simp
  next
    case (capture mx f n)
    have "jobStep B wc kc vc T (m_db m, m_job m) (m_db m, Some (Reading f (length rep + n)))"
      using jobStep.read_capture [OF capture(6), of B wc kc vc T] capture(5) by simp
    from mStep.job [OF this] have s: "mStep B wc kc vK vc vV T m m'" using capture(2) by simp
    have "follow_at B wc kc vK vc vV T epoch m0 m' (Some (f, n)) rep"
      by (rule step [OF s order_refl]) (use readCapture_Inr [OF capture(6)] capture(2) in simp)
    then show ?thesis using capture(3,4) by simp
  next
    case (copy env f n err c out)
    have j: "m_job m = Some (Reading f (length rep + n))" "db_fileEpoch (m_db m) = epoch"
      using at copy(1) by (simp_all add: follow_at_def)
    have job: "f = db_file (m_db m)" "length rep + n \<le> db_walSize (m_db m)" using okm j(1) by (simp_all add: m_ok_def)
    obtain hdr its ops where inv: "log_inv B vK vV T (m_db m) hdr its ops" using okm by (auto simp: m_ok_def db_ok_def)
    have "grows (m_db mx) (m_db m)" by (rule mRun_grows [OF x(2) mRun_ok [OF x(1) ok]])
    then have "prefix rep (logPart (m_db m))" using x(3,4) j(2) prefix_order.trans by (auto simp: grows_def)
    from copy_extends [OF inv this job(2) copy(5) [unfolded job(1)]] have p: "prefix (rep @ out) (logPart (m_db m))" .
    have "jobStep B wc kc vc T (m_db m, m_job m) (m_db m, None)" unfolding j(1) by (rule jobStep.read_end)
    from mStep.job [OF this] have s: "mStep B wc kc vK vc vV T m m'" using copy(2) by simp
    show ?thesis unfolding follow_at_def using run1 mRun_step [OF order_refl s] j(2) p copy(3,4) by blast
  qed
qed

lemma follow_inv:
  assumes ok: "m_ok B wc kc vK vc vV T m0" and ep: "epoch = db_fileEpoch (m_db m0)"
    and run: "(followStep B wc kc vK vc vV T epoch)\<^sup>*\<^sup>* (m0, None, []) (m, pd, rep)"
  shows "follow_at B wc kc vK vc vV T epoch m0 m pd rep"
  using run
proof (induction "(m, pd, rep)" arbitrary: m pd rep rule: rtranclp_induct)
  case base
  then show ?case unfolding follow_at_def using ep by (intro conjI exI [of _ m0]) simp_all
next
  case (step y)
  obtain m1 pd1 rep1 where y: "y = (m1, pd1, rep1)" by (cases y)
  show ?case by (rule followStep_at [OF ok step.hyps(2) [unfolded y] step.hyps(3) [OF y]])
qed

lemma replica_opens:
  assumes inv: "log_inv B vK vV t db hdr its ops" and h: "handle_of wc kc vc db" and pre: "prefix rep (logPart db)"
    and len: "length hdr \<le> length rep" and fs: "crashed_fs path rep fs"
    and oc: "openCipher hkdf aesNew (openOptions opts) = Inr wc"
  shows "\<exists>j\<le>length its. \<exists>res fs'. openDB B hkdf aesNew io_ok path kc vc opts fs = (res, fs') \<and>
    (res = Inl ErrCorrupt \<and> \<not> o_truncateAtCorrupt (openOptions opts) \<or>
     (\<exists>db'. res = Inr db' \<and> view B (db_state db') = apOps (take (length (logRecs (take j its))) ops) Map.empty))"
proof -
  obtain more where "hdr @ logBytes its = rep @ more" using pre by (auto simp: logPart_inv [OF inv] prefix_def)
  then have rep: "rep = hdr @ take (length rep - length hdr) (logBytes its)" and "length rep - length hdr \<le> length (logBytes its)"
    using len by (auto simp: append_eq_append_conv2)
  have f: "hdr_ok wc hdr" "list_all item_ok its" "denotes wc kc vc (logRecs its) ops"
    using inv h by (auto simp: log_inv_def file_inv_def handle_of_def)
  have c: "lf_content (openedFile path fs) = hdr @ take (length rep - length hdr) (logBytes its)"
    using openedFile_crashed [OF fs] rep by simp
  have wf: "fs_wf fs" using fs by (simp add: crashed_fs_def)
  let ?j = "wholeItems (length rep - length hdr) its"
  from openDB_recovers [OF wf oc c f \<open>length rep - length hdr \<le> length (logBytes its)\<close>, of t]
  show ?thesis using wholeItems_le [of "length rep - length hdr" its] by (intro exI [of _ ?j]) blast
qed

end

end
