(* ===== verification/PowerCut.thy ===== *)
theory PowerCut
  imports Interleave
begin

text \<open>
  Power cuts. Bytes are on stable storage after an fsync of their file, names after an fsync
  of their directory: what a cut leaves of each file is its synced bytes and some of those
  that follow, and under each name the file of the last directory sync or the current one.
\<close>

section \<open>The cut\<close>

definition power_cut :: "fsys \<Rightarrow> fsys \<Rightarrow> bool" where
  "power_cut fs fs' \<longleftrightarrow> fs_wf fs' \<and>
     (\<forall>p. fs_cur fs' p = fs_cur fs p \<or> fs_cur fs' p = fs_dur fs p) \<and>
     (\<forall>i. crash_bytes (fs_inode fs i) (lf_content (fs_inode fs' i)))"

text \<open>The kernel may have written back everything.\<close>

lemma crash_bytes_all [simp]: "crash_bytes f (lf_content f)"
  unfolding crash_bytes_def by (intro exI [of _ "max (length (lf_content f)) (length (lf_synced f))"]) auto

lemma power_cut_refl: "fs_wf fs \<Longrightarrow> power_cut fs fs"
  by (simp add: power_cut_def)

text \<open>The directory on stable storage has the log under its name.\<close>

definition dir_synced :: "('k, 'v, 'm, 'n, 'e, 'j) db \<Rightarrow> bool" where
  "dir_synced db \<longleftrightarrow> fs_dur (db_fs db) (db_path db) = Some (db_file db)"

lemma power_cut_path:
  assumes "power_cut fs fs'" "fs_cur fs p = Some i" "fs_dur fs p = Some j"
  shows "\<exists>h bs. (h = i \<or> h = j) \<and> crashed_fs p bs fs' \<and> crash_bytes (fs_inode fs h) bs"
  using assms unfolding power_cut_def crashed_fs_def by metis

text \<open>\<^verbatim>\<open>Open\<close> syncs the directory; only the swap of a compaction can leave it behind.\<close>

lemma open_dir_synced:
  assumes "fs_wf fs" "openCipher hkdf aesNew (openOptions opts) = Inr wc"
    and run: "openDB B hkdf aesNew io_ok path kc vc opts fs = (Inr db, fs')"
  shows "dir_synced db" "db_path db = path"
proof -
  from openDB_unfold [OF assms(1,2), of path B kc vc] obtain h fs1 where d: "fs_dur fs1 path = Some h" and eq:
    "openDB B hkdf aesNew io_ok path kc vc opts fs =
      openedResult B wc kc vc (openOptions opts) path h (openedFile path fs) fs1" by blast
  note eq = eq [unfolded openedResult_def]
  show "dir_synced db" "db_path db = path"
    using run d unfolding eq by (auto simp: dir_synced_def newHandle_def split: prod.splits sum.splits option.splits)
qed

text \<open>
  What the second critical section does to the directory: nothing, or the rename, on stable
  storage if the directory sync works. The file it replaces stays, under no name.
\<close>

lemma compactFinish_dir:
  assumes sf: "snapshot_file B now snap db tmp n rs" and run: "compactFinish env tmp n off db = (r, db')"
  shows "r \<noteq> None \<Longrightarrow> fs_dur (db_fs db') = fs_dur (db_fs db)"
    and "r = None \<Longrightarrow> db_path db' = db_path db \<and> db_file db' = tmp \<and> tmp \<noteq> db_file db \<and>
      fs_cur (db_fs db') = (fs_cur (db_fs db))(db_path db @ compactSuffix := None, db_path db := Some tmp) \<and>
      fs_dur (db_fs db') = (if env ''sync dir'' = None then fs_cur (db_fs db') else fs_dur (db_fs db)) \<and>
      lf_content (fs_inode (db_fs db') (db_file db)) = lf_content (the_file db) \<and>
      lf_synced (fs_inode (db_fs db') (db_file db)) = lf_synced (the_file db)"
proof -
  have t: "fs_cur (db_fs db) (db_path db @ compactSuffix) = Some tmp" "tmp \<noteq> db_file db"
    using sf by (simp_all add: snapshot_file_def tmp_at_def)
  show "fs_dur (db_fs db') = fs_dur (db_fs db)" if "r \<noteq> None"
    using run that t
    by (auto simp: compactFinish_def Let_def discard_def fsRemove_def fsRename_def split: if_splits option.splits prod.splits)
  show "db_path db' = db_path db \<and> db_file db' = tmp \<and> tmp \<noteq> db_file db \<and>
      fs_cur (db_fs db') = (fs_cur (db_fs db))(db_path db @ compactSuffix := None, db_path db := Some tmp) \<and>
      fs_dur (db_fs db') = (if env ''sync dir'' = None then fs_cur (db_fs db') else fs_dur (db_fs db)) \<and>
      lf_content (fs_inode (db_fs db') (db_file db)) = lf_content (the_file db) \<and>
      lf_synced (fs_inode (db_fs db') (db_file db)) = lf_synced (the_file db)" if "r = None"
    using run that t
    by (auto simp: compactFinish_def Let_def fsRename_def fsSyncDir_def closeFile_def lf_close_def markDurable_def
        split: if_splits option.splits prod.splits)
qed

lemma discard_dur [simp]: "fs_dur (discard env tmp p fs) = fs_dur fs"
  by (auto simp: discard_def fsRemove_def split: option.splits)

lemma fsCreate_dur: "fsCreate out p fs = (r, fs') \<Longrightarrow> fs_dur fs' = fs_dur fs"
  by (auto simp: fsCreate_def fs_new_def Let_def split: option.splits)

lemma compactStream_dur:
  assumes "compactStream B env wenv rnds now snap db = (res, db')"
  shows "fs_dur (db_fs db') = fs_dur (db_fs db)"
  using assms fsCreate_dur [of "env ''create temp''" "db_path db @ compactSuffix" "db_fs db"]
  by (auto simp: compactStream_def Let_def split: prod.splits sum.splits option.splits)

lemma dbBackup_dur:
  assumes "dbBackup env dest db = (r, db')"
  shows "fs_dur (db_fs db') = fs_dur (db_fs db) \<or> fs_dur (db_fs db') = fs_cur (db_fs db')"
proof -
  obtain c fs where "fsCreate (env ''create temp'') (dest @ backupSuffix) (db_fs db) = (c, fs)" by (metis prod.exhaust)
  with fsCreate_dur [OF this] assms show ?thesis
    by (auto simp: dbBackup_def Let_def fsRename_def fsSyncDir_def split: prod.splits sum.splits option.splits if_splits)
qed

context wal_db
begin

lemma mStep_dir:
  assumes st: "mStep B wc kc vK vc vV now m m'" and ok: "m_ok B wc kc vK vc vV T m" and now: "now \<le> T"
    and dir: "dir_synced (m_db m)"
  shows "dir_synced (m_db m') \<or> db_fileEpoch (m_db m') = db_fileEpoch (m_db m) + 1"
proof -
  have dok: "db_ok B wc kc vK vc vV T (m_db m)" and o: "owner_ok B vK vV (m_db m) (m_tx m)"
    using ok by (simp_all add: m_ok_def)
  have ap: "dir_synced db'" if "appends B vK vV T (m_db m) db'" for db'
    using that dir by (simp add: appends_def writers_ran_def same_handle_def dir_synced_def)
  from st show ?thesis
  proof cases
    case (job db' j')
    from job(2) show ?thesis
    proof cases
      case (compact_finish env tmp n off r s snap)
      have "job_ok B vK vV T (m_db m) (Streamed s snap tmp n off)" using ok compact_finish(1) by (simp add: m_ok_def)
      then obtain rs where "snapshot_file B s snap (m_db m) tmp n rs" by auto
      note d = compactFinish_dir(1) [OF this compact_finish(3)]
      from compactFinish_job [OF dok \<open>job_ok B vK vV T (m_db m) (Streamed s snap tmp n off)\<close> compact_finish(3)]
      show ?thesis using d dir job(1) by (auto simp: dir_synced_def)
    next
      case (backup dest env r)
      obtain hdr its ops where "file_inv (m_db m) hdr its ops" using dok by (auto simp: db_ok_def log_inv_def)
      from dbBackup_cases [OF this backup(3-5)] dbBackup_dur [OF backup(5)] show ?thesis
        using dir job(1) by (auto simp: dir_synced_def live_kept_def)
    next
      case (compact_stream snap env wenv rnds tmp n off)
      have "job_ok B vK vV T (m_db m) (Frozen snap off)" using ok compact_stream(1) by (simp add: m_ok_def)
      from compactStream_job(1) [OF dok this compact_stream(3,4) now] compactStream_dur [OF compact_stream(4)]
      show ?thesis using dir job(1) by (auto simp: dir_synced_def)
    next
      case (compact_fail snap env wenv rnds e off)
      have "job_ok B vK vV T (m_db m) (Frozen snap off)" using ok compact_fail(1) by (simp add: m_ok_def)
      from compactStream_job(1) [OF dok this compact_fail(3,4) now] compactStream_dur [OF compact_fail(4)]
      show ?thesis using dir job(1) by (auto simp: dir_synced_def)
    qed (use dir job(1) in simp_all)
  next
    case (sweep_commit scanned ks env r db')
    have "\<not> db_writerMu (m_db m)" using o sweep_commit(3) by (simp add: owner_ok_def)
    moreover have "list_all (\<lambda>k. vK k \<and> key_fits kc k) ks" "length ks < 2 ^ 64" using ok sweep_commit(2) by (simp_all add: m_ok_def)
    ultimately show ?thesis using ap [OF sweepCommit_appends(1) [OF dok _ _ _ sweep_commit(4)]] sweep_commit(1) by simp
  qed (use ap callStep_appends(1) [OF _ dok] quietStep_keeps [OF _ dok] ownerStep_keeps [OF _ dok o] dir in auto)
qed

lemma cut_whole:
  assumes ok: "db_ok B wc kc vK vc vV t db" and pol: "db_policy db = SyncAlways" "db_writeErr db = None"
    and dir: "dir_synced db" and cut: "power_cut (db_fs db) fs"
    and oc: "openCipher hkdf aesNew (openOptions opts) = Inr wc"
  shows "\<exists>db' fs'. openDB B hkdf aesNew io_ok (db_path db) kc vc opts fs = (Inr db', fs') \<and>
    (\<forall>now\<ge>t. visible now (view B (db_state db')) = visible now (view B (db_state db)))"
proof -
  have "fs_cur (db_fs db) (db_path db) = Some (db_file db)" using ok by (auto simp: db_ok_def log_inv_def file_inv_def)
  from power_cut_path [OF cut this] dir obtain bs where "crashed_fs (db_path db) bs fs" "crash_bytes (the_file db) bs"
    by (auto simp: dir_synced_def)
  then show ?thesis by (intro crash_whole [OF ok pol _ _ oc])
qed

end

section \<open>The swap of a compaction\<close>

context wal_db
begin

text \<open>
  A cut anywhere in the second critical section, the directory entry old or new, recovers the
  contents: the outcomes \<open>env\<close> put the failure, and with it the cut, at each of its operations.
\<close>

lemma cut_in_swap:
  assumes ok: "db_ok B wc kc vK vc vV T db" and j: "job_ok B vK vV T db (Streamed s snap tmp n off)"
    and pol: "db_policy db = SyncAlways" "db_writeErr db = None" and dir: "dir_synced db"
    and run: "compactFinish env tmp n off db = (r, db')" and cut: "power_cut (db_fs db') fs"
    and oc: "openCipher hkdf aesNew (openOptions opts) = Inr wc"
  shows "\<exists>db2 fs2. openDB B hkdf aesNew io_ok (db_path db) kc vc opts fs = (Inr db2, fs2) \<and>
    (\<forall>now\<ge>T. visible now (view B (db_state db2)) = visible now (view B (db_state db)))"
proof -
  obtain rs where sf: "snapshot_file B s snap db tmp n rs" using j by auto
  note d = compactFinish_dir [OF sf run]
  from compactFinish_job [OF ok j run] show ?thesis
  proof (elim disjE conjE exE)
    fix fs1 assume a: "r \<noteq> None" "db' = db\<lparr>db_fs := fs1\<rparr>" "live_kept db fs1"
    have "dir_synced db'" using dir d(1) [OF a(1)] by (simp add: dir_synced_def a(2))
    moreover have "db_ok B wc kc vK vc vV T db'" unfolding a(2) by (rule db_ok_live_kept [OF ok a(3)])
    ultimately show ?thesis using cut_whole [OF _ _ _ _ cut oc] pol by (simp add: a(2))
  next
    assume r: "r = None" and a: "db_ok B wc kc vK vc vV T db'" "db_state db' = db_state db" "same_config db db'"
      "db_writeErr db' = None"
    have f: "db_policy db' = SyncAlways" using a(3) pol by (simp add: same_config_def)
    have du: "fs_dur (db_fs db') (db_path db) = Some (db_file db') \<or> fs_dur (db_fs db') (db_path db) = Some (db_file db)"
      using d(2) [OF r] dir by (auto simp: dir_synced_def)
    have cu: "fs_cur (db_fs db') (db_path db) = Some (db_file db')" using d(2) [OF r] by simp
    from du obtain h bs where hb: "h = db_file db' \<or> h = db_file db" "crashed_fs (db_path db) bs fs"
      "crash_bytes (fs_inode (db_fs db') h) bs" using power_cut_path [OF cut cu] by blast
    have old: "crash_bytes (fs_inode (db_fs db') (db_file db)) bs = crash_bytes (the_file db) bs"
      using d(2) [OF r] by (simp add: crash_bytes_def)
    from hb show ?thesis
      using crash_whole [OF a(1) f a(4) _ hb(2) oc] crash_whole [OF ok pol _ hb(2) oc] old a(2) by auto
  qed
qed

text \<open>
  A swap whose directory sync failed leaves the old entry on stable storage: calls after it,
  acknowledged or not, are gone with a cut that keeps the old entry.
\<close>

lemma calls_append:
  assumes "(\<lambda>d d'. \<exists>now. callStep B wc kc vK vc vV now d d')\<^sup>*\<^sup>* db db'" "db_ok B wc kc vK vc vV T db"
  shows "appends B vK vV T db db'"
  using assms(1)
proof (induction rule: rtranclp_induct)
  case base
  then show ?case using assms(2) by (simp add: appends_refl db_ok_def)
next
  case (step y z)
  then obtain now where "callStep B wc kc vK vc vV now y z" by blast
  from appends_trans [OF step.IH callStep_appends(1) [OF this appends_ok [OF step.IH assms(2)]]] show ?case .
qed

lemma lost_after_swap:
  assumes ok: "db_ok B wc kc vK vc vV T db" and j: "job_ok B vK vV T db (Streamed s snap tmp n off)"
    and pol: "db_policy db = SyncAlways" and dir: "dir_synced db"
    and run: "compactFinish env tmp n off db = (None, db1)" and sd: "env ''sync dir'' \<noteq> None"
    and calls: "(\<lambda>d d'. \<exists>now. callStep B wc kc vK vc vV now d d')\<^sup>*\<^sup>* db1 db2"
    and oc: "openCipher hkdf aesNew (openOptions opts) = Inr wc"
  shows "\<exists>fs db3 fs3. power_cut (db_fs db2) fs \<and>
    openDB B hkdf aesNew io_ok (db_path db) kc vc opts fs = (Inr db3, fs3) \<and>
    (\<forall>now\<ge>T. visible now (view B (db_state db3)) = visible now (view B (db_state db)))"
proof -
  obtain rs where sf: "snapshot_file B s snap db tmp n rs" using j by auto
  note d = compactFinish_dir(2) [OF sf run refl]
  let ?p = "db_path db" and ?h = "db_file db"
  have ok1: "db_ok B wc kc vK vc vV T db1" and cw: "canWrite db = None" using compactFinish_job [OF ok j run] by auto
  then have we: "db_writeErr db = None" by (auto simp: canWrite_def split: if_splits)
  have w: "writers_ran db1 db2" using calls_append [OF calls ok1] by (simp add: appends_def)
  have k: "fs_cur (db_fs db2) = (fs_cur (db_fs db))(?p @ compactSuffix := None, ?p := Some tmp)"
      "fs_dur (db_fs db2) ?p = Some ?h" "fs_next (db_fs db2) = fs_next (db_fs db1)"
      "fs_inode (db_fs db2) ?h = fs_inode (db_fs db1) ?h"
    using w d sd dir by (auto simp: writers_ran_def same_handle_def dir_synced_def)
  define fs where "fs = (db_fs db2)\<lparr>fs_cur := (fs_cur (db_fs db2))(?p := Some ?h)\<rparr>"
  have live: "fs_cur (db_fs db) ?p = Some ?h" "fs_wf (db_fs db)" using ok by (auto simp: db_ok_def log_inv_def file_inv_def)
  have wf: "fs_wf fs"
  proof (rule fs_wf_forget [of "db_fs db" fs "?p @ compactSuffix"])
    show "fs_cur fs = (fs_cur (db_fs db))(?p @ compactSuffix := None)" using live(1) by (auto simp: fs_def k(1))
    show "fs_next fs = fs_next (db_fs db)"
      using run k(3) by (auto simp: fs_def compactFinish_def Let_def fsRename_def markDurable_def split: if_splits option.splits prod.splits)
  qed (rule live(2))
  have "power_cut (db_fs db2) fs" using wf k(2) by (simp add: power_cut_def fs_def)
  moreover have "crashed_fs ?p (lf_content (the_file db)) fs"
    using wf k(4) d by (simp add: crashed_fs_def fs_def)
  ultimately show ?thesis using crash_whole [OF ok pol we crash_bytes_all _ oc] by blast
qed

end

end
