(* ===== verification/GroupCommit.thy ===== *)
theory GroupCommit
  imports Db
begin

text \<open>
  Group commit, \<^verbatim>\<open>src/groupcommit.go\<close>, with many goroutines. Each goroutine has a program
  counter in \<^verbatim>\<open>waitDurable\<close>; a step is one critical section of \<^verbatim>\<open>gs.mu\<close> or \<^verbatim>\<open>db.mu\<close>, or one
  fsync, which runs with no lock held. Beside the waiters run appends, \<^verbatim>\<open>Sync\<close>, the swap of a
  compaction and the two halves of \<^verbatim>\<open>Close\<close>. The policy is \<^verbatim>\<open>SyncAlways\<close>.

  Ghost state: \<open>gc_held h\<close> is how many appends the file behind handle \<open>h\<close> holds and \<open>gc_disk h\<close>
  how many of them an fsync has put on stable storage; \<open>gc_acked\<close> has the appends for which
  \<^verbatim>\<open>waitDurable\<close> returned nil. The theorems: an acknowledged append is on stable storage in
  the current file, whatever the interleaving; a waiter is never left asleep with nobody to
  wake it; once the appends stop, every waiter returns within a bounded number of steps.
\<close>

section \<open>States and steps\<close>

datatype gcPc =
    Idle
  | Check nat
  | Blocked nat
  | Lead nat
  | Sync nat nat nat
  | Failed nat nat nat goerr
  | Poison nat nat goerr
  | Finish nat nat "goerr option"
  | Done nat "goerr option"

record gcState =
  gc_appendSeq :: nat
  gc_file :: nat
  gc_next :: nat
  gc_retired :: "nat set"
  gc_closed :: bool
  gc_final :: bool
  gc_writeErr :: "goerr option"
  gc_gs :: groupSync
  gc_pc :: "nat \<Rightarrow> gcPc"
  gc_held :: "nat \<Rightarrow> nat"
  gc_disk :: "nat \<Rightarrow> nat"
  gc_acked :: "nat set"

definition gcInit :: gcState where
  "gcInit = \<lparr>gc_appendSeq = 0, gc_file = 0, gc_next = 1, gc_retired = {}, gc_closed = False, gc_final = False,
             gc_writeErr = None, gc_gs = \<lparr>gs_synced = 0, gs_syncing = False, gs_err = None\<rparr>,
             gc_pc = (\<lambda>_. Idle), gc_held = (\<lambda>_. 0), gc_disk = (\<lambda>_. 0), gc_acked = {}\<rparr>"

abbreviation goto :: "nat \<Rightarrow> gcPc \<Rightarrow> gcState \<Rightarrow> gcState" where
  "goto t p g \<equiv> g\<lparr>gc_pc := (gc_pc g)(t := p)\<rparr>"

text \<open>\<^verbatim>\<open>cond.Broadcast\<close>: whoever waits will look at the condition again.\<close>

fun wake :: "gcPc \<Rightarrow> gcPc" where
  "wake (Blocked seq) = Check seq"
| "wake p = p"

definition broadcast :: "gcState \<Rightarrow> gcState" where
  "broadcast g = g\<lparr>gc_pc := wake \<circ> gc_pc g\<rparr>"

text \<open>The head of the loop, and what follows it when the loop ends.\<close>

definition gcCheck :: "nat \<Rightarrow> nat \<Rightarrow> gcState \<Rightarrow> gcState" where
  "gcCheck t seq g =
     (let gs = gc_gs g
      in if gs_synced gs < seq \<and> gs_err gs = None
         then (if gs_syncing gs then goto t (Blocked seq) g
               else goto t (Lead seq) (g\<lparr>gc_gs := gs\<lparr>gs_syncing := True\<rparr>\<rparr>))
         else (let durable = seq \<le> gs_synced gs
               in goto t (Done seq (if durable then None else gs_err gs))
                    (g\<lparr>gc_acked := (if durable then insert seq (gc_acked g) else gc_acked g)\<rparr>)))"

text \<open>The leader reads the handle and the sequence it will cover.\<close>

definition gcRead :: "nat \<Rightarrow> nat \<Rightarrow> gcState \<Rightarrow> gcState" where
  "gcRead t seq g =
     (if gc_closed g then goto t (Finish seq (gc_appendSeq g) (Some ErrClosed)) g
      else goto t (Sync seq (gc_file g) (gc_appendSeq g)) g)"

definition gcSyncOk :: "nat \<Rightarrow> nat \<Rightarrow> nat \<Rightarrow> nat \<Rightarrow> gcState \<Rightarrow> gcState" where
  "gcSyncOk t seq h cover g =
     goto t (Finish seq cover None) (g\<lparr>gc_disk := (gc_disk g)(h := gc_held g h)\<rparr>)"

text \<open>After a failed fsync: a handle that a compaction retired is no failure.\<close>

definition gcSwapped :: "nat \<Rightarrow> nat \<Rightarrow> nat \<Rightarrow> nat \<Rightarrow> goerr \<Rightarrow> gcState \<Rightarrow> gcState" where
  "gcSwapped t seq h cover e g =
     (if gc_file g \<noteq> h then goto t (Finish seq cover None) g else goto t (Poison seq cover e) g)"

definition gcPoison :: "nat \<Rightarrow> nat \<Rightarrow> nat \<Rightarrow> goerr \<Rightarrow> gcState \<Rightarrow> gcState" where
  "gcPoison t seq cover e g =
     goto t (Finish seq cover (Some e))
       (g\<lparr>gc_writeErr := (if gc_writeErr g = None then Some e else gc_writeErr g)\<rparr>)"

definition gcFinish :: "nat \<Rightarrow> nat \<Rightarrow> nat \<Rightarrow> goerr option \<Rightarrow> gcState \<Rightarrow> gcState" where
  "gcFinish t seq cover err g =
     (let gs = (gc_gs g)\<lparr>gs_syncing := False\<rparr>;
          gs = (if err \<noteq> None then gs\<lparr>gs_err := err\<rparr>
                else if gs_synced gs < cover then gs\<lparr>gs_synced := cover\<rparr> else gs)
      in goto t (Check seq) (broadcast (g\<lparr>gc_gs := gs\<rparr>)))"

definition gcMarkDurable :: "gcState \<Rightarrow> gcState" where
  "gcMarkDurable g =
     (let gs = gc_gs g
      in broadcast (g\<lparr>gc_gs := (if gs_synced gs < gc_appendSeq g then gs\<lparr>gs_synced := gc_appendSeq g\<rparr> else gs)\<rparr>))"

text \<open>The fsync of the current file that \<^verbatim>\<open>Sync\<close> and \<^verbatim>\<open>Close\<close> run under the lock.\<close>

definition gcSyncFile :: "gcState \<Rightarrow> gcState" where
  "gcSyncFile g =
     gcMarkDurable (g\<lparr>gc_disk := (gc_disk g)(gc_file g := gc_held g (gc_file g))\<rparr>)"

definition gcAppend :: "nat \<Rightarrow> gcState \<Rightarrow> gcState" where
  "gcAppend t g =
     goto t (Check (gc_appendSeq g + 1))
       (g\<lparr>gc_appendSeq := gc_appendSeq g + 1, gc_held := (gc_held g)(gc_file g := gc_appendSeq g + 1)\<rparr>)"

text \<open>The new file holds every append so far and was synced before the rename.\<close>

definition gcSwap :: "gcState \<Rightarrow> gcState" where
  "gcSwap g =
     gcMarkDurable (g\<lparr>gc_retired := insert (gc_file g) (gc_retired g), gc_file := gc_next g,
                      gc_next := gc_next g + 1,
                      gc_held := (gc_held g)(gc_next g := gc_appendSeq g),
                      gc_disk := (gc_disk g)(gc_next g := gc_appendSeq g)\<rparr>)"

definition gcCloseFile :: "gcState \<Rightarrow> gcState" where
  "gcCloseFile g = g\<lparr>gc_retired := insert (gc_file g) (gc_retired g), gc_final := True\<rparr>"

definition gcCanWrite :: "gcState \<Rightarrow> bool" where
  "gcCanWrite g \<longleftrightarrow> \<not> gc_closed g \<and> gc_writeErr g = None"

fun free :: "gcPc \<Rightarrow> bool" where
  "free Idle = True" | "free (Done seq err) = True" | "free _ = False"

text \<open>One step of a goroutine in \<^verbatim>\<open>waitDurable\<close>. An fsync of a closed handle fails.\<close>

inductive waitStep :: "gcState \<Rightarrow> gcState \<Rightarrow> bool" where
  check: "gc_pc g t = Check seq \<Longrightarrow> waitStep g (gcCheck t seq g)"
| read: "gc_pc g t = Lead seq \<Longrightarrow> waitStep g (gcRead t seq g)"
| sync_ok: "gc_pc g t = Sync seq h cover \<Longrightarrow> h \<notin> gc_retired g \<Longrightarrow> waitStep g (gcSyncOk t seq h cover g)"
| sync_fail: "gc_pc g t = Sync seq h cover \<Longrightarrow> waitStep g (goto t (Failed seq h cover e) g)"
| swapped: "gc_pc g t = Failed seq h cover e \<Longrightarrow> waitStep g (gcSwapped t seq h cover e g)"
| poison: "gc_pc g t = Poison seq cover e \<Longrightarrow> waitStep g (gcPoison t seq cover e g)"
| finish: "gc_pc g t = Finish seq cover err \<Longrightarrow> waitStep g (gcFinish t seq cover err g)"

text \<open>What the rest of the database does meanwhile.\<close>

inductive otherStep :: "gcState \<Rightarrow> gcState \<Rightarrow> bool" where
  append: "free (gc_pc g t) \<Longrightarrow> gcCanWrite g \<Longrightarrow> otherStep g (gcAppend t g)"
| append_fail: "free (gc_pc g t) \<Longrightarrow> gcCanWrite g \<Longrightarrow> otherStep g (g\<lparr>gc_writeErr := Some e\<rparr>)"
| sync: "\<not> gc_closed g \<Longrightarrow> otherStep g (gcSyncFile g)"
| swap: "gcCanWrite g \<Longrightarrow> otherStep g (gcSwap g)"
| close: "\<not> gc_closed g \<Longrightarrow> otherStep g (g\<lparr>gc_closed := True\<rparr>)"
| close_ok: "gc_closed g \<Longrightarrow> \<not> gc_final g \<Longrightarrow> otherStep g (gcCloseFile (gcSyncFile g))"
| close_fail: "gc_closed g \<Longrightarrow> \<not> gc_final g \<Longrightarrow> otherStep g (gcCloseFile g)"

definition gcStep :: "gcState \<Rightarrow> gcState \<Rightarrow> bool" where
  "gcStep g g' \<longleftrightarrow> waitStep g g' \<or> otherStep g g'"

definition gcReachable :: "gcState \<Rightarrow> bool" where
  "gcReachable g \<longleftrightarrow> gcStep\<^sup>*\<^sup>* gcInit g"

section \<open>Invariant\<close>

fun leading :: "gcPc \<Rightarrow> bool" where
  "leading (Lead _) = True" | "leading (Sync _ _ _) = True" | "leading (Failed _ _ _ _) = True"
| "leading (Poison _ _ _) = True" | "leading (Finish _ _ _) = True" | "leading _ = False"

text \<open>What is known of a goroutine by its program counter.\<close>

fun pc_ok :: "gcState \<Rightarrow> gcPc \<Rightarrow> bool" where
  "pc_ok g Idle \<longleftrightarrow> True"
| "pc_ok g (Check seq) \<longleftrightarrow> seq \<le> gc_appendSeq g"
| "pc_ok g (Blocked seq) \<longleftrightarrow> seq \<le> gc_appendSeq g \<and> gs_syncing (gc_gs g)"
| "pc_ok g (Lead seq) \<longleftrightarrow> seq \<le> gc_appendSeq g"
| "pc_ok g (Sync seq h cover) \<longleftrightarrow> seq \<le> gc_appendSeq g \<and> cover \<le> gc_appendSeq g \<and> cover \<le> gc_held g h \<and>
     h < gc_next g \<and> (h \<noteq> gc_file g \<longrightarrow> cover \<le> gc_disk g (gc_file g))"
| "pc_ok g (Failed seq h cover e) \<longleftrightarrow> seq \<le> gc_appendSeq g \<and> cover \<le> gc_appendSeq g \<and>
     h < gc_next g \<and> (h \<noteq> gc_file g \<longrightarrow> cover \<le> gc_disk g (gc_file g))"
| "pc_ok g (Poison seq cover e) \<longleftrightarrow> seq \<le> gc_appendSeq g"
| "pc_ok g (Finish seq cover err) \<longleftrightarrow> seq \<le> gc_appendSeq g \<and> (err = None \<longrightarrow> cover \<le> gc_disk g (gc_file g))"
| "pc_ok g (Done seq err) \<longleftrightarrow> (err = None \<longrightarrow> seq \<in> gc_acked g)"

definition leaders :: "(nat \<Rightarrow> gcPc) \<Rightarrow> nat set" where
  "leaders pc = {t. leading (pc t)}"

definition gc_inv :: "gcState \<Rightarrow> bool" where
  "gc_inv g \<longleftrightarrow>
     gs_synced (gc_gs g) \<le> gc_disk g (gc_file g) \<and> gc_disk g (gc_file g) \<le> gc_appendSeq g \<and>
     gc_held g (gc_file g) = gc_appendSeq g \<and> gc_file g < gc_next g \<and>
     (\<forall>s \<in> gc_acked g. s \<le> gc_disk g (gc_file g)) \<and> (\<forall>t. pc_ok g (gc_pc g t)) \<and>
     (\<exists>l. leaders (gc_pc g) = (if gs_syncing (gc_gs g) then {l} else {})) \<and>
     finite {t. gc_pc g t \<noteq> Idle}"

lemma gc_inv_init: "gc_inv gcInit"
  by (simp add: gc_inv_def gcInit_def leaders_def)

lemma leading_wake [simp]: "leading (wake p) = leading p"
  by (cases p) simp_all

lemma wake_Idle [simp]: "wake p = Idle \<longleftrightarrow> p = Idle"
  by (cases p) simp_all

lemma wake_Blocked [simp]: "wake p \<noteq> Blocked seq"
  by (cases p) simp_all

lemma wake_moved: "wake p \<noteq> p \<Longrightarrow> pc_ok g p \<Longrightarrow> gc_appendSeq g \<le> gc_appendSeq g' \<Longrightarrow> pc_ok g' (wake p)"
  by (cases p) simp_all

text \<open>What a step must keep for the goroutines it does not move.\<close>

lemma pc_ok_mono:
  assumes "pc_ok g p" "gc_appendSeq g \<le> gc_appendSeq g'" "gc_next g \<le> gc_next g'"
    and "gc_acked g \<subseteq> gc_acked g'" "gc_disk g (gc_file g) \<le> gc_disk g' (gc_file g')"
    and "\<And>seq. p = Blocked seq \<Longrightarrow> gs_syncing (gc_gs g')"
    and "\<And>h. h < gc_next g \<Longrightarrow> gc_held g h \<le> gc_held g' h"
    and "gc_file g' = gc_file g \<or> gc_appendSeq g \<le> gc_disk g' (gc_file g')"
  shows "pc_ok g' p"
  using assms by (cases p) (fastforce intro: order_trans)+

lemma gc_invI:
  assumes inv: "gc_inv g"
    and "gs_synced (gc_gs g') \<le> gc_disk g' (gc_file g')" "gc_disk g' (gc_file g') \<le> gc_appendSeq g'"
    and "gc_held g' (gc_file g') = gc_appendSeq g'" "gc_file g' < gc_next g'"
    and mono: "gc_appendSeq g \<le> gc_appendSeq g'" "gc_next g \<le> gc_next g'"
      "gc_acked g \<subseteq> gc_acked g'" "gc_disk g (gc_file g) \<le> gc_disk g' (gc_file g')"
      "\<And>h. h < gc_next g \<Longrightarrow> gc_held g h \<le> gc_held g' h"
      "gc_file g' = gc_file g \<or> gc_appendSeq g \<le> gc_disk g' (gc_file g')"
    and acked: "\<And>s. s \<in> gc_acked g' \<Longrightarrow> s \<in> gc_acked g \<or> s \<le> gc_disk g' (gc_file g')"
    and moved: "\<And>u. gc_pc g' u \<noteq> gc_pc g u \<Longrightarrow> pc_ok g' (gc_pc g' u)"
    and blocked: "\<And>u seq. gc_pc g' u = Blocked seq \<Longrightarrow> gs_syncing (gc_gs g')"
    and lead: "\<exists>l. leaders (gc_pc g') = (if gs_syncing (gc_gs g') then {l} else {})"
    and fin: "{u. gc_pc g' u \<noteq> Idle} \<subseteq> insert t {u. gc_pc g u \<noteq> Idle}"
  shows "gc_inv g'"
proof -
  have "pc_ok g' (gc_pc g' u)" for u
  proof (cases "gc_pc g' u = gc_pc g u")
    case True
    have "pc_ok g (gc_pc g u)" using inv by (simp add: gc_inv_def)
    from pc_ok_mono [OF this mono(1-4) _ mono(5,6)] blocked [of u] True show ?thesis by auto
  qed (use moved in blast)
  moreover have "finite {u. gc_pc g' u \<noteq> Idle}" using fin inv finite_subset by (fastforce simp: gc_inv_def)
  moreover have "\<forall>s \<in> gc_acked g'. s \<le> gc_disk g' (gc_file g')"
    using acked inv mono(4) unfolding gc_inv_def by (meson order_trans)
  ultimately show ?thesis using assms(2-5) lead by (simp add: gc_inv_def)
qed

lemma leaders_upd [simp]:
  "leaders (pc(t := p)) = (if leading p then insert t (leaders pc) else leaders pc - {t})"
  "leaders (wake \<circ> pc) = leaders pc"
  by (auto simp: leaders_def)

lemma inv_facts:
  assumes "gc_inv g"
  shows "pc_ok g (gc_pc g t)"
    and "leading (gc_pc g t) \<Longrightarrow> gs_syncing (gc_gs g) \<and> leaders (gc_pc g) = {t}"
    and "gs_syncing (gc_gs g) \<Longrightarrow> \<exists>l. leaders (gc_pc g) = {l}" "\<not> gs_syncing (gc_gs g) \<Longrightarrow> leaders (gc_pc g) = {}"
proof -
  obtain l where l: "leaders (gc_pc g) = (if gs_syncing (gc_gs g) then {l} else {})" using assms by (auto simp: gc_inv_def)
  show "pc_ok g (gc_pc g t)" using assms by (simp add: gc_inv_def)
  show "gs_syncing (gc_gs g) \<and> leaders (gc_pc g) = {t}" if "leading (gc_pc g t)"
  proof -
    have "t \<in> leaders (gc_pc g)" using that by (simp add: leaders_def)
    then show ?thesis using l by (auto split: if_splits)
  qed
  show "gs_syncing (gc_gs g) \<Longrightarrow> \<exists>l. leaders (gc_pc g) = {l}" "\<not> gs_syncing (gc_gs g) \<Longrightarrow> leaders (gc_pc g) = {}"
    using l by auto
qed

lemma not_leading: "\<not> leading (gc_pc g t) \<Longrightarrow> leaders (gc_pc g) - {t} = leaders (gc_pc g)"
  by (auto simp: leaders_def)

lemma blocked_syncing: "gc_inv g \<Longrightarrow> gc_pc g u = Blocked seq \<Longrightarrow> gs_syncing (gc_gs g)"
  using inv_facts(1) [of g u] by simp

lemma wait_inv:
  assumes "waitStep g g'" and inv: "gc_inv g"
  shows "gc_inv g'"
  using assms(1)
proof cases
  case (check t seq)
  then show ?thesis using inv inv_facts(1,2) [OF inv, of t] inv_facts(3,4) [OF inv] not_leading [of g t] blocked_syncing [OF inv]
    by (intro gc_invI [OF inv, where t = t]) (auto simp: gcCheck_def gc_inv_def Let_def split: if_splits)
next
  case (read t seq)
  then show ?thesis using inv inv_facts(1,2) [OF inv, of t] blocked_syncing [OF inv]
    by (intro gc_invI [OF inv, where t = t]) (auto simp: gcRead_def gc_inv_def split: if_splits)
next
  case (sync_ok t seq h cover)
  then show ?thesis using inv inv_facts(1,2) [OF inv, of t] blocked_syncing [OF inv]
    by (intro gc_invI [OF inv, where t = t]) (auto simp: gcSyncOk_def gc_inv_def split: if_splits)
next
  case (sync_fail t seq h cover e)
  then show ?thesis using inv inv_facts(1,2) [OF inv, of t] blocked_syncing [OF inv]
    by (intro gc_invI [OF inv, where t = t]) (auto simp: gc_inv_def split: if_splits)
next
  case (swapped t seq h cover e)
  then show ?thesis using inv inv_facts(1,2) [OF inv, of t] blocked_syncing [OF inv]
    by (intro gc_invI [OF inv, where t = t]) (auto simp: gcSwapped_def gc_inv_def split: if_splits)
next
  case (poison t seq cover e)
  then show ?thesis using inv inv_facts(1,2) [OF inv, of t] blocked_syncing [OF inv]
    by (intro gc_invI [OF inv, where t = t]) (auto simp: gcPoison_def gc_inv_def split: if_splits)
next
  case (finish t seq cover err)
  then show ?thesis using inv inv_facts(1,2) [OF inv, of t]
    by (intro gc_invI [OF inv, where t = t])
      (auto simp: gcFinish_def broadcast_def gc_inv_def Let_def intro: wake_moved [of _ g] split: if_splits)
qed

lemma markDurable_inv:
  assumes inv: "gc_inv g" and d: "gc_disk g (gc_file g) = gc_appendSeq g"
  shows "gc_inv (gcMarkDurable g)"
  using inv d
  by (intro gc_invI [OF inv, where t = 0])
    (auto simp: gcMarkDurable_def broadcast_def gc_inv_def Let_def intro: wake_moved [of _ g] split: if_splits)

lemma free_not_leading: "free p \<Longrightarrow> \<not> leading p"
  by (cases p) simp_all

lemma other_inv:
  assumes "otherStep g g'" and inv: "gc_inv g"
  shows "gc_inv g'"
proof -
  have sync: "gc_inv (gcSyncFile g)" if "gc_inv g" for g
  proof -
    have "gc_inv (g\<lparr>gc_disk := (gc_disk g)(gc_file g := gc_held g (gc_file g))\<rparr>)"
      using that inv_facts(3) [OF that] inv_facts(4) [OF that] blocked_syncing [OF that]
      by (intro gc_invI [OF that, where t = 0]) (auto simp: gc_inv_def)
    moreover have "gc_held g (gc_file g) = gc_appendSeq g" using that by (simp add: gc_inv_def)
    ultimately show ?thesis unfolding gcSyncFile_def by (intro markDurable_inv) simp_all
  qed
  have close: "gc_inv (gcCloseFile g)" if "gc_inv g" for g
    using that inv_facts(3) [OF that] inv_facts(4) [OF that] blocked_syncing [OF that]
    by (intro gc_invI [OF that, where t = 0]) (auto simp: gc_inv_def gcCloseFile_def)
  from assms(1) show ?thesis
  proof cases
    case (append t)
    then show ?thesis
      using inv inv_facts(1,2) [OF inv, of t] inv_facts(3,4) [OF inv] not_leading [OF free_not_leading [OF append(2)]]
        blocked_syncing [OF inv]
      by (intro gc_invI [OF inv, where t = t]) (auto simp: gcAppend_def gc_inv_def split: if_splits)
  next
    case swap
    let ?g = "g\<lparr>gc_retired := insert (gc_file g) (gc_retired g), gc_file := gc_next g,
                gc_next := gc_next g + 1, gc_held := (gc_held g)(gc_next g := gc_appendSeq g),
                gc_disk := (gc_disk g)(gc_next g := gc_appendSeq g)\<rparr>"
    have "gc_inv ?g"
      using inv inv_facts(3,4) [OF inv] blocked_syncing [OF inv]
      by (intro gc_invI [OF inv, where t = 0]) (auto simp: gc_inv_def)
    then show ?thesis unfolding swap gcSwap_def by (intro markDurable_inv) simp_all
  next
    case (append_fail t e)
    then show ?thesis using inv inv_facts(3,4) [OF inv] blocked_syncing [OF inv]
      by (intro gc_invI [OF inv, where t = 0]) (auto simp: gc_inv_def)
  next
    case close
    then show ?thesis using inv inv_facts(3,4) [OF inv] blocked_syncing [OF inv]
      by (intro gc_invI [OF inv, where t = 0]) (auto simp: gc_inv_def)
  qed (auto intro: sync close inv)
qed

lemma reachable_inv: "gcReachable g \<Longrightarrow> gc_inv g"
  unfolding gcReachable_def
  by (induction rule: rtranclp_induct) (auto simp: gc_inv_init gcStep_def intro: wait_inv other_inv)

section \<open>Progress\<close>

text \<open>A goroutine in \<^verbatim>\<open>waitDurable\<close> that is not asleep can always move.\<close>

lemma awake_moves:
  assumes "\<not> free (gc_pc g t)" "\<And>seq. gc_pc g t \<noteq> Blocked seq"
  shows "\<exists>g'. waitStep g g'"
proof (cases "gc_pc g t")
  case (Sync seq h cover)
  then show ?thesis using waitStep.sync_fail [OF Sync, of ErrClosed] by blast
qed (use assms in \<open>auto intro: waitStep.intros\<close>)

lemma leader_moves:
  assumes "leading (gc_pc g t)"
  shows "\<exists>g'. waitStep g g' \<and> gc_pc g' t \<noteq> gc_pc g t"
proof (cases "gc_pc g t")
  case (Lead seq)
  then show ?thesis using waitStep.read [OF Lead]
    by (intro exI [of _ "gcRead t seq g"]) (simp add: gcRead_def)
next
  case (Sync seq h cover)
  then show ?thesis using waitStep.sync_fail [OF Sync, of ErrClosed]
    by (intro exI [of _ "goto t (Failed seq h cover ErrClosed) g"]) simp
next
  case (Failed seq h cover e)
  then show ?thesis using waitStep.swapped [OF Failed]
    by (intro exI [of _ "gcSwapped t seq h cover e g"]) (simp add: gcSwapped_def)
next
  case (Poison seq cover e)
  then show ?thesis using waitStep.poison [OF Poison]
    by (intro exI [of _ "gcPoison t seq cover e g"]) (simp add: gcPoison_def)
next
  case (Finish seq cover err)
  then show ?thesis using waitStep.finish [OF Finish]
    by (intro exI [of _ "gcFinish t seq cover err g"]) (simp add: gcFinish_def Let_def)
qed (use assms in auto)

lemma waiting_moves:
  assumes inv: "gc_inv g" and w: "\<not> free (gc_pc g t)"
  shows "\<exists>g'. waitStep g g'"
proof (cases "\<exists>seq. gc_pc g t = Blocked seq")
  case True
  then have "gs_syncing (gc_gs g)" using blocked_syncing [OF inv] by blast
  then obtain l where "leading (gc_pc g l)" using inv_facts(3) [OF inv] by (auto simp: leaders_def)
  then show ?thesis by (intro awake_moves [of g l]) (cases "gc_pc g l"; simp)+
qed (use awake_moves [OF w] in blast)

text \<open>
  How far the waiters are from returning. A leader whose cover is up to date settles
  everything in one round; one with an older cover leaves one more round to a later leader.
\<close>

fun rounds :: "nat \<Rightarrow> gcPc \<Rightarrow> nat" where
  "rounds n (Lead seq) = 1"
| "rounds n (Sync seq h cover) = (if n \<le> cover then 1 else 2)"
| "rounds n (Failed seq h cover e) = (if n \<le> cover then 1 else 2)"
| "rounds n (Poison seq cover e) = 1"
| "rounds n (Finish seq cover err) = (if err \<noteq> None \<or> n \<le> cover then 1 else 2)"
| "rounds n _ = 0"

fun weight :: "gcPc \<Rightarrow> nat" where
  "weight (Check _) = 6" | "weight (Lead _) = 5" | "weight (Sync _ _ _) = 4" | "weight (Failed _ _ _ _) = 3"
| "weight (Poison _ _ _) = 2" | "weight (Finish _ _ _) = 1" | "weight _ = 0"

definition unsettled :: "gcState \<Rightarrow> bool" where
  "unsettled g \<longleftrightarrow> gs_synced (gc_gs g) < gc_appendSeq g \<and> gs_err (gc_gs g) = None \<and> \<not> gs_syncing (gc_gs g)"

definition running :: "gcState \<Rightarrow> nat set" where
  "running g = {t. gc_pc g t \<noteq> Idle}"

definition roundsLeft :: "gcState \<Rightarrow> nat" where
  "roundsLeft g = (\<Sum>t\<in>running g. rounds (gc_appendSeq g) (gc_pc g t)) + (if unsettled g then 1 else 0)"

definition stepsLeft :: "gcState \<Rightarrow> nat" where
  "stepsLeft g = roundsLeft g * (6 * card (running g) + 1) + (\<Sum>t\<in>running g. weight (gc_pc g t))"

lemma sum_upd:
  fixes f :: "gcPc \<Rightarrow> nat"
  assumes "finite A" "t \<in> A"
  shows "(\<Sum>u\<in>A. f ((pc(t := p)) u)) + f (pc t) = (\<Sum>u\<in>A. f (pc u)) + f p"
proof -
  have "(\<Sum>u\<in>A - {t}. f ((pc(t := p)) u)) = (\<Sum>u\<in>A - {t}. f (pc u))" by (rule sum.cong) auto
  then show ?thesis using assms by (simp add: sum.remove [of A t])
qed

lemma rounds_wake [simp]: "rounds n (wake p) = rounds n p"
  by (cases p) simp_all

lemma weight_le: "weight p \<le> 6"
  by (cases p) simp_all

lemma weights_le: "finite (running g) \<Longrightarrow> (\<Sum>t\<in>running g. weight (gc_pc g t)) \<le> 6 * card (running g)"
  using sum_bounded_above [of "running g" "\<lambda>t. weight (gc_pc g t)" 6] by (simp add: weight_le mult.commute)

text \<open>A step of one goroutine that wakes nobody.\<close>

lemma quiet_step:
  assumes fin: "finite (running g)" and p: "gc_pc g t = p" "p \<noteq> Idle" "p' \<noteq> Idle"
    and g': "gc_pc g' = (gc_pc g)(t := p')" "gc_appendSeq g' = gc_appendSeq g"
    and w: "weight p' < weight p"
    and r: "rounds (gc_appendSeq g) p' + (if unsettled g' then 1 else 0) \<le>
            rounds (gc_appendSeq g) p + (if unsettled g then 1 else 0)"
  shows "stepsLeft g' < stepsLeft g"
proof -
  have run: "running g' = running g" and t: "t \<in> running g" using p g' by (auto simp: running_def)
  have "roundsLeft g' \<le> roundsLeft g"
    using sum_upd [OF fin t, of "rounds (gc_appendSeq g)" "gc_pc g" p'] r
    by (simp add: roundsLeft_def run g' p(1) del: fun_upd_apply)
  moreover have "(\<Sum>u\<in>running g. weight (gc_pc g' u)) < (\<Sum>u\<in>running g. weight (gc_pc g u))"
    using sum_upd [OF fin t, of weight "gc_pc g" p'] w by (simp add: g' p(1) del: fun_upd_apply)
  ultimately show ?thesis unfolding stepsLeft_def run by (intro add_le_less_mono mult_right_mono) simp_all
qed

lemma finish_step:
  assumes fin: "finite (running g)" and p: "gc_pc g t = Finish seq cover err" and le: "gs_syncing (gc_gs g)"
  shows "stepsLeft (gcFinish t seq cover err g) < stepsLeft g"
proof -
  let ?g = "gcFinish t seq cover err g"
  have run: "running ?g = running g" and t: "t \<in> running g"
    using p by (auto simp: running_def gcFinish_def broadcast_def Let_def)
  have pc: "gc_pc ?g = (wake \<circ> gc_pc g)(t := Check seq)" "gc_appendSeq ?g = gc_appendSeq g"
    by (simp_all add: gcFinish_def broadcast_def Let_def)
  have "(if unsettled ?g then 1 else 0) + 1 \<le> rounds (gc_appendSeq g) (Finish seq cover err)"
    by (auto simp: unsettled_def gcFinish_def broadcast_def Let_def)
  moreover have "\<not> unsettled g" using le by (simp add: unsettled_def)
  ultimately have "roundsLeft ?g < roundsLeft g"
    using sum_upd [OF fin t, of "rounds (gc_appendSeq g)" "wake \<circ> gc_pc g" "Check seq"]
    by (simp add: roundsLeft_def run pc p del: fun_upd_apply)
  then have "roundsLeft ?g * (6 * card (running g) + 1) + (6 * card (running g) + 1)
      \<le> roundsLeft g * (6 * card (running g) + 1)"
    by (metis Suc_leI add.commute mult_Suc mult_right_mono zero_le)
  moreover have "(\<Sum>u\<in>running g. weight (gc_pc ?g u)) \<le> 6 * card (running g)"
    using weights_le [of ?g] fin run by simp
  ultimately show ?thesis unfolding stepsLeft_def run by linarith
qed

lemma waitStep_decreases:
  assumes "waitStep g g'" and inv: "gc_inv g"
  shows "stepsLeft g' < stepsLeft g"
proof -
  have fin: "finite (running g)" using inv by (simp add: gc_inv_def running_def)
  from assms(1) show ?thesis
  proof cases
    case (check t seq)
    have le: "seq \<le> gc_appendSeq g" using inv_facts(1) [OF inv, of t] check(2) by simp
    show ?thesis
    proof (cases "gs_synced (gc_gs g) < seq \<and> gs_err (gc_gs g) = None \<and> \<not> gs_syncing (gc_gs g)")
      case True
      then show ?thesis unfolding check(1) using le
        by (intro quiet_step [OF fin check(2), where p' = "Lead seq"]) (auto simp: gcCheck_def Let_def unsettled_def)
    next
      case False
      let ?p = "if gs_synced (gc_gs g) < seq \<and> gs_err (gc_gs g) = None then Blocked seq
          else Done seq (if seq \<le> gs_synced (gc_gs g) then None else gs_err (gc_gs g))"
      show ?thesis unfolding check(1) using False
        by (intro quiet_step [OF fin check(2), where p' = ?p]) (auto simp: gcCheck_def Let_def unsettled_def)
    qed
  next
    case (read t seq)
    let ?p = "if gc_closed g then Finish seq (gc_appendSeq g) (Some ErrClosed) else Sync seq (gc_file g) (gc_appendSeq g)"
    show ?thesis unfolding read(1)
      by (intro quiet_step [OF fin read(2), where p' = ?p]) (auto simp: gcRead_def unsettled_def)
  next
    case (sync_ok t seq h cover)
    then show ?thesis
      by (intro quiet_step [OF fin sync_ok(2), where p' = "Finish seq cover None"]) (auto simp: gcSyncOk_def unsettled_def)
  next
    case (sync_fail t seq h cover e)
    then show ?thesis
      by (intro quiet_step [OF fin sync_fail(2), where p' = "Failed seq h cover e"]) (auto simp: unsettled_def)
  next
    case (swapped t seq h cover e)
    let ?p = "if gc_file g \<noteq> h then Finish seq cover None else Poison seq cover e"
    from swapped show ?thesis
      by (intro quiet_step [OF fin swapped(2), where p' = ?p]) (auto simp: gcSwapped_def unsettled_def)
  next
    case (poison t seq cover e)
    then show ?thesis
      by (intro quiet_step [OF fin poison(2), where p' = "Finish seq cover (Some e)"]) (auto simp: gcPoison_def unsettled_def)
  next
    case (finish t seq cover err)
    then show ?thesis using finish_step [OF fin finish(2)] inv_facts(2) [OF inv, of t] by simp
  qed
qed

lemma waitSteps_bounded:
  "(waitStep ^^ n) g g' \<Longrightarrow> gc_inv g \<Longrightarrow> gc_inv g' \<and> n + stepsLeft g' \<le> stepsLeft g"
proof (induction n arbitrary: g')
  case (Suc n)
  then obtain h where h: "(waitStep ^^ n) g h" "waitStep h g'" by auto
  with Suc.IH [OF h(1)] Suc.prems wait_inv [OF h(2)] waitStep_decreases [OF h(2)] show ?case by auto
qed simp

section \<open>Properties\<close>

text \<open>One goroutine appends, leads and is acknowledged; another sleeps meanwhile.\<close>

definition exAppended :: gcState where
  "exAppended = gcCheck 1 2 (gcAppend 1 (gcRead 0 1 (gcCheck 0 1 (gcAppend 0 gcInit))))"

definition exAcked :: gcState where
  "exAcked = gcCheck 0 1 (gcFinish 0 1 1 None (gcSyncOk 0 1 0 1 exAppended))"

lemmas gcEval = gcInit_def gcAppend_def gcCheck_def gcRead_def gcSyncOk_def gcFinish_def broadcast_def Let_def
  gcCanWrite_def comp_def

lemma gcReachable_init: "gcReachable gcInit"
  by (simp add: gcReachable_def)

lemma gcReachable_append: "gcReachable g \<Longrightarrow> free (gc_pc g t) \<Longrightarrow> gcCanWrite g \<Longrightarrow> gcReachable (gcAppend t g)"
  unfolding gcReachable_def by (rule rtranclp.rtrancl_into_rtrancl) (auto simp: gcStep_def intro: otherStep.append)

lemma gcReachable_wait: "gcReachable g \<Longrightarrow> waitStep g g' \<Longrightarrow> gcReachable g'"
  unfolding gcReachable_def by (rule rtranclp.rtrancl_into_rtrancl) (auto simp: gcStep_def)

lemma exAppended_reachable: "gcReachable exAppended"
  unfolding exAppended_def
  by (intro gcReachable_wait [OF _ waitStep.check] gcReachable_wait [OF _ waitStep.read] gcReachable_append
      gcReachable_init) (simp_all add: gcEval)

lemma exAcked_reachable: "gcReachable exAcked"
  unfolding exAcked_def
  by (intro gcReachable_wait [OF _ waitStep.check] gcReachable_wait [OF _ waitStep.finish]
      gcReachable_wait [OF _ waitStep.sync_ok] exAppended_reachable) (simp_all add: exAppended_def gcEval)

text \<open>
  C4. Group commit acknowledges only what is durable: in every reachable interleaving of
  committers, \<^verbatim>\<open>Sync\<close>, compaction swaps and \<^verbatim>\<open>Close\<close>, with any fsync failing or not, an append
  whose \<^verbatim>\<open>waitDurable\<close> returned nil is on stable storage in the current log file, and the
  watermark \<^verbatim>\<open>synced\<close> never passes what is on stable storage.
\<close>

theorem acked_is_durable:
  assumes "gcReachable g"
  shows "(seq \<in> gc_acked g \<longrightarrow> seq \<le> gc_disk g (gc_file g)) \<and>
    gs_synced (gc_gs g) \<le> gc_disk g (gc_file g) \<and> gc_disk g (gc_file g) \<le> gc_appendSeq g \<and>
    (\<forall>t. gc_pc g t = Done seq None \<longrightarrow> seq \<in> gc_acked g)"
proof -
  have inv: "gc_inv g" by (rule reachable_inv [OF assms])
  have "seq \<in> gc_acked g" if "gc_pc g t = Done seq None" for t
    using inv_facts(1) [OF inv, of t] that by simp
  with inv show ?thesis by (auto simp: gc_inv_def)
qed

theorem acked_is_durable_witness: "1 \<in> gc_acked exAcked \<and> 1 \<le> gc_disk exAcked (gc_file exAcked)"
proof -
  have "1 \<in> gc_acked exAcked" by (simp add: exAcked_def exAppended_def gcEval)
  then show ?thesis using acked_is_durable [OF exAcked_reachable, of 1] by blast
qed

text \<open>
  No lost wakeup: whenever a goroutine sleeps in \<^verbatim>\<open>cond.Wait\<close>, exactly one goroutine leads a
  sync and is not asleep, so the system can move and the broadcast that ends the round is
  still to come.
\<close>

theorem sleeper_has_leader:
  assumes "gcReachable g" "gc_pc g t = Blocked seq"
  shows "\<exists>l. leaders (gc_pc g) = {l} \<and> l \<noteq> t \<and> gs_syncing (gc_gs g) \<and> (\<exists>g'. waitStep g g' \<and> gc_pc g' l \<noteq> gc_pc g l)"
proof -
  have inv: "gc_inv g" by (rule reachable_inv [OF assms(1)])
  have sy: "gs_syncing (gc_gs g)" by (rule blocked_syncing [OF inv assms(2)])
  from inv_facts(3) [OF inv sy] obtain l where l: "leaders (gc_pc g) = {l}" by blast
  then have lead: "leading (gc_pc g l)" by (auto simp: leaders_def)
  then have "l \<noteq> t" using assms(2) by auto
  with l sy leader_moves [OF lead] show ?thesis by blast
qed

theorem sleeper_has_leader_witness:
  "gc_pc exAppended 1 = Blocked 2 \<and> (\<exists>l. leaders (gc_pc exAppended) = {l} \<and> (\<exists>g'. waitStep exAppended g'))"
proof -
  have b: "gc_pc exAppended 1 = Blocked 2" by (simp add: exAppended_def gcEval)
  from sleeper_has_leader [OF exAppended_reachable b] b show ?thesis by blast
qed

text \<open>
  C24. Every waiter returns: from any reachable state the waiting goroutines can take only a
  bounded number of steps before one of them appends again or the rest of the database
  moves, and when no step is left every one of them has returned from \<^verbatim>\<open>waitDurable\<close>.
\<close>

theorem waiters_return:
  assumes "gcReachable g" "(waitStep ^^ n) g g'"
  shows "n \<le> stepsLeft g \<and> ((\<exists>g''. waitStep g' g'') \<or> (\<forall>t. free (gc_pc g' t)))"
  using waitSteps_bounded [OF assms(2) reachable_inv [OF assms(1)]] waiting_moves [of g'] by auto

theorem waiters_return_witness:
  "(waitStep ^^ 0) exAppended exAppended \<and> stepsLeft exAppended = 30 \<and> (\<exists>g'. waitStep exAppended g')"
proof -
  have 0: "(waitStep ^^ 0) exAppended exAppended" by simp
  have "running exAppended = {0, 1}" by (auto simp: running_def exAppended_def gcEval)
  then have "stepsLeft exAppended = 30"
    by (simp add: stepsLeft_def roundsLeft_def unsettled_def exAppended_def gcEval)
  moreover have "\<not> free (gc_pc exAppended 0)" by (simp add: exAppended_def gcEval)
  ultimately show ?thesis using waiters_return [OF exAppended_reachable 0] 0 by blast
qed

end
