(* ===== verification/Savepoint.thy ===== *)
theory Savepoint
  imports TxInv
begin

text \<open>
  What a savepoint of \<^verbatim>\<open>src/savepoint.go\<close> promises over the rest of its transaction: any
  operations later, rolling back to it restores state and buffer, unless it has left the
  stack.
\<close>

section \<open>Savepoints along a transaction\<close>

text \<open>
  From the moment a savepoint \<open>sp\<close> is stored at address \<open>a\<close>, with \<open>p\<close> the buffer at that time: the
  object keeps its contents, and while it is on the stack the buffer still begins with \<open>p\<close>.
\<close>

definition save_kept ::
    "nat \<Rightarrow> ('k, 'v, 'm, 'n, 'e, 'j) savepoint \<Rightarrow> bytes \<Rightarrow> ('k, 'v, 'm, 'n, 'e, 'j) spstore
       \<Rightarrow> ('k, 'v, 'm, 'n, 'e, 'j) tx \<Rightarrow> bool" where
  "save_kept a sp p hp tx \<longleftrightarrow> (\<exists>b. hp a = Some (sp\<lparr>sp_active := b\<rparr>)) \<and>
     (a \<in> set (tx_saves tx) \<longrightarrow> (\<exists>more. tx_pending tx = p @ more))"

lemma appendSealedRecord_extends: "appendSealedRecord dst wc rnd opn kb vb = Inr bs \<Longrightarrow> \<exists>more. bs = dst @ more"
  by (auto simp: appendSealedRecord_def appendRecord_frame split: option.splits if_splits sum.splits)

lemma dropAll_extends:
  "tx_saves (snd (dropAll B now kkbs n tx)) = tx_saves tx \<and> (\<exists>more. tx_pending (snd (dropAll B now kkbs n tx)) = tx_pending tx @ more)"
proof (induction kkbs arbitrary: n tx)
  case (Cons p kkbs)
  obtain k kb where p: "p = (k, kb)" by (cases p)
  from Cons [of "if expired B k now (tx_state tx) then n else n + 1" "txDrop B k kb tx"] p
  show ?case by (auto simp: txDrop_def appendRecord_frame)
qed simp

lemma txSetInternal_extends:
  "txSetInternal B rnd db k v dl tx = (r, tx') \<Longrightarrow> tx_saves tx' = tx_saves tx \<and> (\<exists>more. tx_pending tx' = tx_pending tx @ more)"
  by (auto simp: txSetInternal_def Let_def dest!: appendSealedRecord_extends split: if_splits sum.splits prod.splits)

lemma txDelete_extends:
  "txDelete B now db k tx = (r, tx') \<Longrightarrow> tx_saves tx' = tx_saves tx \<and> (\<exists>more. tx_pending tx' = tx_pending tx @ more)"
  by (auto simp: txDelete_def txDrop_def appendRecord_frame split: if_splits sum.splits)

lemma txDeleteRange_extends:
  assumes "txDeleteRange B now db lo hi tx = (r, tx')"
  shows "tx_saves tx' = tx_saves tx \<and> (\<exists>more. tx_pending tx' = tx_pending tx @ more)"
proof -
  have "tx' = tx \<or> (\<exists>kkbs. tx' = snd (dropAll B now kkbs 0 tx))"
    using assms by (auto simp: txDeleteRange_def Let_def split: if_splits sum.splits prod.splits) (metis snd_conv)
  then show ?thesis using dropAll_extends [of B now _ 0 tx] by auto
qed

lemma save_kept_extend:
  "save_kept a sp p hp tx \<Longrightarrow> tx_saves tx' = tx_saves tx \<and> (\<exists>more. tx_pending tx' = tx_pending tx @ more) \<Longrightarrow> save_kept a sp p hp tx'"
  unfolding save_kept_def by fastforce

lemma save_kept_deactivate:
  "(\<exists>b. hp a = Some (sp\<lparr>sp_active := b\<rparr>)) \<Longrightarrow> \<exists>b. deactivate as hp a = Some (sp\<lparr>sp_active := b\<rparr>)"
  by (auto simp: deactivate_def)

text \<open>Rolling back to a savepoint further up the stack cuts nothing off what a lower one covers.\<close>

lemma saves_pending_le:
  assumes inv: "tx_inv B vK vV db v0 hp tx rs ops" and i: "i < length (tx_saves tx)"
    and a: "a \<in> set (take (i + 1) (tx_saves tx))" and sp: "hp a = Some sp" "hp (tx_saves tx ! i) = Some sp'"
  shows "sp_pendingLen sp \<le> sp_pendingLen sp'" "sp_pendingLen sp' \<le> length (tx_pending tx)"
proof -
  let ?saves = "tx_saves tx"
  have ok: "saves_ok B vK vV v0 rs ops hp ?saves" and pend: "tx_pending tx = frames rs" using inv by (simp_all add: tx_inv_def)
  obtain j where j: "j \<le> i" "?saves ! j = a"
    using a i by (auto simp: in_set_conv_nth less_Suc_eq_le)
  have "sp_nops (the (hp (?saves ! j))) \<le> sp_nops (the (hp (?saves ! i)))"
    using ok i j(1) sorted_nth_mono [of "map (\<lambda>a. sp_nops (the (hp a))) ?saves" j i] by (simp add: saves_ok_def)
  then have n: "sp_nops sp \<le> sp_nops sp'" using sp j by simp
  have "?saves ! i \<in> set ?saves" "?saves ! j \<in> set ?saves" using i j(1) by simp_all
  then have "save_ok B vK vV v0 rs ops sp" "save_ok B vK vV v0 rs ops sp'"
    using ok sp unfolding j(2) saves_ok_def list_all_iff by fastforce+
  then have l: "sp_pendingLen sp = length (frames (take (sp_nops sp) rs))" "sp_pendingLen sp' = length (frames (take (sp_nops sp') rs))"
    by (simp_all add: save_ok_def)
  have mono: "length (frames (take m rs)) \<le> length (frames (take m' rs))" if "m \<le> m'" for m m'
  proof -
    have "take m' rs = take m rs @ take (m' - m) (drop m rs)" using that by (metis le_add_diff_inverse take_add)
    then show ?thesis by simp
  qed
  show "sp_pendingLen sp \<le> sp_pendingLen sp'" unfolding l by (rule mono [OF n])
  show "sp_pendingLen sp' \<le> length (tx_pending tx)"
    unfolding l pend using mono [of "sp_nops sp'" "max (sp_nops sp') (length rs)"] by simp
qed

lemma save_kept_step:
  assumes step: "txStep B vK vV db (hp, tx) (hp', tx')" and inv: "tx_inv B vK vV db v0 hp tx rs ops"
    and kept: "save_kept a sp p hp tx" and len: "sp_pendingLen sp = length p"
  shows "save_kept a sp p hp' tx'"
  using step
proof (cases rule: txStepE [consumes 1])
  case (1 k v dl rnd r)
  then show ?thesis using save_kept_extend [OF kept txSetInternal_extends] by simp
next
  case (2 k now r)
  then show ?thesis using save_kept_extend [OF kept txDelete_extends] by simp
next
  case (3 lo hi now r)
  then show ?thesis using save_kept_extend [OF kept txDeleteRange_extends] by simp
next
  case (4 addr)
  then show ?thesis using kept by (auto simp: save_kept_def txSavepoint_def split: if_splits)
next
  case (5 ptr)
  then obtain i spi where f: "findSave hp ptr tx = Inr (i, spi)" by (auto simp: txRollbackTo_def split: sum.splits)
  note fs = findSave_Inr [OF f]
  have r: "hp' = deactivate (drop (i + 1) (tx_saves tx)) hp" "tx_saves tx' = take (i + 1) (tx_saves tx)"
    "tx_pending tx' = take (sp_pendingLen spi) (tx_pending tx)" using 5 f by (auto simp: txRollbackTo_def)
  have "\<exists>more. tx_pending tx' = p @ more" if a: "a \<in> set (tx_saves tx')"
  proof -
    obtain b where b: "hp a = Some (sp\<lparr>sp_active := b\<rparr>)" using kept by (auto simp: save_kept_def)
    obtain more where more: "tx_pending tx = p @ more" using kept a r(2) by (auto simp: save_kept_def dest: in_set_takeD)
    from saves_pending_le(1) [OF inv fs(1) a [unfolded r(2)] b fs(3)] len
    show ?thesis by (simp add: r(3) more)
  qed
  then show ?thesis using kept save_kept_deactivate [of hp a sp] by (simp add: save_kept_def r(1))
next
  case (6 ptr)
  then obtain i spi where f: "findSave hp ptr tx = Inr (i, spi)" by (auto simp: txRelease_def split: sum.splits)
  have "hp' = deactivate (drop i (tx_saves tx)) hp" "tx_saves tx' = take i (tx_saves tx)" "tx_pending tx' = tx_pending tx"
    using 6 f by (auto simp: txRelease_def)
  then show ?thesis using kept save_kept_deactivate [of hp a sp] by (auto simp: save_kept_def dest: in_set_takeD)
qed

lemma findFrom_in: "findFrom n saves a = None \<longleftrightarrow> a \<notin> set (take n saves)" if "n \<le> length saves"
  using that by (induction n) (auto simp: take_Suc_conv_app_nth)

context wal_db
begin

lemma savepoint_kept:
  assumes h: "handle_of wc kc vc db" and inv: "tx_inv B vK vV db v0 hp tx rs ops" and fresh: "hp a = None"
    and sp: "txSavepoint B a hp tx = Inr (hp1, tx1)" and steps: "(txStep B vK vV db)\<^sup>*\<^sup>* (hp1, tx1) (hp2, tx2)"
  shows "save_kept a \<lparr>sp_state = stateCopy B (tx_state tx), sp_pendingLen = length (tx_pending tx), sp_nops = tx_nops tx,
      sp_active = True\<rparr> (tx_pending tx) hp2 tx2" (is "save_kept a ?sp ?p _ _")
  using steps
proof (induction "(hp2, tx2)" arbitrary: hp2 tx2 rule: rtranclp_induct)
  case base
  have "hp1 = hp(a \<mapsto> ?sp)" "tx_pending tx1 = tx_pending tx" using sp by (auto simp: txSavepoint_def split: if_splits)
  then show ?case by (auto simp: save_kept_def intro: exI [of _ True])
next
  case (step y)
  obtain h t where y: "y = (h, t)" by (cases y)
  have "tx_inv B vK vV db v0 hp1 tx1 rs ops" by (rule txSavepoint_inv(1) [OF inv fresh sp])
  from txReach_inv [OF step.hyps(1) [unfolded y] assms(1) this] obtain rs' ops' where "tx_inv B vK vV db v0 h t rs' ops'" by blast
  from save_kept_step [OF step.hyps(2) [unfolded y] this step.hyps(3) [OF y]] show ?case by simp
qed

text \<open>Rolling back restores everything, or the savepoint is gone from the stack.\<close>

lemma savepoint_restored:
  assumes h: "handle_of wc kc vc db" and inv: "tx_inv B vK vV db v0 hp tx rs ops" and fresh: "hp a = None"
    and sp: "txSavepoint B a hp tx = Inr (hp1, tx1)" and steps: "(txStep B vK vV db)\<^sup>*\<^sup>* (hp1, tx1) (hp2, tx2)"
  shows "if a \<in> set (tx_saves tx2)
    then \<exists>hp3 tx3. txRollbackTo B hp2 (Some a) tx2 = Inr (hp3, tx3) \<and> view B (tx_state tx3) = view B (tx_state tx) \<and>
      tx_pending tx3 = tx_pending tx \<and> tx_nops tx3 = tx_nops tx \<and> a \<in> set (tx_saves tx3)
    else txRollbackTo B hp2 (Some a) tx2 = Inl ErrSavepointInvalid"
proof -
  let ?sp = "\<lparr>sp_state = stateCopy B (tx_state tx), sp_pendingLen = length (tx_pending tx), sp_nops = tx_nops tx, sp_active = True\<rparr>"
  have kept: "save_kept a ?sp (tx_pending tx) hp2 tx2" by (rule savepoint_kept [OF assms])
  have inv1: "tx_inv B vK vV db v0 hp1 tx1 rs ops" by (rule txSavepoint_inv(1) [OF inv fresh sp])
  from txReach_inv [OF steps h inv1] obtain rs' ops' where inv2: "tx_inv B vK vV db v0 hp2 tx2 rs' ops'"
    and dn: "tx_done tx2 = tx_done tx1" by blast
  have nd: "\<not> tx_done tx2" using dn sp by (auto simp: txSavepoint_def split: if_splits)
  obtain b where b: "hp2 a = Some (?sp\<lparr>sp_active := b\<rparr>)" using kept by (auto simp: save_kept_def)
  show ?thesis
  proof (cases "a \<in> set (tx_saves tx2)")
    case True
    then have "sp_active (?sp\<lparr>sp_active := b\<rparr>)"
      using inv2 b unfolding tx_inv_def saves_ok_def list_all_iff save_ok_def by (metis option.inject)
    then have b': b by simp
    obtain i where i: "findFrom (length (tx_saves tx2)) (tx_saves tx2) a = Some i"
      using True findFrom_in [of "length (tx_saves tx2)" "tx_saves tx2" a] by auto
    note ff = findFrom_Some [OF i]
    have f: "findSave hp2 (Some a) tx2 = Inr (i, ?sp)" using nd b b' i by (simp add: findSave_def)
    obtain more where more: "tx_pending tx2 = tx_pending tx @ more" using kept True by (auto simp: save_kept_def)
    have "a \<in> set (take (i + 1) (tx_saves tx2))" using ff by (metis Suc_eq_plus1 in_set_conv_nth length_take lessI min_less_iff_conj nth_take)
    then show ?thesis using True f more by (simp add: txRollbackTo_def view_copy)
  next
    case False
    then have "findFrom (length (tx_saves tx2)) (tx_saves tx2) a = None"
      using findFrom_in [of "length (tx_saves tx2)" "tx_saves tx2" a] by simp
    then show ?thesis using False nd b by (simp add: txRollbackTo_def findSave_def)
  qed
qed

end

end
