(* ===== verification/Examples.thy ===== *)
theory Examples
  imports Follower PowerCut GroupCommit Savepoint
begin

text \<open>
  Instances: the contract \<open>wal_db\<close> holds of the standard trees with the \<^verbatim>\<open>Int64Codec\<close> and no
  cipher, and of every cipher that \<open>newWalCipher\<close> builds; a database opened on a file that
  holds a header and nothing else; writes on it, and a compaction with a write in the middle.
\<close>

section \<open>Contracts\<close>

interpretation int_db: wal_db std_btype None Int64Codec int64_range Int64Codec int64_range
  by unfold_locales (auto simp: Int64Codec_def split: if_splits)

lemma wal_db_encrypted:
  assumes "newWalCipher hkdf aesNew master = Inr c"
  shows "wal_db std_btype (Some c) Int64Codec int64_range Int64Codec int64_range"
  by (intro wal_db.intro wal_db_axioms.intro sealer_newWalCipher [OF assms] std_trees.state_trees_axioms
      int64_codec.codec_axioms kcv_ok_newWalCipher [OF assms])
    (auto simp: Int64Codec_def split: if_splits)

section \<open>Writes with working I/O\<close>

lemma append_acks:
  assumes "canWrite db = None" "gs_err (db_gsync db) = None" "\<not> lf_closed (the_file db)"
  shows "\<exists>db1. writeLog io_ok buf db = (None, db1) \<and>
    fst (waitDurable io_ok (db_appendSeq db1) (db1\<lparr>db_state := s\<rparr>)) = None"
proof -
  obtain f where f: "lf_write None buf (the_file db) = (None, f)" "lf_closed f = lf_closed (the_file db)"
    using assms(3) by (simp add: lf_write_def)
  let ?d = "(set_file f db)\<lparr>db_appendSeq := db_appendSeq db + 1, db_walSize := db_walSize db + length buf\<rparr>"
  obtain b where b: "maybeAutoCompact ?d = ?d\<lparr>db_compacting := b\<rparr>" using maybeAutoCompact_eq by blast
  let ?d1 = "?d\<lparr>db_compacting := b\<rparr>"
  have w: "writeLog io_ok buf db = (None, ?d1)" using f b by (simp add: writeLog_def)
  have c: "\<not> db_closed db" using assms(1) by (auto simp: canWrite_def split: if_splits)
  have "fst (waitDurable io_ok (db_appendSeq ?d1) (?d1\<lparr>db_state := s\<rparr>)) = None"
  proof (cases "db_policy db = SyncAlways")
    case True
    then show ?thesis using c assms(2,3) f(2)
      by (subst waitDurable_once) (auto simp: Let_def leaderSync_def lf_sync_def markDurable_def)
  qed (simp add: waitDurable_def)
  with w show ?thesis by blast
qed

text \<open>A set on a healthy handle is acknowledged.\<close>

lemma set_acked:
  assumes "canWrite db = None" "gs_err (db_gsync db) = None" "\<not> lf_closed (the_file db)" "db_cipher db = None"
    and "Encode (db_keyCodec db) k = Inr kb" "Encode (db_valCodec db) v = Inr vb"
  shows "fst (setInternal B io_ok rnd k v dl db) = None"
proof -
  let ?bs = "appendRecord [] (if 0 < dl then opSetTTL else opSet) kb (if 0 < dl then prependDeadline dl vb else vb)"
  from append_acks [OF assms(1-3), of ?bs] obtain db1 where w: "writeLog io_ok ?bs db = (None, db1)" by blast
  from append_acks [OF assms(1-3), of ?bs "stateSet B k v dl (db_state db1)"] w
  have "fst (waitDurable io_ok (db_appendSeq db1) (db1\<lparr>db_state := stateSet B k v dl (db_state db1)\<rparr>)) = None" by simp
  with w show ?thesis using assms
    by (cases "0 < dl") (simp_all add: setInternal_def appendToLog_def appendSealedRecord_def Let_def)
qed

section \<open>A concrete database\<close>

definition exFs :: "bytes \<Rightarrow> fsys" where
  "exFs bs = \<lparr>fs_inode = (\<lambda>_. \<lparr>lf_content = bs, lf_synced = bs, lf_pos = 0, lf_closed = False\<rparr>),
              fs_cur = [''db'' \<mapsto> 0], fs_dur = [''db'' \<mapsto> 0], fs_next = 1\<rparr>"

lemma exFs_wf [simp]: "fs_wf (exFs bs)"
  by (simp add: fs_wf_def exFs_def)

lemma exFs_facts [simp]:
  "openedFile ''db'' (exFs bs) = \<lparr>lf_content = bs, lf_synced = bs, lf_pos = 0, lf_closed = False\<rparr>"
  "disk_synced ''db'' (exFs bs)" "crashed_fs ''db'' bs (exFs bs)"
  by (simp_all add: openedFile_def exFs_def disk_synced_def crashed_fs_def)
    (simp_all add: fs_wf_def)

text \<open>Neither key derivation nor block cipher is called without a key.\<close>

definition noHkdf :: "bytes \<Rightarrow> string \<Rightarrow> nat \<Rightarrow> bytes result" where
  "noHkdf master info n = Inl (ErrNew ''no key derivation'')"

definition noAes :: "bytes \<Rightarrow> (block \<Rightarrow> block) result" where
  "noAes key = Inl (ErrNew ''no cipher'')"

lemma exCipher [simp]: "openCipher noHkdf noAes (openOptions []) = Inr None"
  by (simp add: openCipher_def openOptions_def defaultOptions_def)

definition exDb where
  "exDb = projr (fst (openDB std_btype noHkdf noAes io_ok ''db'' Int64Codec Int64Codec [] (exFs logHeader)))"

definition exFs' :: fsys where
  "exFs' = snd (openDB std_btype noHkdf noAes io_ok ''db'' Int64Codec Int64Codec [] (exFs logHeader))"

lemma ex_open:
  "openDB std_btype noHkdf noAes io_ok ''db'' Int64Codec Int64Codec [] (exFs logHeader) = (Inr exDb, exFs')"
  "\<exists>hdr. log_inv std_btype int64_range int64_range t exDb hdr [] []" "view std_btype (db_state exDb) = Map.empty"
  "handle_of None Int64Codec Int64Codec exDb" "\<not> db_writerMu exDb" "canWrite exDb = None" "db_path exDb = ''db''"
proof -
  have ex: "\<exists>db fs' hdr'. openDB std_btype noHkdf noAes io_ok ''db'' Int64Codec Int64Codec [] (exFs logHeader) = (Inr db, fs') \<and>
      log_inv std_btype int64_range int64_range t db hdr' [] [] \<and> view std_btype (db_state db) = apOps [] Map.empty \<and>
      handle_of None Int64Codec Int64Codec db \<and> \<not> db_writerMu db \<and> canWrite db = None \<and> db_path db = ''db''" for t
    by (rule int_db.openDB_whole [where hdr = logHeader]) (simp_all add: hdr_ok_def headerFor_def)
  have *: "openDB std_btype noHkdf noAes io_ok ''db'' Int64Codec Int64Codec [] (exFs logHeader) = (Inr exDb, exFs') \<and>
      (\<exists>hdr. log_inv std_btype int64_range int64_range t exDb hdr [] []) \<and> view std_btype (db_state exDb) = Map.empty \<and>
      handle_of None Int64Codec Int64Codec exDb \<and> \<not> db_writerMu exDb \<and> canWrite exDb = None \<and> db_path exDb = ''db''" for t
  proof -
    obtain db fs' hdr' where o: "openDB std_btype noHkdf noAes io_ok ''db'' Int64Codec Int64Codec [] (exFs logHeader) = (Inr db, fs')"
      and r: "log_inv std_btype int64_range int64_range t db hdr' [] []" "view std_btype (db_state db) = apOps [] Map.empty"
      "handle_of None Int64Codec Int64Codec db" "\<not> db_writerMu db" "canWrite db = None" "db_path db = ''db''"
      using ex [of t] by blast
    have "exDb = db" "exFs' = fs'" by (simp_all add: exDb_def exFs'_def o)
    with o r show ?thesis by auto
  qed
  then show "openDB std_btype noHkdf noAes io_ok ''db'' Int64Codec Int64Codec [] (exFs logHeader) = (Inr exDb, exFs')"
    "\<exists>hdr. log_inv std_btype int64_range int64_range t exDb hdr [] []" "view std_btype (db_state exDb) = Map.empty"
    "handle_of None Int64Codec Int64Codec exDb" "\<not> db_writerMu exDb" "canWrite exDb = None" "db_path exDb = ''db''"
    by blast+
qed

lemma openDB_handle:
  assumes "openDB B hkdf aesNew env path kc vc opts fs = (Inr db, fs')"
  shows "db_policy db = o_syncPolicy (openOptions opts)" "db_writeErr db = None" "\<not> db_closed db"
    "db_fileEpoch db = 0" "db_fs db = fs'" "gs_err (db_gsync db) = None" "db_appendSeq db = 0"
  using assms
  by (auto simp: openDB_def newHandle_def Let_def split: sum.splits prod.splits option.splits)

lemma exDb_facts [simp]:
  "db_policy exDb = SyncAlways" "db_writeErr exDb = None" "gs_err (db_gsync exDb) = None" "db_fileEpoch exDb = 0"
  "\<not> db_closed exDb" "db_cipher exDb = None" "db_keyCodec exDb = Int64Codec" "db_valCodec exDb = Int64Codec"
  "\<not> lf_closed (the_file exDb)"
proof -
  show "db_policy exDb = SyncAlways" "db_writeErr exDb = None" "gs_err (db_gsync exDb) = None" "db_fileEpoch exDb = 0"
    "\<not> db_closed exDb"
    using openDB_handle [OF ex_open(1)] by (simp_all add: openOptions_def defaultOptions_def)
  show "db_cipher exDb = None" "db_keyCodec exDb = Int64Codec" "db_valCodec exDb = Int64Codec"
    using ex_open(4) by (simp_all add: handle_of_def)
  obtain hdr where "log_inv std_btype int64_range int64_range 0 exDb hdr [] []" using ex_open(2) by blast
  then show "\<not> lf_closed (the_file exDb)" using \<open>\<not> db_closed exDb\<close> by (simp add: log_inv_def file_inv_def)
qed

lemma exDb_ok: "db_ok std_btype None Int64Codec int64_range Int64Codec int64_range t exDb"
  by (rule int_db.open_ok(1) [OF exFs_facts(2) exCipher ex_open(1)])

lemma ex_fits [simp]: "fits None Int64Codec Int64Codec k v" "key_fits Int64Codec k"
  by (simp_all add: fits_def key_fits_def Int64Codec_def sealOverhead_def maxPartLen_def)

lemma ex_encode: "\<exists>b. Encode Int64Codec k = Inr b"
  by (simp add: Int64Codec_def)

text \<open>The database after a set of key 1 and one of key 2 with deadline 100.\<close>

definition exDb1 where
  "exDb1 = snd (dbSet std_btype io_ok (Inl ErrClosed) 1 10 exDb)"

definition exDb2 where
  "exDb2 = snd (dbSetTTL std_btype io_ok (Inl ErrClosed) 90 2 20 10 exDb1)"

lemma ex_set:
  assumes "db_ok std_btype None Int64Codec int64_range Int64Codec int64_range t db" "canWrite db = None" "gs_err (db_gsync db) = None"
    and "\<not> lf_closed (the_file db)" "db_policy db = SyncAlways" "int64_range k" "int64_range v" "int64_range dl"
    and db': "db' = snd (setInternal std_btype io_ok rnd k v dl db)"
  shows "setInternal std_btype io_ok rnd k v dl db = (None, db')"
    "db_ok std_btype None Int64Codec int64_range Int64Codec int64_range t db'" "canWrite db' = None" "gs_err (db_gsync db') = None"
    "\<not> lf_closed (the_file db')" "db_policy db' = SyncAlways"
    "view std_btype (db_state db') = (view std_btype (db_state db))(k \<mapsto> (v, dl_opt dl))" "same_handle db db'"
proof -
  from assms(1) obtain hdr its ops where inv: "log_inv std_btype int64_range int64_range t db hdr its ops"
    and h: "handle_of None Int64Codec Int64Codec db" and s: "sound db" by (auto simp: db_ok_def)
  obtain kb vb where "Encode Int64Codec k = Inr kb" "Encode Int64Codec v = Inr vb" using ex_encode by blast
  then have "fst (setInternal std_btype io_ok rnd k v dl db) = None"
    using h by (intro set_acked [OF assms(2,3,4)]) (simp_all add: handle_of_def)
  then show run: "setInternal std_btype io_ok rnd k v dl db = (None, db')" using db' by (simp add: prod_eq_iff)
  show ok: "db_ok std_btype None Int64Codec int64_range Int64Codec int64_range t db'"
    by (rule appends_ok [OF int_db.set_appends(1) [OF assms(1,6,7,8) ex_fits(1) run] assms(1)])
  from int_db.setInternal_cases [OF inv h assms(6,7,8) ex_fits(1) run]
  have c: "db_state db' = stateSet std_btype k v dl (db_state db)" "same_handle db db'" by auto
  show "view std_btype (db_state db') = (view std_btype (db_state db))(k \<mapsto> (v, dl_opt dl))"
    unfolding c(1) by (rule std_trees.view_set)
  show "same_handle db db'" by (rule c(2))
  show "db_policy db' = SyncAlways" using c(2) assms(5) by (simp add: same_handle_def)
  have nc: "\<not> db_closed db'" "\<not> db_closed db" using c(2) assms(2) by (auto simp: same_handle_def canWrite_def split: if_splits)
  have we: "db_writeErr db = None" using assms(2) nc by (simp add: canWrite_def)
  from setInternal_settled [OF s run] nc show "canWrite db' = None" "gs_err (db_gsync db') = None"
    by (simp_all add: settled_def canWrite_def)
  from ok nc show "\<not> lf_closed (the_file db')" by (auto simp: db_ok_def log_inv_def file_inv_def)
qed

lemma exDb1_facts:
  "dbSet std_btype io_ok (Inl ErrClosed) 1 10 exDb = (None, exDb1)"
  "db_ok std_btype None Int64Codec int64_range Int64Codec int64_range t exDb1" "canWrite exDb1 = None"
  "gs_err (db_gsync exDb1) = None" "\<not> lf_closed (the_file exDb1)" "db_policy exDb1 = SyncAlways"
  "view std_btype (db_state exDb1) = [1 \<mapsto> (10, None)]" "same_handle exDb exDb1"
  using ex_set [OF exDb_ok ex_open(6) exDb_facts(3) exDb_facts(9) exDb_facts(1), of 1 10 0 exDb1 "Inl ErrClosed"]
  by (simp_all add: exDb1_def dbSet_def int64_range_def dl_opt_def ex_open(3))

lemma exDb2_facts:
  "dbSetTTL std_btype io_ok (Inl ErrClosed) 90 2 20 10 exDb1 = (None, exDb2)"
  "db_ok std_btype None Int64Codec int64_range Int64Codec int64_range t exDb2" "canWrite exDb2 = None"
  "gs_err (db_gsync exDb2) = None" "\<not> lf_closed (the_file exDb2)" "db_policy exDb2 = SyncAlways"
  "view std_btype (db_state exDb2) = [1 \<mapsto> (10, None), 2 \<mapsto> (20, Some 100)]" "same_handle exDb1 exDb2"
  using ex_set [OF exDb1_facts(2-6), of 2 20 100 exDb2 "Inl ErrClosed"]
  by (simp_all add: exDb2_def dbSetTTL_def deadlineAt_def int64_range_def dl_opt_def exDb1_facts(7))

lemma exDb2_handle:
  "db_path exDb2 = ''db''" "db_fileEpoch exDb2 = db_fileEpoch exDb" "\<not> db_writerMu exDb2"
proof -
  have "\<not> db_writerMu exDb" by (rule int_db.open_ok(2) [OF exFs_facts(2) exCipher ex_open(1)])
  then show "db_path exDb2 = ''db''" "db_fileEpoch exDb2 = db_fileEpoch exDb" "\<not> db_writerMu exDb2"
    using same_handle_trans [OF exDb1_facts(8) exDb2_facts(8)] ex_open(7) by (simp_all add: same_handle_def)
qed

lemma ex_log_inv:
  assumes "db_ok std_btype None Int64Codec int64_range Int64Codec int64_range t db"
  obtains hdr its ops where "log_inv std_btype int64_range int64_range t db hdr its ops"
    "handle_of None Int64Codec Int64Codec db"
  using assms by (auto simp: db_ok_def)

lemma ex_wf: "state_wf std_btype (db_state exDb2)"
  using exDb2_facts(2) [of 0] by (auto simp: db_ok_def log_inv_def state_inv_def)

abbreviation exStep where
  "exStep \<equiv> mStep std_btype None Int64Codec int64_range Int64Codec int64_range"

abbreviation exRun where
  "exRun \<equiv> mRun std_btype None Int64Codec int64_range Int64Codec int64_range"

lemma ex_run: "90 \<le> T \<Longrightarrow> exRun T (idle exDb) (idle exDb2)"
proof -
  assume T: "90 \<le> T"
  have 1: "callStep std_btype None Int64Codec int64_range Int64Codec int64_range 90 exDb exDb1"
    by (rule callStep.do_set [OF _ _ ex_fits(1) exDb1_facts(1)]) (simp_all add: int64_range_def)
  have 2: "callStep std_btype None Int64Codec int64_range Int64Codec int64_range 90 exDb1 exDb2"
    by (rule callStep.do_setTTL [OF _ _ ex_fits(1) exDb2_facts(1)]) (simp_all add: int64_range_def)
  have "exStep 90 (idle exDb) (idle exDb1)" "exStep 90 (idle exDb1) (idle exDb2)"
    using mStep.call [of "idle exDb"] mStep.call [of "idle exDb1"] 1 2 by (simp_all add: idle_def)
  then show "exRun T (idle exDb) (idle exDb2)" using mRun_trans mRun_step [OF T] by blast
qed

lemma ex_dir: "dir_synced exDb2"
proof -
  have "dir_synced exDb" by (rule open_dir_synced(1) [OF _ exCipher ex_open(1)]) (use exFs_facts(2) in \<open>simp add: disk_synced_def\<close>)
  then show ?thesis using same_handle_trans [OF exDb1_facts(8) exDb2_facts(8)] by (simp add: dir_synced_def same_handle_def)
qed

section \<open>A compaction with a writer in the middle\<close>

lemma ex_job:
  assumes "jobStep std_btype None Int64Codec Int64Codec 95 (db, j) (db', j')"
  shows "exStep 95 \<lparr>m_db = db, m_tx = None, m_job = j, m_sweep = None\<rparr> \<lparr>m_db = db', m_tx = None, m_job = j', m_sweep = None\<rparr>"
  using mStep.job [of std_btype None Int64Codec Int64Codec 95 "\<lparr>m_db = db, m_tx = None, m_job = j, m_sweep = None\<rparr>" db' j'] assms
  by simp

text \<open>The example database is compacted while a writer sets key 7.\<close>

definition exSnap where
  "exSnap = stateCopy std_btype (db_state exDb2)"

lemma ex_compact:
  obtains tmp n db1 db2 hdr its ops it dl where
    "compactStart std_btype exDb2 = Inr (exSnap, db_walSize exDb2)"
    "compactStream std_btype io_ok (\<lambda>_. None) (\<lambda>_. Inl ErrClosed) 95 exSnap exDb2 = (Inr (tmp, n), db1)"
    "dbSet std_btype io_ok (Inl ErrClosed) 7 70 db1 = (None, db2)" "writers_ran db1 db2"
    "log_inv std_btype int64_range int64_range 0 exDb2 hdr its ops"
    "log_inv std_btype int64_range int64_range 0 db2 hdr (its @ [it]) (ops @ [LSet 7 70 dl])"
    "view std_btype (db_state db2) = [1 \<mapsto> (10, None), 2 \<mapsto> (20, Some 100), 7 \<mapsto> (70, None)]"
    "canWrite db2 = None" "gs_err (db_gsync db2) = None" "db_policy db2 = SyncAlways" "db_path db2 = ''db''"
    "\<not> lf_closed (fs_inode (db_fs db2) tmp)" "dir_synced db2" "db_fileEpoch db2 = db_fileEpoch exDb"
proof -
  let ?r = "int64_range"
  obtain hdr its ops where inv: "log_inv std_btype ?r ?r 0 exDb2 hdr its ops" and h: "handle_of None Int64Codec Int64Codec exDb2"
    using ex_log_inv [OF exDb2_facts(2)] by blast
  have st: "compactStart std_btype exDb2 = Inr (exSnap, db_walSize exDb2)"
    using exDb2_facts(3) by (auto simp: compactStart_def canWrite_def exSnap_def split: if_splits option.splits)
  have "\<exists>tmp n db1. compactStream std_btype io_ok (\<lambda>_. None) (\<lambda>_. Inl ErrClosed) 95 exSnap exDb2 = (Inr (tmp, n), db1)"
    by (rule compactStream_runs) (use h ex_encode in \<open>auto simp: handle_of_def\<close>)
  then obtain tmp n db1 where
    sm: "compactStream std_btype io_ok (\<lambda>_. None) (\<lambda>_. Inl ErrClosed) 95 exSnap exDb2 = (Inr (tmp, n), db1)" by blast
  have finv: "file_inv exDb2 hdr its ops" and sn: "state_wf std_btype exSnap" "amap_ok ?r ?r (view std_btype exSnap)"
    using inv by (simp_all add: log_inv_def state_inv_def std_trees.state_wf_copy std_trees.view_copy exSnap_def)
  from int_db.compactStream_cases [OF finv h sn ex_fits(1) sm] obtain fs rs where
    db1: "db1 = exDb2\<lparr>db_fs := fs\<rparr>" "live_kept exDb2 fs" and sf: "snapshot_file std_btype 95 exSnap db1 tmp n rs" by auto
  have ok1: "db_ok std_btype None Int64Codec ?r Int64Codec ?r 0 db1"
    unfolding db1(1) by (rule db_ok_live_kept [OF exDb2_facts(2) db1(2)])
  have f1: "canWrite db1 = None" "gs_err (db_gsync db1) = None" "\<not> lf_closed (the_file db1)" "db_policy db1 = SyncAlways"
    using exDb2_facts(3-6) db1(2) by (auto simp: db1(1) canWrite_def live_kept_def split: if_splits)
  define db2 where "db2 = snd (dbSet std_btype io_ok (Inl ErrClosed) 7 70 db1)"
  have r: "?r 7" "?r 70" "?r 0" by (simp_all add: int64_range_def)
  note e = ex_set [OF ok1 f1 r, of db2 "Inl ErrClosed", folded dbSet_def, OF db2_def]
  have inv1: "log_inv std_btype ?r ?r 0 db1 hdr its ops" unfolding db1(1) by (rule log_inv_live_kept [OF inv db1(2)])
  have h1: "handle_of None Int64Codec Int64Codec db1" using h by (simp add: db1(1))
  from int_db.setInternal_cases [OF inv1 h1 r ex_fits(1) e(1) [unfolded dbSet_def]] obtain it dl where
    inv2: "log_inv std_btype ?r ?r 0 db2 hdr (its @ [it]) (ops @ [LSet 7 70 dl])" by auto
  have wr: "writers_ran db1 db2" by (rule same_handle_writers [OF e(8)])
  have finv2: "file_inv db2 hdr (its @ [it]) (ops @ [LSet 7 70 dl])" using inv2 by (simp add: log_inv_def)
  have tc: "\<not> lf_closed (fs_inode (db_fs db2) tmp)"
    using snapshot_file_writers [OF sf wr finv2] by (simp add: snapshot_file_def appendable_def)
  have vw: "view std_btype (db_state db2) = [1 \<mapsto> (10, None), 2 \<mapsto> (20, Some 100), 7 \<mapsto> (70, None)]"
    using e(7) by (simp add: db1(1) exDb2_facts(7) dl_opt_def)
  have "dir_synced db2" "db_path db2 = ''db''" "db_fileEpoch db2 = db_fileEpoch exDb"
    using ex_dir compactStream_dur [OF sm] e(8) db1(1) exDb2_handle(1,2) by (simp_all add: dir_synced_def same_handle_def)
  from that [OF st sm e(1) wr inv inv2 vw e(3,4,6) this(2) tc this(1,3)] show thesis .
qed

text \<open>The directory sync after the swap may fail.\<close>

definition exNoDir :: io_env where
  "exNoDir op = (if op = ''sync dir'' then Some (ErrClosed, 0) else None)"

lemma ex_streaming:
  obtains tmp n off db2 where
    "exRun 95 (idle exDb) \<lparr>m_db = db2, m_tx = None, m_job = Some (Streamed 95 exSnap tmp n off), m_sweep = None\<rparr>"
    "view std_btype (db_state db2) = [1 \<mapsto> (10, None), 2 \<mapsto> (20, Some 100), 7 \<mapsto> (70, None)]"
    "canWrite db2 = None" "gs_err (db_gsync db2) = None" "db_policy db2 = SyncAlways" "db_path db2 = ''db''" "dir_synced db2"
    "db_fileEpoch db2 = db_fileEpoch exDb"
    "\<exists>db3. compactFinish io_ok tmp n off db2 = (None, db3)" "\<exists>db3. compactFinish exNoDir tmp n off db2 = (None, db3)"
proof -
  obtain tmp n db1 db2 hdr its ops it dl where
    c: "compactStart std_btype exDb2 = Inr (exSnap, db_walSize exDb2)"
      "compactStream std_btype io_ok (\<lambda>_. None) (\<lambda>_. Inl ErrClosed) 95 exSnap exDb2 = (Inr (tmp, n), db1)"
      "dbSet std_btype io_ok (Inl ErrClosed) 7 70 db1 = (None, db2)" "writers_ran db1 db2"
      "log_inv std_btype int64_range int64_range 0 exDb2 hdr its ops"
      "log_inv std_btype int64_range int64_range 0 db2 hdr (its @ [it]) (ops @ [LSet 7 70 dl])"
      "view std_btype (db_state db2) = [1 \<mapsto> (10, None), 2 \<mapsto> (20, Some 100), 7 \<mapsto> (70, None)]"
      "canWrite db2 = None" "gs_err (db_gsync db2) = None" "db_policy db2 = SyncAlways" "db_path db2 = ''db''"
      "\<not> lf_closed (fs_inode (db_fs db2) tmp)" "dir_synced db2" "db_fileEpoch db2 = db_fileEpoch exDb" by (rule ex_compact)
  let ?m = "\<lambda>db j. \<lparr>m_db = db, m_tx = None, m_job = j, m_sweep = None\<rparr>"
  let ?f = "Some (Frozen exSnap (db_walSize exDb2))" and ?s = "Some (Streamed 95 exSnap tmp n (db_walSize exDb2))"
  have s1: "exStep 95 (?m exDb2 None) (?m exDb2 ?f)" by (rule ex_job [OF jobStep.compact_start [OF c(1)]])
  have s2: "exStep 95 (?m exDb2 ?f) (?m db1 ?s)" by (rule ex_job [OF jobStep.compact_stream [OF ex_fits(1) c(2)]])
  have "callStep std_btype None Int64Codec int64_range Int64Codec int64_range 95 db1 db2"
    by (rule callStep.do_set [OF _ _ ex_fits(1) c(3)]) (simp_all add: int64_range_def)
  then have s3: "exStep 95 (?m db1 ?s) (?m db2 ?s)" using mStep.call [of "?m db1 ?s"] by simp
  note go = mRun_trans [OF _ mRun_step [OF order_refl]]
  have "exRun 95 (?m exDb2 None) (?m db2 ?s)" by (rule go [OF go [OF mRun_step [OF order_refl s1] s2] s3])
  then have "exRun 95 (idle exDb) (?m db2 ?s)" using mRun_trans [OF ex_run [of 95]] by (simp add: idle_def)
  from that [OF this c(7-11,13,14)] compactFinish_runs [OF c(8,12)] show thesis by (simp add: exNoDir_def)
qed

lemma ex_swapped:
  assumes run: "exRun 95 (idle exDb) \<lparr>m_db = db2, m_tx = None, m_job = Some (Streamed 95 exSnap tmp n off), m_sweep = None\<rparr>"
    and cw: "canWrite db2 = None" and fin: "compactFinish env tmp n off db2 = (None, db3)"
  shows "state_wf std_btype (db_state db2)" "db_ok std_btype None Int64Codec int64_range Int64Codec int64_range 95 db3"
    "fs_wf (db_fs db3)"
    "fs_dur (db_fs db3) = (if env ''sync dir'' = None then fs_cur (db_fs db3) else fs_dur (db_fs db2)) \<and> db_path db3 = db_path db2 \<and>
      fs_cur (db_fs db3) (db_path db2) = Some (db_file db3) \<and> db_file db3 \<noteq> db_file db2"
    "canWrite db3 = None" "same_config db2 db3" "\<not> lf_closed (the_file db3)" "db_state db3 = db_state db2"
    "db_fileEpoch db3 = db_fileEpoch db2 + 1"
proof -
  have "m_ok std_btype None Int64Codec int64_range Int64Codec int64_range 95 (idle exDb)"
    by (rule m_ok_idle [OF int_db.open_ok [OF exFs_facts(2) exCipher ex_open(1)]])
  from int_db.mRun_ok [OF run this]
  have ok: "db_ok std_btype None Int64Codec int64_range Int64Codec int64_range 95 db2"
    and j: "job_ok std_btype int64_range int64_range 95 db2 (Streamed 95 exSnap tmp n off)" by (simp_all add: m_ok_def)
  from j obtain rs where sf: "snapshot_file std_btype 95 exSnap db2 tmp n rs" by auto
  show "state_wf std_btype (db_state db2)" using ok by (auto simp: db_ok_def log_inv_def state_inv_def)
  have f: "db_ok std_btype None Int64Codec int64_range Int64Codec int64_range 95 db3" "db_writeErr db3 = None"
    "db_state db3 = db_state db2" "same_config db2 db3" "db_fileEpoch db3 = db_fileEpoch db2 + 1"
    using int_db.compactFinish_job [OF ok j fin] by simp_all
  show "db_ok std_btype None Int64Codec int64_range Int64Codec int64_range 95 db3" "db_state db3 = db_state db2"
    "same_config db2 db3" "db_fileEpoch db3 = db_fileEpoch db2 + 1" by (rule f)+
  show cw3: "canWrite db3 = None" using cw f(2,4) by (auto simp: canWrite_def same_config_def split: if_splits)
  show "fs_dur (db_fs db3) = (if env ''sync dir'' = None then fs_cur (db_fs db3) else fs_dur (db_fs db2)) \<and> db_path db3 = db_path db2 \<and>
      fs_cur (db_fs db3) (db_path db2) = Some (db_file db3) \<and> db_file db3 \<noteq> db_file db2"
    using compactFinish_dir(2) [OF sf fin refl] by simp
  have "\<not> db_closed db3" using cw3 by (auto simp: canWrite_def)
  then show "\<not> lf_closed (the_file db3)" "fs_wf (db_fs db3)" using f(1) by (auto simp: db_ok_def log_inv_def file_inv_def)
qed

lemma ex_compacted:
  obtains db3 where "exRun 95 (idle exDb) (idle db3)" "db_policy db3 = SyncAlways" "db_writeErr db3 = None"
    "dir_synced db3" "db_path db3 = ''db''" "fs_dur (db_fs db3) = fs_cur (db_fs db3)" "db_fileEpoch db3 = db_fileEpoch exDb + 1"
    "view std_btype (db_state db3) = [1 \<mapsto> (10, None), 2 \<mapsto> (20, Some 100), 7 \<mapsto> (70, None)]"
proof -
  obtain tmp n off db2 where
    r: "exRun 95 (idle exDb) \<lparr>m_db = db2, m_tx = None, m_job = Some (Streamed 95 exSnap tmp n off), m_sweep = None\<rparr>"
      "view std_btype (db_state db2) = [1 \<mapsto> (10, None), 2 \<mapsto> (20, Some 100), 7 \<mapsto> (70, None)]"
      "canWrite db2 = None" "gs_err (db_gsync db2) = None" "db_policy db2 = SyncAlways" "db_path db2 = ''db''" "dir_synced db2"
      "db_fileEpoch db2 = db_fileEpoch exDb"
      "\<exists>db3. compactFinish io_ok tmp n off db2 = (None, db3)" "\<exists>db3. compactFinish exNoDir tmp n off db2 = (None, db3)"
    by (rule ex_streaming)
  from r(9) obtain db3 where fin: "compactFinish io_ok tmp n off db2 = (None, db3)" by blast
  note e = ex_swapped [OF r(1,3) fin]
  have "exRun 95 (idle exDb) (idle db3)"
    using mRun_trans [OF r(1) mRun_step [OF order_refl ex_job [OF jobStep.compact_finish [OF fin]]]] by (simp add: idle_def)
  moreover have "db_writeErr db3 = None" using e(5) by (auto simp: canWrite_def split: if_splits)
  ultimately show thesis
    using that e(4,6,8,9) r(2,5,6,8) by (simp add: dir_synced_def same_config_def)
qed

end
