(* ===== verification/Spec2Isabelle.thy ===== *)
theory Spec2Isabelle
  imports Examples
begin

text \<open>
  Verification of btypedb, an embedded ordered key-value store in Go: typed keys and values
  held in memory in ordered trees, every write appended to a write-ahead log first, and the log
  replayed, repaired and compacted. All of \<^verbatim>\<open>src/*.go\<close> that runs is modelled.

  \<^bold>\<open>The program and its model.\<close> One theory per part, in the order the code calls them.
  \<^item> \<open>Prelude\<close>: bytes, \<^verbatim>\<open>int64\<close> as an integer with explicit wrap-around, little-endian encodings,
    CRC-32, the error datatype \<open>goerr\<close>, lemmas on sorted association lists. The error of a call is
    a value: \<open>Inl e\<close> or \<open>Some e\<close>. \<^verbatim>\<open>serr.Wrap\<close> keeps its cause, which is what the model keeps.
  \<^item> \<open>Codec\<close> (\<^verbatim>\<open>codec.go\<close>), \<open>Wal\<close> (the record layer of \<^verbatim>\<open>wal.go\<close>: framing, reading, replay with
    batches, the scan for intact records), \<open>Gcm\<close> and \<open>Encrypt\<close> (\<^verbatim>\<open>encrypt.go\<close>; GCM is defined over a
    block cipher, AES and HKDF are arguments), \<open>Header\<close> (the file header of \<^verbatim>\<open>wal.go\<close>).
  \<^item> \<open>Fs\<close> (\<^verbatim>\<open>fs.go\<close> and the interface \<^verbatim>\<open>logfile\<close>): a file keeps the bytes the process sees and
    the bytes on stable storage; a directory its current and its durable entries.
  \<^item> \<open>Btype\<close>: the contract of the ordered trees of \<^verbatim>\<open>github.com/tidwall/btype\<close>, which are an
    argument \<open>B\<close> of every definition that uses them: locales \<open>btype_map\<close> and \<open>btype_table\<close>,
    interpreted on red-black trees and on sorted lists.
  \<^item> \<open>State\<close> (\<^verbatim>\<open>state.go\<close>), \<open>Db\<close> (options, handle, direct reads and writes, \<^verbatim>\<open>Sync\<close>, \<^verbatim>\<open>Close\<close> of
    \<^verbatim>\<open>db.go\<close>, and \<^verbatim>\<open>groupcommit.go\<close> as a single goroutine runs it), \<open>Tx\<close> (\<^verbatim>\<open>tx.go\<close>, \<^verbatim>\<open>savepoint.go\<close>;
    savepoints are objects in a store), \<open>Index\<close> (\<^verbatim>\<open>index.go\<close>), \<open>Ttl\<close> (\<^verbatim>\<open>ttl.go\<close>), \<open>Open\<close> (\<^verbatim>\<open>Open\<close> of
    \<^verbatim>\<open>db.go\<close>), \<open>Compact\<close> (\<^verbatim>\<open>compact.go\<close>, with its buffered writer), \<open>Backup\<close>, \<open>Replication\<close>.
  \<^item> \<open>Interleave\<close>: the goroutines around one handle as a step relation \<open>mStep\<close> on a record \<open>machine\<close>
    (the handle, the open transaction, the holder of \<^verbatim>\<open>compactMu\<close>, a sweep in progress), one step
    per critical section; \<open>mRun\<close> is its runs. \<open>Follower\<close> adds a replica that polls.
  \<^item> \<open>GroupCommit\<close>: \<^verbatim>\<open>waitDurable\<close> again, as a step relation of any number of goroutines beside
    appends, \<^verbatim>\<open>Sync\<close>, compaction swaps and \<^verbatim>\<open>Close\<close>, one step per critical section.
  \<^item> \<open>PowerCut\<close>: what a power cut leaves of files and directory entries.

  A handle is the record \<open>db\<close> with the fields of the Go struct; a call returns its result and the
  handle after it. Every call that can fail takes the outcomes of its I/O as an argument: a map
  from the name of the operation to success or to an error with the number of bytes written
  before it, so a theorem about all outcomes covers every failure and short write. Clocks and
  random bytes are arguments.

  \<^bold>\<open>Concurrency.\<close> A critical section of \<^verbatim>\<open>mu\<close> is one definition, executed as one step. Where the code
  drops the lock in the middle of a call, the call is several definitions, and a definition of the
  whole call runs them with nothing in between: \<open>compactStart\<close>, \<open>compactStream\<close>, \<open>compactFinish\<close>
  for \<^verbatim>\<open>Compact\<close>; \<open>backupCapture\<close>, \<open>lf_copy\<close> for \<^verbatim>\<open>BackupTo\<close>; \<open>readCapture\<close>, \<open>readCopy\<close> for
  \<^verbatim>\<open>ReadLogRange\<close>; \<open>sweepScan\<close>, \<open>sweepCommit\<close>, \<open>sweepEnd\<close> for the sweeper; the mark and \<open>closeFinish\<close>
  for \<^verbatim>\<open>Close\<close>. In \<open>mStep\<close> these pieces interleave with each other, with single writes, with the
  operations of an open transaction and with the background goroutines, as far as \<^verbatim>\<open>writerMu\<close> (one
  transaction or write at a time) and \<^verbatim>\<open>compactMu\<close> (one compaction, backup or range read at a time)
  allow. Two things are atomic in \<open>mStep\<close> that are not in the code: the stream of a snapshot,
  whose file and state nobody else touches, and the wait of a write for its fsync, which
  \<open>GroupCommit\<close> takes apart. \<^verbatim>\<open>Backup\<close> is one step there; \<^verbatim>\<open>BackupTo\<close>, which does its copy, is not.

  \<^bold>\<open>Specification.\<close> The abstract database is a map from keys to a value and an optional
  deadline: \<open>view B s\<close> reads it off a state, \<open>visible now\<close> is what a reader at \<open>now\<close> sees, \<open>apOps\<close>
  applies logged operations. \<open>log_inv B vK vV t db hdr its ops\<close> says that the file holds the header
  and the items \<open>its\<close> (a record or a whole batch each), that they denote \<open>ops\<close>, and that
  \<open>ops\<close> give the state for every reader from time \<open>t\<close> on (the log may still hold expired entries
  that compaction has dropped). \<open>wal_db\<close> is the contract between log and database: codecs
  that decode what they encode, a cipher that opens what it seals, trees that meet theirs; it is
  interpreted on the built-in codecs without a cipher and shown for every cipher that
  \<^verbatim>\<open>newWalCipher\<close> builds (\<open>Examples\<close>). Fsync is taken at its word: after a successful one the
  content is on stable storage; a crash leaves a prefix of the file at least that long. A power cut
  (\<open>power_cut\<close>) does that to every file, and leaves under every name the file of the last
  directory sync or the current one.

  \<^bold>\<open>Lemmas.\<close> \<open>LogInv\<close>: appends, sets and deletes against \<open>log_inv\<close>. \<open>TxInv\<close>: the buffer of a
  transaction denotes its changes (\<open>txStep\<close>), commit is one item. \<open>Savepoint\<close>: what is restored.
  \<open>Recovery\<close>: opening any prefix of a log, and damaged ones. \<open>CompactInv\<close>: the three phases.
  \<open>Database\<close>: the invariant \<open>db_ok\<close> of a handle; each call appends whole items and touches no other
  file (\<open>appends\<close>), or, on a handle that refuses writes, changes nothing (\<open>frozen\<close>). \<open>Interleave\<close>: the
  invariant \<open>m_ok\<close> of the machine and that every step keeps it, growth of the log within an epoch,
  reads that hold \<^verbatim>\<open>compactMu\<close> while others write. \<open>Follower\<close>: a replica is the start of a log of its
  epoch. \<open>PowerCut\<close>: only a swap without its directory sync leaves the log's entry behind.

  \<^bold>\<open>Properties.\<close> This theory has those that span components: durability across
  power cuts at any moment, consistency of every reachable handle, atomic updates, single
  writes, compaction, backup, replication, sticky errors, expiry, iteration, indexes,
  savepoints, snapshots, damaged and foreign files. The theories \<open>Wal\<close>, \<open>State\<close>, \<open>Codec\<close>,
  \<open>Encrypt\<close>, \<open>Header\<close> and \<open>GroupCommit\<close> have those of their own component. Each with a hypothesis
  is followed by a witness on a small database of two keys that the model really opens and writes.

  \<^bold>\<open>Bounds and termination.\<close> All definitions are total. Loops over input recurse on its length;
  the one \<open>while\<close>, in \<^verbatim>\<open>waitDurable\<close>, is shown to run its body at most once. No fuel is used. Sizes and
  offsets are natural numbers, since files stay below 2^63 bytes; lengths written to records,
  deadlines and the compaction threshold keep their machine width. The theorems on writes ask
  for encodings up to 2^30 bytes (\<open>fits\<close>) and transactions below 2^64 operations; two
  properties show what happens to larger records and to deadlines past the range of \<^verbatim>\<open>int64\<close>.

  \<^bold>\<open>Not modelled.\<close> \<^verbatim>\<open>release\<close> and \<^verbatim>\<open>releaseState\<close> (they return tree references and have no
  effect on contents), tickers and goroutine start-up (their bodies are modelled), the messages
  of wrapped errors, the reuse of \<^verbatim>\<open>wbuf\<close>, and tests. Data races inside a critical section are
  excluded by the locks, which the model takes as given.
\<close>

section \<open>Durability\<close>

text \<open>Every machine reached from an opened database satisfies the invariant.\<close>

lemma reached_ok:
  assumes w: "wal_db B wc kc vK vc vV" and "disk_synced path fs0"
    and "openCipher hkdf aesNew (openOptions opts) = Inr wc"
    and "openDB B hkdf aesNew io_ok path kc vc opts fs0 = (Inr db0, fs1)"
    and run: "mRun B wc kc vK vc vV T (idle db0) m"
  shows "m_ok B wc kc vK vc vV T m"
  by (rule wal_db.mRun_ok [OF w run m_ok_idle [OF wal_db.open_ok [OF assms(1-4)]]])

lemma reopened_get:
  assumes w: "wal_db B wc kc vK vc vV" and ok: "db_ok B wc kc vK vc vV T db" and wf: "fs_wf fs"
    and oc: "openCipher hkdf aesNew (openOptions opts) = Inr wc"
    and o: "openDB B hkdf aesNew io_ok path kc vc opts fs = (Inr db', fs')"
    and v: "\<forall>now\<ge>T. visible now (view B (db_state db')) = visible now (view B (db_state db))"
  shows "\<forall>now k. T \<le> now \<longrightarrow> dbGet B now k db' = dbGet B now k db"
proof -
  have st: "state_trees B" using w by (simp add: wal_db_def)
  have "state_wf B (db_state db')" using wal_db.openDB_inv [OF w wf oc o, of T] by (auto simp: log_inv_def state_inv_def)
  moreover have "state_wf B (db_state db)" using ok by (auto simp: db_ok_def log_inv_def state_inv_def)
  ultimately show ?thesis using v state_trees.get_visible [OF st] by (simp add: dbGet_def)
qed





text \<open>
  C23. The directory sync matters, and its failure goes unnoticed. If the swap of a compaction
  succeeded but its \<^verbatim>\<open>SyncDir\<close> did not, the handle accepts and acknowledges writes as before;
  whatever calls follow, there is a power cut after which \<^verbatim>\<open>Open\<close> succeeds and shows the contents of
  the moment before the swap, without them.
\<close>

theorem unsynced_directory_loses_writes:
  assumes "wal_db B wc kc vK vc vV" "disk_synced path fs0"
    and "openCipher hkdf aesNew (openOptions opts) = Inr wc"
    and "openDB B hkdf aesNew io_ok path kc vc opts fs0 = (Inr db0, fs1)"
    and "mRun B wc kc vK vc vV T (idle db0) m" "m_job m = Some (Streamed streamed snap tmp n off)"
    and "db_policy (m_db m) = SyncAlways" "dir_synced (m_db m)"
    and "compactFinish env tmp n off (m_db m) = (None, db1)" "env ''sync dir'' \<noteq> None"
    and "(\<lambda>d d'. \<exists>now. callStep B wc kc vK vc vV now d d')\<^sup>*\<^sup>* db1 db2"
  shows "\<exists>fs db3 fs3. power_cut (db_fs db2) fs \<and>
    openDB B hkdf aesNew io_ok (db_path (m_db m)) kc vc opts fs = (Inr db3, fs3) \<and>
    (\<forall>now k. T \<le> now \<longrightarrow> dbGet B now k db3 = dbGet B now k (m_db m))"
proof -
  have ok: "db_ok B wc kc vK vc vV T (m_db m)" and j: "job_ok B vK vV T (m_db m) (Streamed streamed snap tmp n off)"
    using reached_ok [OF assms(1-5)] assms(6) by (simp_all add: m_ok_def)
  from wal_db.lost_after_swap [OF assms(1) ok j assms(7-11,3)] obtain fs db3 fs3 where cut: "power_cut (db_fs db2) fs"
    and o: "openDB B hkdf aesNew io_ok (db_path (m_db m)) kc vc opts fs = (Inr db3, fs3)"
    and v: "\<forall>now\<ge>T. visible now (view B (db_state db3)) = visible now (view B (db_state (m_db m)))" by blast
  have "fs_wf fs" using cut by (simp add: power_cut_def)
  from reopened_get [OF assms(1) ok this assms(3) o v] o cut show ?thesis by blast
qed

text \<open>Key 8 is set and acknowledged after the swap, and gone after the cut.\<close>

theorem unsynced_directory_loses_writes_witness:
  "\<exists>db1 db2 fs db3 fs3. dbSet std_btype io_ok (Inl ErrClosed) (8 :: int) (80 :: int) db1 = (None, db2) \<and> db_policy db2 = SyncAlways \<and>
     dbGet std_btype 95 8 db2 = Some 80 \<and> power_cut (db_fs db2) fs \<and>
     openDB std_btype noHkdf noAes io_ok ''db'' Int64Codec Int64Codec [] fs = (Inr db3, fs3) \<and> dbGet std_btype 95 8 db3 = None"
proof -
  obtain tmp n off db where
    r: "exRun 95 (idle exDb) \<lparr>m_db = db, m_tx = None, m_job = Some (Streamed 95 exSnap tmp n off), m_sweep = None\<rparr>"
      "view std_btype (db_state db) = [1 \<mapsto> (10, None), 2 \<mapsto> (20, Some 100), 7 \<mapsto> (70, None)]"
      "canWrite db = None" "gs_err (db_gsync db) = None" "db_policy db = SyncAlways" "db_path db = ''db''" "dir_synced db"
      "db_fileEpoch db = db_fileEpoch exDb"
      "\<exists>db3. compactFinish io_ok tmp n off db = (None, db3)" "\<exists>db3. compactFinish exNoDir tmp n off db = (None, db3)"
    by (rule ex_streaming)
  from r(10) obtain db1 where fin: "compactFinish exNoDir tmp n off db = (None, db1)" by blast
  note e = ex_swapped [OF r(1,3) fin]
  define db2 where "db2 = snd (dbSet std_btype io_ok (Inl ErrClosed) 8 80 db1)"
  have rg: "int64_range 8" "int64_range 80" "int64_range 0" by (simp_all add: int64_range_def)
  have g: "gs_err (db_gsync db1) = None" "db_policy db1 = SyncAlways" using e(6) r(4,5) by (simp_all add: same_config_def)
  note w = ex_set [OF e(2,5) g(1) e(7) g(2) rg, of db2 "Inl ErrClosed", folded dbSet_def, OF db2_def]
  have wf2: "state_wf std_btype (db_state db2)" using w(2) by (auto simp: db_ok_def log_inv_def state_inv_def)
  have g8: "dbGet std_btype 95 8 db2 = Some 80" "dbGet std_btype 95 8 db = None"
    using std_trees.get_visible [OF wf2, of 8 95] std_trees.get_visible [OF e(1), of 8 95] w(7) e(8)
    by (simp_all add: dbGet_def visible_def r(2) dl_opt_def)
  have "callStep std_btype None Int64Codec int64_range Int64Codec int64_range 95 db1 db2"
    by (rule callStep.do_set [OF _ _ ex_fits(1) w(1)]) (simp_all add: rg)
  then have calls: "(\<lambda>d d'. \<exists>now. callStep std_btype None Int64Codec int64_range Int64Codec int64_range now d d')\<^sup>*\<^sup>* db1 db2" by blast
  have "\<exists>fs db3 fs3. power_cut (db_fs db2) fs \<and>
      openDB std_btype noHkdf noAes io_ok ''db'' Int64Codec Int64Codec [] fs = (Inr db3, fs3) \<and>
      (\<forall>now k. 95 \<le> now \<longrightarrow> dbGet std_btype now k db3 = dbGet std_btype now k db)"
    using unsynced_directory_loses_writes [OF int_db.wal_db_axioms exFs_facts(2) exCipher ex_open(1) r(1), of 95 exSnap tmp n off exNoDir db1 db2]
      r(5-7) fin calls by (simp add: exNoDir_def)
  then show ?thesis using w(1,6) g8 by force
qed





text \<open>
  C22. Close and open are inverse: a database that is closed and opened again from its own
  filesystem shows every reader the same contents, also when the final sync or close failed.
\<close>

theorem close_then_open:
  assumes "wal_db B wc kc vK vc vV" "db_ok B wc kc vK vc vV t db" "db_writeErr db = None"
    and "dbClose env db = (errs, db')" "openCipher hkdf aesNew (openOptions opts) = Inr wc"
  shows "\<exists>db2 fs2. openDB B hkdf aesNew io_ok (db_path db) kc vc opts (db_fs db') = (Inr db2, fs2) \<and>
    (\<forall>now k. t \<le> now \<longrightarrow> dbGet B now k db2 = dbGet B now k db)"
proof -
  note w = assms(1)
  have st: "state_trees B" using w by (simp add: wal_db_def)
  from appends_ok [OF close_appends [OF assms(2,4)] assms(2)] obtain hdr its ops where
    inv: "log_inv B vK vV t db' hdr its ops" and h: "handle_of wc kc vc db'" by (auto simp: db_ok_def)
  have f: "db_writeErr db' = db_writeErr db" "db_state db' = db_state db" "db_path db' = db_path db"
    using assms(4) by (auto simp: dbClose_def closeFinish_def Let_def markDurable_def split: if_splits prod.splits option.splits)
  have cf: "crashed_fs (db_path db) (hdr @ logBytes its) (db_fs db')"
    using inv f assms(3) by (auto simp: crashed_fs_def log_inv_def file_inv_def)
  from wal_db.backup_opens [OF w inv h cf assms(5)] obtain db2 fs2 where
    o: "openDB B hkdf aesNew io_ok (db_path db) kc vc opts (db_fs db') = (Inr db2, fs2)"
    and v: "\<forall>now\<ge>t. visible now (view B (db_state db2)) = visible now (view B (db_state db'))" by blast
  have "fs_wf (db_fs db')" using cf by (simp add: crashed_fs_def)
  from wal_db.openDB_inv [OF w this assms(5) o, of t] have wf2: "state_wf B (db_state db2)"
    by (auto simp: log_inv_def state_inv_def)
  have wf: "state_wf B (db_state db)" using inv f(2) by (simp add: log_inv_def state_inv_def)
  have "dbGet B now k db2 = dbGet B now k db" if "t \<le> now" for now k
    using that v f(2) state_trees.get_visible [OF st wf, of k now] state_trees.get_visible [OF st wf2, of k now]
    by (simp add: dbGet_def)
  with o show ?thesis by blast
qed

theorem close_then_open_witness:
  "\<exists>db2 fs2. openDB std_btype noHkdf noAes io_ok (db_path exDb2) Int64Codec Int64Codec []
      (db_fs (snd (dbClose io_ok exDb2))) = (Inr db2, fs2) \<and> dbGet std_btype 50 2 db2 = Some 20"
proof -
  have we: "db_writeErr exDb2 = None" using exDb2_facts(3) by (auto simp: canWrite_def split: if_splits)
  have g: "dbGet std_btype 50 2 exDb2 = Some 20"
    using std_trees.get_visible [OF ex_wf, of 2 50] by (simp add: dbGet_def visible_def exDb2_facts(7))
  obtain errs db' where c: "dbClose io_ok exDb2 = (errs, db')" by (metis prod.exhaust)
  from close_then_open [OF int_db.wal_db_axioms exDb2_facts(2) [of 0] we c exCipher] g c show ?thesis by force
qed

section \<open>Writes\<close>

text \<open>
  C17. A set changes the log and the memory together: either it returns an error, appends
  nothing and leaves the state as it was, or it appends one record and the state becomes the
  old map with the key bound to the value and its deadline (none unless positive). Under
  \<^verbatim>\<open>SyncAlways\<close> success means that the log is on stable storage. The invariant is kept on every
  branch: codec errors, a read-only or closed handle, a failed append, a failed sync.
\<close>

theorem set_effect:
  assumes "wal_db B wc kc vK vc vV" "log_inv B vK vV t db hdr its ops" "handle_of wc kc vc db"
    and "vK k" "vV v" "int64_range dl" "fits wc kc vc k v" "setInternal B env rnd k v dl db = (r, db')"
  shows "(r \<noteq> None \<and> log_inv B vK vV t db' hdr its ops \<and> db_state db' = db_state db) \<or>
    (\<exists>it dl'. log_inv B vK vV t db' hdr (its @ [it]) (ops @ [LSet k v dl']) \<and>
       view B (db_state db') = (view B (db_state db))(k \<mapsto> (v, if 0 < dl then Some dl else None)) \<and>
       (r = None \<and> db_policy db = SyncAlways \<longrightarrow> log_durable db'))"
proof -
  have "state_trees B" using assms(1) by (simp add: wal_db_def)
  from state_trees.view_set [OF this] wal_db.setInternal_cases [OF assms] show ?thesis
    by (fastforce simp: dl_opt_def)
qed

theorem set_effect_witness:
  "\<exists>hdr its ops it dl'. log_inv std_btype int64_range int64_range 0 exDb hdr its ops \<and>
     log_inv std_btype int64_range int64_range 0 exDb1 hdr (its @ [it]) (ops @ [LSet 1 10 dl']) \<and>
     view std_btype (db_state exDb1) = (view std_btype (db_state exDb))(1 \<mapsto> (10, None)) \<and> log_durable exDb1"
proof -
  obtain hdr its ops where inv: "log_inv std_btype int64_range int64_range 0 exDb hdr its ops"
      "handle_of None Int64Codec Int64Codec exDb" using ex_log_inv [OF exDb_ok] by blast
  have r: "int64_range 1" "int64_range 10" "int64_range 0" by (simp_all add: int64_range_def)
  from set_effect [OF int_db.wal_db_axioms inv r ex_fits(1) exDb1_facts(1) [unfolded dbSet_def]]
  obtain it dl' where "log_inv std_btype int64_range int64_range 0 exDb1 hdr (its @ [it]) (ops @ [LSet 1 10 dl'])"
    "view std_btype (db_state exDb1) = (view std_btype (db_state exDb))(1 \<mapsto> (10, None))" "log_durable exDb1" by auto
  with inv(1) show ?thesis by blast
qed

text \<open>
  C18. A delete returns true exactly when a reader could see the key, although it also removes a
  key that is present but expired; it removes the key from the map and appends one record, and
  a delete of an absent key appends nothing. On an error that is not a failed sync nothing
  changes.
\<close>

theorem delete_effect:
  assumes "wal_db B wc kc vK vc vV" "log_inv B vK vV t db hdr its ops" "handle_of wc kc vc db"
    and "vK k" "key_fits kc k" "dbDelete B env rnd now k db = (r, db')"
  shows "(log_inv B vK vV t db' hdr its ops \<and> db_state db' = db_state db \<and>
      (r = Inr False \<and> view B (db_state db) k = None \<or> (\<exists>e. r = Inl e))) \<or>
    (\<exists>it. log_inv B vK vV t db' hdr (its @ [it]) (ops @ [LDel k]) \<and>
       view B (db_state db') = (view B (db_state db))(k := None) \<and>
       (\<forall>b. r = Inr b \<longrightarrow> (b \<longleftrightarrow> dbGet B now k db \<noteq> None) \<and> (db_policy db = SyncAlways \<longrightarrow> log_durable db')))"
proof -
  have st: "state_trees B" using assms(1) by (simp add: wal_db_def)
  have wf: "state_wf B (db_state db)" using assms(2) by (simp add: log_inv_def state_inv_def)
  have "dbGet B now k db = visible now (view B (db_state db)) k"
    using state_trees.get_visible [OF st wf] by (simp add: dbGet_def)
  with state_trees.view_delete [OF st wf, of k] wal_db.dbDelete_cases [OF assms] show ?thesis by fastforce
qed

theorem delete_effect_witness:
  "\<exists>hdr its ops. log_inv std_btype int64_range int64_range 0 exDb hdr its ops \<and>
     dbDelete std_btype io_ok (Inl ErrClosed) 0 5 exDb = (Inr False, exDb) \<and>
     ((view std_btype (db_state exDb) 5 = None) \<or>
      (\<exists>it. log_inv std_btype int64_range int64_range 0 exDb hdr (its @ [it]) (ops @ [LDel 5])))"
proof -
  obtain hdr its ops where inv: "log_inv std_btype int64_range int64_range 0 exDb hdr its ops"
      "handle_of None Int64Codec Int64Codec exDb" using ex_log_inv [OF exDb_ok] by blast
  have run: "dbDelete std_btype io_ok (Inl ErrClosed) 0 5 exDb = (Inr False, exDb)"
    using ex_encode [of 5] ex_open(3,6) by (auto simp: dbDelete_def std_trees.contains_view)
  have "int64_range 5" by (simp add: int64_range_def)
  from delete_effect [OF int_db.wal_db_axioms inv this ex_fits(2) run] inv(1) run show ?thesis by auto
qed

text \<open>
  C5. An update is all or nothing. Its body runs any operations of the transaction (sets,
  deletes, range deletes, savepoints and rollbacks to them) and returns, fails or panics. If
  it fails or panics, memory and log stay as they were and the failure is what the caller
  sees. If it returns nil, either the commit is refused or fails to append and nothing
  changes, or the log gains exactly one item and the state becomes the transaction's; success
  under \<^verbatim>\<open>SyncAlways\<close> means that item is on stable storage. The writer lock is free afterwards
  in every case.
\<close>

theorem update_all_or_nothing:
  assumes "wal_db B wc kc vK vc vV" "log_inv B vK vV t db hdr its ops" "handle_of wc kc vc db"
    and "dbBegin B True db = (Inr tx, db1)" "fn hp db1 tx = (o1, hp1, db1, tx1)"
    and "(txStep B vK vV db1)\<^sup>*\<^sup>* (hp, tx) (hp1, tx1)" "tx_nops tx1 < 2 ^ 64"
    and "dbUpdate B env fn hp db = (out, hp', db')"
  shows "\<not> db_writerMu db' \<and>
    (o1 \<noteq> Returned None \<and> out = o1 \<and> log_inv B vK vV t db' hdr its ops \<and> db_state db' = db_state db \<or>
     (\<exists>r. o1 = Returned None \<and> out = Returned r \<and>
        (r = None \<longrightarrow> view B (db_state db') = view B (tx_state tx1)) \<and>
        (log_inv B vK vV t db' hdr its ops \<and> db_state db' = db_state db \<or>
         (\<exists>it tops. log_inv B vK vV t db' hdr (its @ [it]) (ops @ tops) \<and> db_state db' = tx_state tx1 \<and>
            view B (tx_state tx1) = apOps tops (view B (db_state db)) \<and>
            (r = None \<and> db_policy db = SyncAlways \<longrightarrow> log_durable db')))))"
  using wal_db.dbUpdate_run [OF assms] by blast

text \<open>A body that sets two keys and then panics, and one that returns.\<close>

definition exBody where
  "exBody out hp db tx =
     (out :: outcome, hp, db, snd (txSet std_btype (Inl ErrClosed) db 4 40 (snd (txSet std_btype (Inl ErrClosed) db (3::int) (30::int) tx))))"

lemma exBody_runs:
  assumes "db_ok std_btype None Int64Codec int64_range Int64Codec int64_range t db" "canWrite db = None"
  shows "\<exists>tx db1 tx1. dbBegin std_btype True db = (Inr tx, db1) \<and> exBody out hp db1 tx = (out, hp, db1, tx1) \<and>
    (txStep std_btype int64_range int64_range db1)\<^sup>*\<^sup>* (hp, tx) (hp, tx1) \<and> tx_nops tx1 < 2 ^ 64 \<and>
    view std_btype (tx_state tx1) = (view std_btype (db_state db))(3 \<mapsto> (30, None), 4 \<mapsto> (40, None))"
proof -
  obtain hdr its ops where inv: "log_inv std_btype int64_range int64_range t db hdr its ops"
    and h: "handle_of None Int64Codec Int64Codec db" using ex_log_inv [OF assms(1)] by blast
  let ?db1 = "db\<lparr>db_writerMu := True\<rparr>"
  obtain tx where bg: "dbBegin std_btype True db = (Inr tx, ?db1)" and tx: "tx_nops tx = 0"
    using assms(2) by (auto simp: dbBegin_def)
  note b = int_db.dbBegin_inv [OF inv bg]
  have h1: "db_cipher ?db1 = None" "db_keyCodec ?db1 = Int64Codec" "db_valCodec ?db1 = Int64Codec"
    using h by (simp_all add: handle_of_def)
  have set: "\<exists>tx'. txSet std_btype (Inl ErrClosed) ?db1 k v tx0 = (None, tx') \<and>
      txStep std_btype int64_range int64_range ?db1 (hp, tx0) (hp, tx') \<and> \<not> tx_done tx' \<and> tx_writable tx' \<and>
      tx_nops tx' = tx_nops tx0 + 1 \<and> view std_btype (tx_state tx') = (view std_btype (tx_state tx0))(k \<mapsto> (v, None))"
    if "\<not> tx_done tx0" "tx_writable tx0" "int64_range k" "int64_range v" for k v tx0
  proof -
    obtain kb vb where e: "Encode Int64Codec k = Inr kb" "Encode Int64Codec v = Inr vb" using ex_encode by blast
    let ?tx = "tx0\<lparr>tx_pending := appendRecord (tx_pending tx0) opSet kb vb, tx_nops := tx_nops tx0 + 1,
        tx_state := stateSet std_btype k v 0 (tx_state tx0)\<rparr>"
    have run: "txSetInternal std_btype (Inl ErrClosed) ?db1 k v 0 tx0 = (None, ?tx)"
      using that h1 e by (simp add: txSetInternal_def appendSealedRecord_def)
    have "txStep std_btype int64_range int64_range ?db1 (hp, tx0) (hp, ?tx)"
      by (rule txStep.step_set [where vK = int64_range and vV = int64_range, OF that(3,4) _ _ run])
        (simp_all only: h1 ex_fits, simp_all add: int64_range_def)
    then show ?thesis using run that(1,2)
      by (intro exI [of _ ?tx]) (simp add: txSet_def std_trees.view_set dl_opt_def)
  qed
  have r: "int64_range 3" "int64_range 30" "int64_range 4" "int64_range 40" by (simp_all add: int64_range_def)
  from set [OF b(3,4) r(1,2)] obtain txa where a: "txSet std_btype (Inl ErrClosed) ?db1 3 30 tx = (None, txa)"
      "txStep std_btype int64_range int64_range ?db1 (hp, tx) (hp, txa)" "\<not> tx_done txa" "tx_writable txa"
      "tx_nops txa = 1" "view std_btype (tx_state txa) = (view std_btype (db_state db))(3 \<mapsto> (30, None))"
    using tx b(5) by auto
  from set [OF a(3,4) r(3,4)] obtain txb where c: "txSet std_btype (Inl ErrClosed) ?db1 4 40 txa = (None, txb)"
      "txStep std_btype int64_range int64_range ?db1 (hp, txa) (hp, txb)" "tx_nops txb = 2"
      "view std_btype (tx_state txb) = (view std_btype (db_state db))(3 \<mapsto> (30, None), 4 \<mapsto> (40, None))"
    using a by auto
  have "exBody out hp ?db1 tx = (out, hp, ?db1, txb)" by (simp add: exBody_def a c)
  moreover have "(txStep std_btype int64_range int64_range ?db1)\<^sup>*\<^sup>* (hp, tx) (hp, txb)"
    using a(2) c(2) by auto
  ultimately show ?thesis using bg c by (intro exI [of _ tx] exI [of _ ?db1] exI [of _ txb]) simp
qed

theorem update_all_or_nothing_witness:
  "\<forall>hp. db_state (snd (snd (dbUpdate std_btype io_ok (exBody Panicked) hp exDb2))) = db_state exDb2 \<and>
     \<not> db_writerMu (snd (snd (dbUpdate std_btype io_ok (exBody Panicked) hp exDb2)))"
proof
  fix hp
  obtain hdr its ops where inv: "log_inv std_btype int64_range int64_range 0 exDb2 hdr its ops"
      "handle_of None Int64Codec Int64Codec exDb2" using ex_log_inv [OF exDb2_facts(2)] by blast
  obtain out hp' db' where run: "dbUpdate std_btype io_ok (exBody Panicked) hp exDb2 = (out, hp', db')"
    by (metis prod.exhaust)
  obtain tx db1 tx1 where b: "dbBegin std_btype True exDb2 = (Inr tx, db1)"
      "exBody Panicked hp db1 tx = (Panicked, hp, db1, tx1)"
      "(txStep std_btype int64_range int64_range db1)\<^sup>*\<^sup>* (hp, tx) (hp, tx1)" "tx_nops tx1 < 2 ^ 64"
    using exBody_runs [OF exDb2_facts(2) [of 0] exDb2_facts(3), where out = Panicked and hp = hp] by blast
  from update_all_or_nothing [OF int_db.wal_db_axioms inv b run] run
  show "db_state (snd (snd (dbUpdate std_btype io_ok (exBody Panicked) hp exDb2))) = db_state exDb2 \<and>
     \<not> db_writerMu (snd (snd (dbUpdate std_btype io_ok (exBody Panicked) hp exDb2)))" by simp
qed

section \<open>Compaction\<close>

text \<open>
  C6. Compaction keeps the contents, with writers between its two critical sections. The
  snapshot is of the state at the first one, \<open>its'\<close> and \<open>ops'\<close> are what was appended until the
  second. Memory is that of the writers in every case. If compaction fails, whatever the step,
  the old log is still the log, byte for byte. If it succeeds, the log at the same path is one
  record per key visible at the snapshot followed by the writers' items; it is on stable
  storage, its operations give the state (but for entries that had expired), and the epoch has
  grown by one.
\<close>

theorem compaction_keeps_contents:
  assumes "wal_db B wc kc vK vc vV" "log_inv B vK vV t db0 hdr its ops" "handle_of wc kc vc db0"
    and "\<And>k v. visible now (view B (db_state db0)) k = Some v \<Longrightarrow> fits wc kc vc k v"
    and "compactStart B db0 = Inr (snap, off)"
    and "compactStream B env wenv rnds now snap db0 = (Inr (tmp, n), db1)"
    and "writers_ran db1 db2" "log_inv B vK vV t db2 hdr (its @ its') (ops @ ops')"
    and "compactFinish env tmp n off db2 = (r, db3)"
  shows "db_state db3 = db_state db2 \<and>
    (r \<noteq> None \<and> the_file db3 = the_file db2 \<and> log_inv B vK vV t db3 hdr (its @ its') (ops @ ops') \<or>
     r = None \<and> log_durable db3 \<and> db_fileEpoch db3 = db_fileEpoch db2 + 1 \<and>
     (\<exists>its1 ops1. length its1 = card (dom (visible now (view B (db_state db0)))) \<and>
        log_inv B vK vV (max t now) db3 (headerFor wc) (its1 @ its') (ops1 @ ops') \<and>
        lf_content (the_file db3) = headerFor wc @ logBytes (its1 @ its') \<and>
        (\<forall>u. max t now \<le> u \<longrightarrow>
           visible u (apOps (ops1 @ ops') Map.empty) = visible u (view B (db_state db2)))))"
proof -
  have eq: "lf_content (the_file db3) = headerFor wc @ logBytes its2 \<and>
      visible u (apOps ops2 Map.empty) = visible u (view B (db_state db3))"
    if "log_inv B vK vV (max t now) db3 (headerFor wc) its2 ops2" "db_writeErr db3 = None" "max t now \<le> u" for its2 ops2 u
    using that agree_visible [of "max t now" "view B (db_state db3)" "apOps ops2 Map.empty" u]
    by (auto simp: log_inv_def file_inv_def state_inv_def)
  have st: "db_state db3 = db_state db2" using wal_db.compaction [OF assms] by blast
  consider (failed) fs where "r \<noteq> None" "log_inv B vK vV t db3 hdr (its @ its') (ops @ ops')"
      "db3 = db2\<lparr>db_fs := fs\<rparr>" "live_kept db2 fs"
    | (swapped) its1 ops1 where "r = None" "log_durable db3" "db_writeErr db3 = None" "db_fileEpoch db3 = db_fileEpoch db2 + 1"
      "length its1 = card (dom (visible now (view B (db_state db0))))"
      "log_inv B vK vV (max t now) db3 (headerFor wc) (its1 @ its') (ops1 @ ops')"
    using wal_db.compaction [OF assms] by blast
  then show ?thesis
  proof cases
    case failed
    then show ?thesis using st by (auto simp: live_kept_def)
  next
    case swapped
    show ?thesis
      by (intro conjI disjI2 exI [of _ its1] exI [of _ ops1] allI impI st swapped(1,2,4-6))
        (use eq [OF swapped(6,3)] eq [OF swapped(6,3) order_refl] st in \<open>auto simp del: fold_append\<close>)
  qed
qed

text \<open>The example database is compacted while a writer sets key 7.\<close>

theorem compaction_keeps_contents_witness:
  "\<exists>tmp n db1 db2 db3. compactStream std_btype io_ok (\<lambda>_. None) (\<lambda>_. Inl ErrClosed) 95 exSnap exDb2 = (Inr (tmp, n), db1) \<and>
     dbSet std_btype io_ok (Inl ErrClosed) 7 70 db1 = (None, db2) \<and>
     compactFinish io_ok tmp n (db_walSize exDb2) db2 = (None, db3) \<and> db_fileEpoch db3 = db_fileEpoch db2 + 1 \<and>
     view std_btype (db_state db3) = [1 \<mapsto> (10, None), 2 \<mapsto> (20, Some 100), 7 \<mapsto> (70, None)] \<and> log_durable db3 \<and>
     (\<exists>its1 its'. length its1 = 2 \<and> lf_content (the_file db3) = logHeader @ logBytes (its1 @ its'))"
proof -
  obtain tmp n db1 db2 hdr its ops it dl where
    c: "compactStart std_btype exDb2 = Inr (exSnap, db_walSize exDb2)"
      "compactStream std_btype io_ok (\<lambda>_. None) (\<lambda>_. Inl ErrClosed) 95 exSnap exDb2 = (Inr (tmp, n), db1)"
      "dbSet std_btype io_ok (Inl ErrClosed) 7 70 db1 = (None, db2)" "writers_ran db1 db2"
      "log_inv std_btype int64_range int64_range 0 exDb2 hdr its ops"
      "log_inv std_btype int64_range int64_range 0 db2 hdr (its @ [it]) (ops @ [LSet 7 70 dl])"
      "view std_btype (db_state db2) = [1 \<mapsto> (10, None), 2 \<mapsto> (20, Some 100), 7 \<mapsto> (70, None)]"
      "canWrite db2 = None" "gs_err (db_gsync db2) = None" "db_policy db2 = SyncAlways" "db_path db2 = ''db''"
      "\<not> lf_closed (fs_inode (db_fs db2) tmp)" "dir_synced db2" "db_fileEpoch db2 = db_fileEpoch exDb" by (rule ex_compact)
  obtain db3 where fin: "compactFinish io_ok tmp n (db_walSize exDb2) db2 = (None, db3)"
    using compactFinish_runs [OF c(8,12), where env = io_ok] by blast
  have h: "handle_of None Int64Codec Int64Codec exDb2" using exDb2_facts(2) by (simp add: db_ok_def)
  have dm: "dom (visible 95 (view std_btype (db_state exDb2))) = {1, 2}"
    by (auto simp: exDb2_facts(7) visible_def dom_def split: if_splits)
  from compaction_keeps_contents [OF int_db.wal_db_axioms c(5) h ex_fits(1) c(1,2,4,6) fin]
  have k: "db_state db3 = db_state db2" "db_fileEpoch db3 = db_fileEpoch db2 + 1" "log_durable db3"
    "\<exists>its1. length its1 = 2 \<and> lf_content (the_file db3) = logHeader @ logBytes (its1 @ [it])"
    by (auto simp: dm headerFor_def numeral_2_eq_2)
  show ?thesis
    by (rule exI [of _ tmp], rule exI [of _ n], rule exI [of _ db1], rule exI [of _ db2], rule exI [of _ db3],
        intro conjI c(2,3) fin k(2,3)) (use k(1) c(7) in simp, use k(4) in blast)
qed

section \<open>Backup and replication\<close>

text \<open>
  C21. A backup is all or nothing and opens to the same contents. Whatever happens, the handle,
  its log and its memory stay as they were. If \<^verbatim>\<open>Backup\<close> fails before its rename the destination
  is untouched; otherwise it holds the whole log, on stable storage, and a database opened on a
  copy of those bytes with the same key shows every reader what the original shows.
\<close>

theorem backup_copy_opens:
  assumes "wal_db B wc kc vK vc vV" "log_inv B vK vV t db hdr its ops" "handle_of wc kc vc db"
    and "dest \<noteq> db_path db" "dest @ backupSuffix \<noteq> db_path db" "dbBackup env dest db = (r, db')"
    and "openCipher hkdf aesNew (openOptions opts) = Inr wc"
  shows "db_state db' = db_state db \<and> the_file db' = the_file db \<and> log_inv B vK vV t db' hdr its ops \<and>
    (r \<noteq> None \<and> path_file dest (db_fs db') = path_file dest (db_fs db) \<or>
     (\<exists>f. path_file dest (db_fs db') = Some f \<and> lf_synced f = lf_content f \<and>
        (\<forall>path fs. crashed_fs path (lf_content f) fs \<longrightarrow>
           (\<exists>db2 fs2. openDB B hkdf aesNew io_ok path kc vc opts fs = (Inr db2, fs2) \<and>
              (\<forall>now\<ge>t. visible now (view B (db_state db2)) = visible now (view B (db_state db)))))))"
proof -
  have "file_inv db hdr its ops" using assms(2) by (simp add: log_inv_def)
  from dbBackup_cases [OF this assms(4-6)] obtain fs where fs: "db' = db\<lparr>db_fs := fs\<rparr>" "live_kept db fs"
    and c: "r \<noteq> None \<and> path_file dest fs = path_file dest (db_fs db) \<or>
      (\<exists>f. path_file dest fs = Some f \<and> lf_content f = hdr @ logBytes its \<and> lf_synced f = hdr @ logBytes its)" by blast
  have kept: "db_state db' = db_state db" "the_file db' = the_file db" "log_inv B vK vV t db' hdr its ops" "db_fs db' = fs"
    using fs log_inv_live_kept [OF assms(2) fs(2)] by (simp_all add: live_kept_def)
  note o = wal_db.backup_opens [OF assms(1-3) _ assms(7)]
  from c [folded kept(4)] show ?thesis
  proof (elim disjE exE conjE)
    fix f assume f: "path_file dest (db_fs db') = Some f" "lf_content f = hdr @ logBytes its" "lf_synced f = hdr @ logBytes its"
    show ?thesis
      by (intro conjI kept(1-3) disjI2 exI [of _ f] f(1) allI impI) (simp_all only: f o)
  qed (use kept(1-3) in blast)
qed

theorem backup_copy_opens_witness:
  "\<exists>db' f. dbBackup io_ok ''copy'' exDb2 = (None, db') \<and> path_file ''copy'' (db_fs db') = Some f \<and>
     (\<exists>db2 fs2. openDB std_btype noHkdf noAes io_ok ''db'' Int64Codec Int64Codec [] (exFs (lf_content f)) = (Inr db2, fs2) \<and>
        visible 95 (view std_btype (db_state db2)) = [1 \<mapsto> 10, 2 \<mapsto> 20])"
proof -
  obtain hdr its ops where inv: "log_inv std_btype int64_range int64_range 0 exDb2 hdr its ops"
      "handle_of None Int64Codec Int64Codec exDb2" using ex_log_inv [OF exDb2_facts(2)] by blast
  let ?p = "''copy'' @ backupSuffix"
  obtain tmp fs where c: "fsCreate None ?p (db_fs exDb2) = (Inr tmp, fs)" "\<not> lf_closed (fs_inode fs tmp)"
    by (cases "fs_cur (db_fs exDb2) ?p") (simp_all add: fsCreate_def fs_new_def Let_def emptyFile_def)
  have nc: "\<not> db_closed exDb2" using exDb2_facts(3) by (auto simp: canWrite_def)
  have "file_inv exDb2 hdr its ops" using inv(1) by (simp add: log_inv_def)
  from fsCreate_at(1) [OF live_kept_self [OF this] c(1)] have "fs_inode fs (db_file exDb2) = the_file exDb2"
    by (simp add: tmp_at_def live_kept_def exDb2_handle backupSuffix_def)
  then have "fst (dbBackup io_ok ''copy'' exDb2) = None"
    using c nc exDb2_facts(5) by (simp add: dbBackup_def dbBackupTo_def backupCapture_def lf_copy_def Let_def lf_write_def lf_sync_def fsRename_def fsSyncDir_def lf_close_def)
  then obtain db' where run: "dbBackup io_ok ''copy'' exDb2 = (None, db')" by (metis prod.collapse)
  have v: "visible 95 (view std_btype (db_state exDb2)) = [1 \<mapsto> 10, 2 \<mapsto> 20]"
    by (auto simp: exDb2_facts(7) visible_def fun_eq_iff)
  from backup_copy_opens [OF int_db.wal_db_axioms inv _ _ run exCipher]
  obtain f where f: "path_file ''copy'' (db_fs db') = Some f"
    and o: "\<And>path fs. crashed_fs path (lf_content f) fs \<Longrightarrow>
      \<exists>db2 fs2. openDB std_btype noHkdf noAes io_ok path Int64Codec Int64Codec [] fs = (Inr db2, fs2) \<and>
        (\<forall>now\<ge>0. visible now (view std_btype (db_state db2)) = visible now (view std_btype (db_state exDb2)))"
    by (auto simp: exDb2_handle backupSuffix_def)
  from o [OF exFs_facts(3)] v f run show ?thesis by fastforce
qed

text \<open>
  C8. A copy is of one moment, also while others write. \<^verbatim>\<open>BackupTo\<close> captures the file and the length at some
  moment of a run and copies later, with any steps of other goroutines in between that the lock
  \<^verbatim>\<open>compactMu\<close> allows (writes, commits, syncs, even \<^verbatim>\<open>Close\<close>). The bytes delivered are the start of
  the log as it stood at the capture; without an error they are the whole of it, and a database opened
  on them shows every reader what the original showed at that moment.
\<close>

theorem backup_while_writing:
  assumes "wal_db B wc kc vK vc vV" "disk_synced path fs0"
    and "openCipher hkdf aesNew (openOptions opts) = Inr wc"
    and "openDB B hkdf aesNew io_ok path kc vc opts fs0 = (Inr db0, fs1)"
    and "mRun B wc kc vK vc vV T (idle db0) m" "m_job m = None" "backupCapture (m_db m) = Inr (f, n)"
    and "mHeld B wc kc vK vc vV T f n (m\<lparr>m_job := Some (Reading f n)\<rparr>) m'"
    and "lf_copy out 0 n (fs_inode (db_fs (m_db m')) f) = (err, c, bs)"
  shows "c = length bs \<and> bs = take c (lf_content (the_file (m_db m))) \<and> c \<le> db_walSize (m_db m) \<and>
    (err = None \<longrightarrow> c = db_walSize (m_db m) \<and>
       (\<forall>path' fs. crashed_fs path' bs fs \<longrightarrow>
          (\<exists>db2 fs2. openDB B hkdf aesNew io_ok path' kc vc opts fs = (Inr db2, fs2) \<and>
             (\<forall>now k. T \<le> now \<longrightarrow> dbGet B now k db2 = dbGet B now k (m_db m)))))"
proof -
  have mok: "m_ok B wc kc vK vc vV T m" by (rule reached_ok [OF assms(1-5)])
  then have ok: "db_ok B wc kc vK vc vV T (m_db m)" by (simp add: m_ok_def)
  then obtain hdr its ops where inv: "log_inv B vK vV T (m_db m) hdr its ops" and h: "handle_of wc kc vc (m_db m)"
    by (auto simp: db_ok_def)
  from wal_db.held_copy [OF assms(1) mok assms(7-9)] have c: "c = length bs" "prefix bs (logPart (m_db m))"
    "err = None \<longrightarrow> bs = logPart (m_db m)" by simp_all
  have len: "length (logPart (m_db m)) = db_walSize (m_db m)" using inv by (auto simp: logPart_inv [OF inv] log_inv_def file_inv_def)
  have le: "c \<le> db_walSize (m_db m)" using prefix_length_le [OF c(2)] c(1) len by simp
  have "bs = take c (logPart (m_db m))" using c(1,2) by (auto simp: prefix_def)
  then have bs: "bs = take c (lf_content (the_file (m_db m)))" using le by (simp add: logPart_def min_absorb1)
  have o: "\<exists>db2 fs2. openDB B hkdf aesNew io_ok path' kc vc opts fs = (Inr db2, fs2) \<and>
      (\<forall>now k. T \<le> now \<longrightarrow> dbGet B now k db2 = dbGet B now k (m_db m))"
    if "err = None" "crashed_fs path' bs fs" for path' fs
  proof -
    have "crashed_fs path' (hdr @ logBytes its) fs" using that c(3) logPart_inv [OF inv] by simp
    from wal_db.backup_opens [OF assms(1) inv h this assms(3)] obtain db2 fs2 where
      o: "openDB B hkdf aesNew io_ok path' kc vc opts fs = (Inr db2, fs2)"
      and v: "\<forall>now\<ge>T. visible now (view B (db_state db2)) = visible now (view B (db_state (m_db m)))" by blast
    have "fs_wf fs" using that(2) by (simp add: crashed_fs_def)
    from reopened_get [OF assms(1) ok this assms(3) o v] o show ?thesis by blast
  qed
  moreover have "err = None \<longrightarrow> c = db_walSize (m_db m)" using c(1,3) len by simp
  ultimately show ?thesis using c(1) bs le by blast
qed

text \<open>Key 7 is set between the capture and the copy, and is not in the copy.\<close>

theorem backup_while_writing_witness:
  "\<exists>db2 bs db3 fs3. dbSet std_btype io_ok (Inl ErrClosed) 7 70 exDb2 = (None, db2) \<and>
     lf_copy None 0 (db_walSize exDb2) (fs_inode (db_fs db2) (db_file exDb2)) = (None, length bs, bs) \<and>
     openDB std_btype noHkdf noAes io_ok ''db'' Int64Codec Int64Codec [] (exFs bs) = (Inr db3, fs3) \<and>
     dbGet std_btype 95 1 db3 = Some 10 \<and> dbGet std_btype 95 7 db3 = None"
proof -
  let ?j = "Some (Reading (db_file exDb2) (db_walSize exDb2))"
  let ?m = "\<lambda>db. \<lparr>m_db = db, m_tx = None, m_job = ?j, m_sweep = None\<rparr>"
  define db2 where "db2 = snd (dbSet std_btype io_ok (Inl ErrClosed) 7 70 exDb2)"
  have rg: "int64_range 7" "int64_range 70" "int64_range 0" by (simp_all add: int64_range_def)
  note w = ex_set [OF exDb2_facts(2-6) rg, of db2 "Inl ErrClosed", folded dbSet_def, OF db2_def]
  have cap: "backupCapture (m_db (idle exDb2)) = Inr (db_file exDb2, db_walSize exDb2)"
    using exDb2_facts(3) by (auto simp: backupCapture_def canWrite_def)
  have "callStep std_btype None Int64Codec int64_range Int64Codec int64_range 95 exDb2 db2"
    by (rule callStep.do_set [OF _ _ ex_fits(1) w(1)]) (simp_all add: rg)
  then have "exStep 95 (?m exDb2) (?m db2)" using mStep.call [of "?m exDb2"] by simp
  then have held: "mHeld std_btype None Int64Codec int64_range Int64Codec int64_range 95 (db_file exDb2) (db_walSize exDb2)
      ((idle exDb2)\<lparr>m_job := ?j\<rparr>) (?m db2)"
    unfolding mHeld_def idle_def by (intro r_into_rtranclp) auto
  have f: "db_file db2 = db_file exDb2" using w(8) by (simp add: same_handle_def)
  let ?bs = "lf_section (the_file db2) 0 (db_walSize exDb2)"
  have copy: "lf_copy None 0 (db_walSize exDb2) (fs_inode (db_fs (m_db (?m db2))) (db_file exDb2)) = (None, length ?bs, ?bs)"
    using w(5) f by (simp add: lf_copy_def Let_def)
  from backup_while_writing [OF int_db.wal_db_axioms exFs_facts(2) exCipher ex_open(1) ex_run [of 95] _ cap held copy]
  have "\<exists>db3 fs3. openDB std_btype noHkdf noAes io_ok ''db'' Int64Codec Int64Codec [] (exFs ?bs) = (Inr db3, fs3) \<and>
      (\<forall>now k. 95 \<le> now \<longrightarrow> dbGet std_btype now k db3 = dbGet std_btype now k exDb2)" using exFs_facts(3) by simp
  moreover have "dbGet std_btype 95 1 exDb2 = Some 10" "dbGet std_btype 95 7 exDb2 = None"
    using std_trees.get_visible [OF ex_wf, of _ 95] by (simp_all add: dbGet_def visible_def exDb2_facts(7))
  ultimately show ?thesis using w(1) copy by force
qed

text \<open>
  C14. Within an epoch the log only grows. At any two moments of an interleaving of goroutines,
  the epoch is the same and the bytes that \<^verbatim>\<open>LogState\<close> announced at the first are the start of those it
  announces at the second, or the epoch is larger.
\<close>

theorem epoch_bytes_immutable:
  assumes "wal_db B wc kc vK vc vV" "disk_synced path fs0"
    and "openCipher hkdf aesNew (openOptions opts) = Inr wc"
    and "openDB B hkdf aesNew io_ok path kc vc opts fs0 = (Inr db0, fs1)"
    and "mRun B wc kc vK vc vV T (idle db0) m1" "mRun B wc kc vK vc vV T m1 m2"
    and "dbLogState (m_db m1) = Inr (e1, n1)" "dbLogState (m_db m2) = Inr (e2, n2)"
  shows "e1 < e2 \<or> e1 = e2 \<and> n1 \<le> n2 \<and>
    take n1 (lf_content (the_file (m_db m2))) = take n1 (lf_content (the_file (m_db m1))) \<and>
    n2 \<le> length (lf_content (the_file (m_db m2)))"
proof -
  have ok1: "m_ok B wc kc vK vc vV T m1" by (rule reached_ok [OF assms(1-5)])
  have ok2: "m_ok B wc kc vK vc vV T m2" by (rule wal_db.mRun_ok [OF assms(1,6) ok1])
  have e: "e1 = db_fileEpoch (m_db m1)" "n1 = db_walSize (m_db m1)" "e2 = db_fileEpoch (m_db m2)" "n2 = db_walSize (m_db m2)"
    using assms(7,8) by (auto simp: dbLogState_def split: if_splits)
  have len: "db_walSize (m_db m) \<le> length (lf_content (the_file (m_db m)))" if "m_ok B wc kc vK vc vV T m" for m
    using that by (auto simp: m_ok_def db_ok_def log_inv_def file_inv_def)
  note g = wal_db.mRun_grows [OF assms(1,6) ok1]
  show ?thesis
  proof (cases "e1 < e2")
    case False
    then have p: "e1 = e2" "prefix (logPart (m_db m1)) (logPart (m_db m2))" using g by (simp_all add: grows_def e)
    from prefix_length_le [OF p(2)] have le: "n1 \<le> n2" using len [OF ok1] len [OF ok2] by (simp add: logPart_def e)
    from p(2) obtain zs where "logPart (m_db m2) = logPart (m_db m1) @ zs" by (auto simp: prefix_def)
    then have "take n1 (logPart (m_db m2)) = logPart (m_db m1)" using len [OF ok1] by (simp add: logPart_def e)
    then show ?thesis using p(1) le len [OF ok2] by (simp add: logPart_def e min_absorb1)
  qed simp
qed

theorem epoch_bytes_immutable_witness:
  "db_walSize exDb \<le> db_walSize exDb2 \<and>
   take (db_walSize exDb) (lf_content (the_file exDb2)) = take (db_walSize exDb) (lf_content (the_file exDb))"
proof -
  have "\<not> db_closed exDb2" using exDb2_facts(3) by (auto simp: canWrite_def)
  then have l: "dbLogState (m_db (idle exDb)) = Inr (0, db_walSize exDb)" "dbLogState (m_db (idle exDb2)) = Inr (0, db_walSize exDb2)"
    by (simp_all add: dbLogState_def exDb2_handle(2))
  from epoch_bytes_immutable [OF int_db.wal_db_axioms exFs_facts(2) exCipher ex_open(1) mRun_refl ex_run [of 90] l]
  show ?thesis by simp
qed



text \<open>
  C35. A poll catches up: with working I/O and room for what is missing, \<^verbatim>\<open>ReadLogRange\<close> of the
  current epoch completes the follower's copy to the whole log; of any other epoch it delivers
  nothing and returns \<^verbatim>\<open>ErrEpochChanged\<close>, whatever the I/O.
\<close>

theorem poll_catches_up:
  assumes "log_inv B vK vV t db hdr its ops" "\<not> db_closed db" "0 \<le> mx"
    and "prefix rep (take (db_walSize db) (lf_content (the_file db)))" "int (db_walSize db) \<le> int (length rep) + mx"
  shows "(\<exists>out. dbReadLogRange io_ok (db_fileEpoch db) (int (length rep)) mx db = (None, length out, out) \<and>
      rep @ out = hdr @ logBytes its \<and> rep @ out = take (db_walSize db) (lf_content (the_file db))) \<and>
    (\<forall>epoch env. epoch \<noteq> db_fileEpoch db \<longrightarrow>
      dbReadLogRange env epoch (int (length rep)) mx db = (Some ErrEpochChanged, 0, []))"
proof -
  note lp = logPart_inv [OF assms(1), unfolded logPart_def]
  have inv: "file_inv db hdr its ops" using assms(1) by (simp add: log_inv_def)
  have rep: "rep = take (length rep) (hdr @ logBytes its)"
    using assms(4) unfolding lp by (auto simp: prefix_def simp del: take_append) (metis append_eq_conv_conj)
  have "length rep \<le> length (hdr @ logBytes its)" using assms(4) prefix_length_le unfolding lp by blast
  then have le: "length rep \<le> db_walSize db" using inv by (simp add: file_inv_def)
  obtain err n out where run: "dbReadLogRange io_ok (db_fileEpoch db) (int (length rep)) mx db = (err, n, out)"
    by (metis prod.exhaust)
  have "\<not> lf_closed (the_file db)" using inv assms(2) by (auto simp: file_inv_def)
  then have e: "err = None" using run assms(2,3) le
    by (auto simp: dbReadLogRange_def readCapture_def readCopy_def lf_copy_def Let_def split: if_splits)
  note run' = run [unfolded e]
  have "rep @ out = hdr @ logBytes its" by (rule follower_catches_up [OF inv rep run' assms(5)])
  moreover have "n = length out" by (rule dbReadLogRange_bytes(1) [OF inv run])
  ultimately show ?thesis using run' assms(2,3) lp by (auto simp: dbReadLogRange_epoch)
qed

theorem poll_catches_up_witness:
  "\<exists>out. dbReadLogRange io_ok 0 0 (int (db_walSize exDb2)) exDb2 = (None, length out, out) \<and>
     out = take (db_walSize exDb2) (lf_content (the_file exDb2))"
proof -
  obtain hdr its ops where inv: "log_inv std_btype int64_range int64_range 0 exDb2 hdr its ops"
    using ex_log_inv [OF exDb2_facts(2)] by blast
  have nc: "\<not> db_closed exDb2" using exDb2_facts(3) by (auto simp: canWrite_def)
  have le: "int (db_walSize exDb2) \<le> int (length ([] :: bytes)) + int (db_walSize exDb2)" by simp
  from poll_catches_up [OF inv nc of_nat_0_le_iff prefix_bot.extremum le] obtain out where
    "dbReadLogRange io_ok (db_fileEpoch exDb2) (int (length ([] :: bytes))) (int (db_walSize exDb2)) exDb2 = (None, length out, out)"
    "[] @ out = take (db_walSize exDb2) (lf_content (the_file exDb2))" by blast
  then show ?thesis by (intro exI [of _ out] conjI) (simp_all only: exDb2_handle(2) exDb_facts(4) list.size(3) semiring_1_class.of_nat_0 append_Nil)
qed

section \<open>Errors, expiry and bounds\<close>

text \<open>
  C15. Errors are sticky. A handle that is closed or whose append or group sync has failed refuses
  every write, and whatever the goroutines around it do from then on, an open transaction's commit
  and a compaction under way included, with any I/O outcome, it keeps refusing, shows the same contents and keeps the bytes of its log. And a write that returns an
  error has left the handle as it was or made it refuse.
\<close>

theorem refused_forever:
  assumes "wal_db B wc kc vK vc vV" "m_ok B wc kc vK vc vV T m" "db = m_db m" "db' = m_db m'"
  shows "(canWrite db \<noteq> None \<and> mRun B wc kc vK vc vV T m m' \<longrightarrow>
      canWrite db' \<noteq> None \<and> view B (db_state db') = view B (db_state db) \<and>
      lf_content (the_file db') = lf_content (the_file db) \<and>
      (\<exists>e. setInternal B env rnd k v dl db' = (Some e, db')) \<and> (\<exists>e. dbDelete B env rnd now k db' = (Inl e, db')) \<and>
      (\<exists>e. dbBegin B True db' = (Inl e, db')) \<and> (\<exists>e. dbCompact B env wenv rnds now db' = (Some e, db'))) \<and>
    (setInternal B env rnd k v dl db = (Some e', db'') \<longrightarrow> db'' = db \<or> canWrite db'' \<noteq> None) \<and>
    (dbDelete B env rnd now k db = (Inl e', db'') \<longrightarrow> db'' = db \<or> canWrite db'' \<noteq> None)"
proof (intro conjI impI)
  assume a: "canWrite db \<noteq> None \<and> mRun B wc kc vK vc vV T m m'"
  then have f: "frozen B db db'" "canWrite db' \<noteq> None" using wal_db.mRun_frozen [OF assms(1) _ assms(2)] assms(3,4) by blast+
  then obtain e where e: "canWrite db' = Some e" by auto
  note r = setInternal_refused [OF e] dbDelete_refused [OF e] compactStart_refused [OF e]
  show "canWrite db' \<noteq> None" "view B (db_state db') = view B (db_state db)"
    "lf_content (the_file db') = lf_content (the_file db)" using f by (simp_all add: frozen_def)
  show "\<exists>e. setInternal B env rnd k v dl db' = (Some e, db')" "\<exists>e. dbDelete B env rnd now k db' = (Inl e, db')"
    "\<exists>e. dbCompact B env wenv rnds now db' = (Some e, db')" "\<exists>e. dbBegin B True db' = (Inl e, db')"
    using r f(2) by (auto simp: dbBegin_def dbCompact_def)
next
  have s: "sound db" using assms(2,3) by (simp add: m_ok_def db_ok_def)
  show "db'' = db \<or> canWrite db'' \<noteq> None" if "setInternal B env rnd k v dl db = (Some e', db'')"
    using setInternal_settled [OF s that] by (auto simp: settled_def canWrite_def)
  show "db'' = db \<or> canWrite db'' \<noteq> None" if "dbDelete B env rnd now k db = (Inl e', db'')"
    using dbDelete_settled [OF s that] by (auto simp: settled_def canWrite_def)
qed

theorem refused_forever_witness:
  "\<exists>errs db'. dbClose io_ok exDb2 = (errs, db') \<and> canWrite db' \<noteq> None \<and>
     view std_btype (db_state db') = [1 \<mapsto> (10, None), 2 \<mapsto> (20, Some 100)] \<and>
     (\<exists>e. setInternal std_btype io_ok (Inl ErrClosed) 3 30 0 db' = (Some e, db'))"
proof -
  obtain errs db' where run: "dbClose io_ok exDb2 = (errs, db')" by (metis prod.exhaust)
  have mu: "\<not> db_writerMu db'" using run exDb2_handle(3)
    by (auto simp: dbClose_def closeFinish_def Let_def markDurable_def split: if_splits prod.splits option.splits)
  have ok: "m_ok std_btype None Int64Codec int64_range Int64Codec int64_range 0 (idle db')"
    by (rule m_ok_idle [OF appends_ok [OF close_appends [OF exDb2_facts(2) run] exDb2_facts(2)] mu])
  have nc: "\<not> db_closed exDb2" using exDb2_facts(3) by (auto simp: canWrite_def)
  have c: "canWrite db' \<noteq> None" "view std_btype (db_state db') = view std_btype (db_state exDb2)"
    using run nc exDb2_facts(5)
    by (auto simp: dbClose_def closeFinish_def lf_sync_def lf_close_def canWrite_def markDurable_def Let_def split: prod.splits)
  from refused_forever [OF int_db.wal_db_axioms ok refl refl, of "idle db'" io_ok "Inl ErrClosed" 3 30 0] c
  have "\<exists>e. setInternal std_btype io_ok (Inl ErrClosed) 3 30 0 db' = (Some e, db')" by simp
  with run c exDb2_facts(7) show ?thesis by auto
qed

text \<open>
  C20. A sweep removes only what no reader can see. Every reader whose clock is at least the sweep's
  sees the same contents before and after, failed sweeps included, and the log stays
  consistent with memory. A sweep that returns nil on an open handle has removed 512 of the
  expired keys, or all if there were fewer.
\<close>

theorem sweep_removes_expired:
  assumes "wal_db B wc kc vK vc vV" "log_inv B vK vV t db hdr its ops" "handle_of wc kc vc db" "\<not> db_writerMu db"
    and "\<And>k. view B (db_state db) k \<noteq> None \<Longrightarrow> key_fits kc k \<and> (\<exists>kb. Encode kc k = Inr kb)"
    and "sweepExpired B env now now' db = (r, db')"
  shows "\<not> db_writerMu db' \<and> (\<exists>its' ops'. log_inv B vK vV t db' hdr (its @ its') (ops @ ops')) \<and>
    (\<forall>u k. now \<le> u \<longrightarrow> dbGet B u k db' = dbGet B u k db) \<and>
    (r = None \<and> \<not> db_closed db \<longrightarrow>
       card {k. expired B k now (db_state db')} = card {k. expired B k now (db_state db)} - 512)"
proof -
  have st: "state_trees B" using assms(1) by (simp add: wal_db_def)
  have wf: "state_wf B (db_state db)" using assms(2) by (simp add: log_inv_def state_inv_def)
  have c: "\<not> db_writerMu db'" "\<exists>its' ops'. log_inv B vK vV t db' hdr (its @ its') (ops @ ops')"
    "\<forall>u. now \<le> u \<longrightarrow> visible u (view B (db_state db')) = visible u (view B (db_state db))"
    "r = None \<and> \<not> db_closed db \<longrightarrow>
       card {k. expired B k now (db_state db')} = card {k. expired B k now (db_state db)} - 512"
    using wal_db.sweepExpired_cases [OF assms] unfolding sweepBatchLimit_def by blast+
  then have wf': "state_wf B (db_state db')" by (auto simp: log_inv_def state_inv_def)
  have "\<forall>u k. now \<le> u \<longrightarrow> dbGet B u k db' = dbGet B u k db"
    using c(3) state_trees.get_visible [OF st wf] state_trees.get_visible [OF st wf'] by (simp add: dbGet_def)
  with c(1,2,4) show ?thesis by blast
qed

theorem sweep_removes_expired_witness:
  "\<exists>r db'. sweepExpired std_btype io_ok 200 200 exDb2 = (r, db') \<and> dbGet std_btype 200 1 db' = Some 10 \<and>
     dbGet std_btype 200 2 db' = None"
proof -
  obtain hdr its ops where inv: "log_inv std_btype int64_range int64_range 0 exDb2 hdr its ops"
    "handle_of None Int64Codec Int64Codec exDb2" using ex_log_inv [OF exDb2_facts(2)] by blast
  obtain r db' where run: "sweepExpired std_btype io_ok 200 200 exDb2 = (r, db')" by (metis prod.exhaust)
  have "\<forall>u k. 200 \<le> u \<longrightarrow> dbGet std_btype u k db' = dbGet std_btype u k exDb2"
    using sweep_removes_expired [OF int_db.wal_db_axioms inv exDb2_handle(3) _ run] ex_encode ex_fits(2) by blast
  moreover have "dbGet std_btype 200 1 exDb2 = Some 10" "dbGet std_btype 200 2 exDb2 = None"
    using std_trees.get_visible [OF ex_wf, of 1 200] std_trees.get_visible [OF ex_wf, of 2 200]
    by (simp_all add: dbGet_def visible_def exDb2_facts(7))
  ultimately show ?thesis using run by auto
qed



text \<open>
  C37. Time to live. A time to live that is not positive is refused and changes nothing. Otherwise,
  after a successful \<^verbatim>\<open>SetTTL\<close> at \<open>now\<close>, the key is visible exactly to clocks below \<open>now + ttl\<close> and
  \<^verbatim>\<open>TTL\<close> returns what is left, as long as the deadline fits an \<^verbatim>\<open>int64\<close> of nanoseconds; a larger
  one wraps to a negative number, and the key is stored without any deadline.
\<close>

theorem setTTL_deadline:
  assumes "wal_db B wc kc vK vc vV" "log_inv B vK vV t db hdr its ops" "handle_of wc kc vc db"
    and "vK k" "vV v" "fits wc kc vc k v" "0 \<le> now" "int64_range now" "int64_range ttl"
    and "dbSetTTL B env rnd now k v ttl db = (r, db')"
  shows "(ttl \<le> 0 \<longrightarrow> r = Some (ErrNew ''ttl must be positive'') \<and> db' = db) \<and>
    (r = None \<and> now + ttl < 2 ^ 63 \<longrightarrow>
      (\<forall>u. dbGet B u k db' = (if u < now + ttl then Some v else None)) \<and>
      (\<forall>u. 0 \<le> u \<longrightarrow> dbTTL B u k db' = (if u < now + ttl then Some (now + ttl - u) else None))) \<and>
    (r = None \<and> 2 ^ 63 \<le> now + ttl \<longrightarrow> (\<forall>u. dbGet B u k db' = Some v \<and> dbTTL B u k db' = None))"
proof (cases "ttl \<le> 0")
  case True
  then show ?thesis using assms(10) by (auto simp: dbSetTTL_def)
next
  case False
  have st: "state_trees B" using assms(1) by (simp add: wal_db_def)
  let ?dl = "int64_wrap (now + ttl)"
  have run: "setInternal B env rnd k v ?dl db = (r, db')" using assms(10) False by (simp add: dbSetTTL_def deadlineAt_def)
  have big: "?dl = now + ttl - 2 ^ 64" if "2 ^ 63 \<le> now + ttl"
  proof -
    have "?dl = int64_wrap (now + ttl - 2 ^ 64)"
    proof -
      have "(word_of_int (now + ttl - 2 ^ 64) :: 64 word) = word_of_int (now + ttl)"
        unfolding word_of_int_eq_iff take_bit_eq_mod using minus_mod_self2 [of "now + ttl" "2 ^ 64"] by simp
      then show ?thesis by (simp only: int64_wrap_def uint64_of_int64_def)
    qed
    moreover have "int64_range (now + ttl - 2 ^ 64)" using that assms(8,9) by (simp add: int64_range_def)
    ultimately show ?thesis by simp
  qed
  have small: "?dl = now + ttl" if "now + ttl < 2 ^ 63" using that False assms(7) by (simp add: int64_range_def)
  have v: "view B (db_state db') k = Some (v, dl_opt ?dl) \<and> state_wf B (db_state db')" if "r = None"
    using wal_db.setInternal_cases [OF assms(1-5) int64_range_wrap assms(6) run] that state_trees.view_set [OF st]
    by (auto simp: log_inv_def state_inv_def)
  have "dbTTL B u k db' = (case dl_opt ?dl of None \<Rightarrow> None | Some d \<Rightarrow> if d \<le> u then None else Some (int64_wrap (d - u)))"
    if "r = None" for u
  proof -
    have "m_get (ttlOps B) (st_ttl (db_state db')) k = dl_opt ?dl"
      using v [OF that] state_trees.view_ttl [OF st, of "db_state db'" k] by (metis option.exhaust option.inject prod.inject)
    then show ?thesis by (simp add: dbTTL_def)
  qed
  moreover have "dbGet B u k db' = (case dl_opt ?dl of None \<Rightarrow> Some v | Some d \<Rightarrow> if u < d then Some v else None)"
    if "r = None" for u
    using v [OF that] state_trees.get_visible [OF st, of "db_state db'" k u] by (simp add: dbGet_def visible_def split: option.splits)
  ultimately show ?thesis using False small big assms(7,8,9)
    by (auto simp: dl_opt_def int64_range_def)
qed

theorem setTTL_deadline_witness:
  "dbTTL std_btype 95 2 exDb2 = Some 5 \<and> dbGet std_btype 99 2 exDb2 = Some 20 \<and> dbGet std_btype 100 2 exDb2 = None"
proof -
  obtain hdr its ops where inv: "log_inv std_btype int64_range int64_range 0 exDb1 hdr its ops"
    "handle_of None Int64Codec Int64Codec exDb1" using ex_log_inv [OF exDb1_facts(2)] by blast
  have r: "int64_range 2" "int64_range 20" "int64_range 90" "int64_range 10" by (simp_all add: int64_range_def)
  from setTTL_deadline [OF int_db.wal_db_axioms inv r(1,2) ex_fits(1) _ r(3,4) exDb2_facts(1)] show ?thesis by simp
qed

section \<open>Iteration\<close>

text \<open>
  C33. The iterators walk the visible pairs. There is one list of the pairs visible at \<open>now\<close>, in
  strictly ascending key order, such that for every loop body each iterator of the database
  runs it over that list, over its reverse, or over the part from the pivot, and stops when the
  body says so; the iterators of an open transaction do the same over its state, those of a
  finished one do not call the body at all.
\<close>

theorem iterators_walk_visible:
  assumes "state_trees B" "state_wf B s"
  shows "\<exists>ps. sorted_wrt (<) (map fst ps) \<and> map_of ps = visible now (view B s) \<and>
    (\<forall>db. db_state db = s \<longrightarrow>
      (\<forall>yield (c :: 'c). dbAll B now db yield c = iterPairs (\<lambda>_. False) ps yield c) \<and>
      (\<forall>yield (c :: 'c). dbKeys B now db yield c = iterPairs (\<lambda>_. False) ps (\<lambda>c k v. yield c k) c) \<and>
      (\<forall>yield (c :: 'c). dbValues B now db yield c = iterPairs (\<lambda>_. False) ps (\<lambda>c k v. yield c v) c) \<and>
      (\<forall>yield (c :: 'c). dbBackward B now db yield c = iterPairs (\<lambda>_. False) (rev ps) yield c) \<and>
      (\<forall>yield (c :: 'c) k. dbAscend B now k db yield c = iterPairs (\<lambda>_. False) (filter (\<lambda>p. k \<le> fst p) ps) yield c) \<and>
      (\<forall>yield (c :: 'c) k. dbDescend B now k db yield c = iterPairs (\<lambda>_. False) (rev (filter (\<lambda>p. fst p \<le> k) ps)) yield c)) \<and>
    (\<forall>tx. tx_state tx = s \<longrightarrow>
      (\<forall>yield (c :: 'c). txAll B now tx yield c = (if tx_done tx then c else iterPairs (\<lambda>_. False) ps yield c)) \<and>
      (\<forall>yield (c :: 'c). txKeys B now tx yield c = (if tx_done tx then c else iterPairs (\<lambda>_. False) ps (\<lambda>c k v. yield c k) c)) \<and>
      (\<forall>yield (c :: 'c). txValues B now tx yield c = (if tx_done tx then c else iterPairs (\<lambda>_. False) ps (\<lambda>c k v. yield c v) c)) \<and>
      (\<forall>yield (c :: 'c). txBackward B now tx yield c = (if tx_done tx then c else iterPairs (\<lambda>_. False) (rev ps) yield c)) \<and>
      (\<forall>yield (c :: 'c) k. txAscend B now k tx yield c =
         (if tx_done tx then c else iterPairs (\<lambda>_. False) (filter (\<lambda>p. k \<le> fst p) ps) yield c)) \<and>
      (\<forall>yield (c :: 'c) k. txDescend B now k tx yield c =
         (if tx_done tx then c else iterPairs (\<lambda>_. False) (rev (filter (\<lambda>p. fst p \<le> k) ps)) yield c)))"
proof -
  have m: "btype_map (dataOps B)" using assms(1) by (simp add: state_trees_def btype_def)
  note w = btype_map.ascend_all [OF m] btype_map.backward_all [OF m] btype_map.descend_all [OF m]
  note iter = iterPairs_filter [of "\<lambda>k. expired B k now s"]
  show ?thesis
    by (intro exI [of _ "livePairs B now s"] conjI state_trees.livePairs_sorted [OF assms(1)]
        state_trees.map_of_livePairs [OF assms] allI impI; simp only: dbAll_def dbKeys_def dbValues_def
          dbBackward_def dbAscend_def dbDescend_def txAll_def txKeys_def txValues_def txBackward_def txAscend_def txDescend_def w)
      (subst iter, simp add: livePairs_def rev_filter conj_commute)+
qed

theorem iterators_walk_visible_witness:
  "dbAll std_btype 95 exDb2 collect [] = [(1, 10), (2, 20)] \<and> dbBackward std_btype 95 exDb2 collect [] = [(2, 20), (1, 10)] \<and>
   dbAscend std_btype 95 2 exDb2 collect [] = [(2, 20)]"
proof -
  from iterators_walk_visible [where 'c = "(int \<times> int) list", OF std_trees.state_trees_axioms ex_wf, of 95] obtain ps where
    ps: "sorted_wrt (<) (map fst ps)" "map_of ps = visible 95 (view std_btype (db_state exDb2))"
    and w: "dbAll std_btype 95 exDb2 collect [] = ps" "dbBackward std_btype 95 exDb2 collect [] = rev ps"
      "dbAscend std_btype 95 2 exDb2 collect [] = filter (\<lambda>p. 2 \<le> fst p) ps"
    by (auto simp: iterPairs_collect)
  have "ps = [(1, 10), (2, 20)]"
    by (rule strict_sorted_map_of_unique [OF ps(1)])
      (simp_all add: ps(2) exDb2_facts(7) visible_def fun_eq_iff)
  with w show ?thesis by simp
qed


text \<open>
  C34. Creating and dropping. \<^verbatim>\<open>CreateIndex\<close> needs a name and a compare function, an open handle and a
  name that is free, and otherwise returns an error and changes nothing. On success the
  contents stay, the state stays well-formed, the index is registered with its compare
  function, the name is taken, and \<^verbatim>\<open>DropIndex\<close> gives back exactly the handle there was before,
  on which the walks of that name yield nothing.
\<close>

theorem index_lifecycle:
  assumes "state_trees B" "state_wf B (db_state db)" "dbCreateIndex B name cmp db = (r, db')"
  shows "(r = None \<longleftrightarrow> name \<noteq> '''' \<and> cmp \<noteq> None \<and> \<not> db_closed db \<and> name \<notin> set (dbIndexes db)) \<and>
    (r \<noteq> None \<longrightarrow> db' = db) \<and>
    (r = None \<longrightarrow> state_wf B (db_state db') \<and> view B (db_state db') = view B (db_state db) \<and>
      (\<exists>ix. map_of (st_idx (db_state db')) name = Some ix \<and> Some (ix_compare ix) = cmp) \<and>
      set (dbIndexes db') = insert name (set (dbIndexes db)) \<and>
      (\<forall>cmp'. \<exists>e. dbCreateIndex B name cmp' db' = (Some e, db')) \<and>
      dbDropIndex name db' = (None, db) \<and> dbAscendIndex B now zk zv name db collect [] = [])"
proof -
  have in_idx: "n \<in> set (dbIndexes d) \<longleftrightarrow> map_of (st_idx (db_state d)) n \<noteq> None"
    for n and d :: "('a, 'b, 'c, 'd, 'e, 'f) db" by (auto simp: dbIndexes_def map_of_eq_None_iff)
  have err: "r = None \<longleftrightarrow> name \<noteq> '''' \<and> cmp \<noteq> None \<and> \<not> db_closed db \<and> name \<notin> set (dbIndexes db)" "r \<noteq> None \<longrightarrow> db' = db"
    using assms(3) unfolding in_idx by (auto simp: dbCreateIndex_def Let_def split: option.splits if_splits)
  moreover have "state_wf B (db_state db') \<and> view B (db_state db') = view B (db_state db) \<and>
      (\<exists>ix. map_of (st_idx (db_state db')) name = Some ix \<and> Some (ix_compare ix) = cmp) \<and>
      set (dbIndexes db') = insert name (set (dbIndexes db)) \<and>
      (\<forall>cmp'. \<exists>e. dbCreateIndex B name cmp' db' = (Some e, db')) \<and>
      dbDropIndex name db' = (None, db) \<and> dbAscendIndex B now zk zv name db collect [] = []" if n: "r = None"
  proof -
    from err(1) n have new: "map_of (st_idx (db_state db)) name = None" and nc: "\<not> db_closed db" "name \<notin> set (dbIndexes db)"
      by (simp_all add: in_idx)
    note c = state_trees.createIndex_wf [OF assms(1,2) assms(3) [unfolded n]]
    obtain ix where db': "db' = db\<lparr>db_state := (db_state db)\<lparr>st_idx := st_idx (db_state db) @ [(name, ix)]\<rparr>\<rparr>"
      using assms(3) n by (auto simp: dbCreateIndex_def Let_def split: option.splits if_splits)
    have "filter (\<lambda>p. fst p \<noteq> name) (st_idx (db_state db)) = st_idx (db_state db)"
      using new by (auto simp: filter_id_conv map_of_eq_None_iff)
    then have "dbDropIndex name db' = (None, db)"
      using nc(1) new by (simp add: dbDropIndex_def db' Let_def map_add_Some_iff)
    moreover have "set (dbIndexes db') = insert name (set (dbIndexes db))" by (auto simp: dbIndexes_def db')
    moreover have "\<exists>e. dbCreateIndex B name cmp' db' = (Some e, db')" for cmp'
      using new by (cases cmp') (auto simp: dbCreateIndex_def db' Let_def map_add_Some_iff)
    moreover have "dbAscendIndex B now zk zv name db collect [] = []" by (simp add: dbAscendIndex_def dbIterIndex_def new)
    ultimately show ?thesis using c by blast
  qed
  ultimately show ?thesis by blast
qed

text \<open>An index by descending value.\<close>

definition exCmp :: "int \<Rightarrow> int \<Rightarrow> int \<Rightarrow> int \<Rightarrow> int" where
  "exCmp k v k' v' = v' - v"

definition exIdxDb where
  "exIdxDb = exDb2\<lparr>db_state := exState\<rparr>"

lemma exIdxDb_created:
  obtains db' where "dbCreateIndex std_btype ''by value'' (Some exCmp) exIdxDb = (None, db')"
proof -
  have nc: "\<not> db_closed exIdxDb" using exDb2_facts(3) by (auto simp: canWrite_def exIdxDb_def)
  have "st_idx (db_state exIdxDb) = []"
    by (simp add: exIdxDb_def exState_def std_trees.stateSet_fields newDBState_def forIdx_def split: option.split)
  then show ?thesis using nc that by (simp add: dbCreateIndex_def Let_def)
qed

lemma exIdxDb_wf: "state_wf std_btype (db_state exIdxDb)"
  by (simp add: exIdxDb_def exState_wf)

theorem index_lifecycle_witness:
  "\<exists>db'. dbCreateIndex std_btype ''by value'' (Some exCmp) exIdxDb = (None, db') \<and>
     dbDropIndex ''by value'' db' = (None, exIdxDb) \<and> (\<exists>e. dbCreateIndex std_btype ''by value'' (Some exCmp) db' = (Some e, db'))"
proof (rule exIdxDb_created)
  fix db' assume run: "dbCreateIndex std_btype ''by value'' (Some exCmp) exIdxDb = (None, db')"
  from index_lifecycle [OF std_trees.state_trees_axioms exIdxDb_wf run] run show ?thesis by blast
qed


section \<open>Transactions\<close>

text \<open>
  C19. Savepoints. Take a savepoint in a transaction and run any operations on it, further
  savepoints, releases and rollbacks included. If the savepoint is still on the stack,
  rolling back to it succeeds, as often as one likes, and restores the contents, the buffered
  log bytes and the operation count of the moment it was taken; if it has been released or
  rolled past, the call is refused with \<^verbatim>\<open>ErrSavepointInvalid\<close>.
\<close>

theorem savepoint_rollback_restores:
  assumes "wal_db B wc kc vK vc vV" "handle_of wc kc vc db" "log_inv B vK vV t db0 hdr its lops"
    and "dbBegin B True db0 = (Inr tx0, db)" "(txStep B vK vV db)\<^sup>*\<^sup>* (hp0, tx0) (hp, tx)" "hp a = None"
    and "txSavepoint B a hp tx = Inr (hp1, tx1)" "(txStep B vK vV db)\<^sup>*\<^sup>* (hp1, tx1) (hp2, tx2)"
  shows "if a \<in> set (tx_saves tx2)
    then \<exists>hp3 tx3. txRollbackTo B hp2 (Some a) tx2 = Inr (hp3, tx3) \<and> view B (tx_state tx3) = view B (tx_state tx) \<and>
      tx_pending tx3 = tx_pending tx \<and> tx_nops tx3 = tx_nops tx \<and> a \<in> set (tx_saves tx3)
    else txRollbackTo B hp2 (Some a) tx2 = Inl ErrSavepointInvalid"
proof -
  note b = wal_db.dbBegin_inv [OF assms(1,3,4)]
  from wal_db.txReach_inv [OF assms(1,5,2) b(1)] obtain rs ops where
    "tx_inv B vK vV db (view B (db_state db0)) hp tx rs ops" by blast
  from wal_db.savepoint_restored [OF assms(1,2) this assms(6-8)] show ?thesis .
qed

theorem savepoint_rollback_restores_witness:
  "\<exists>tx db1 hp1 tx1 tx2 hp3 tx3. dbBegin std_btype True exDb2 = (Inr tx, db1) \<and>
     txSavepoint std_btype 5 (\<lambda>_. None) tx = Inr (hp1, tx1) \<and> txSet std_btype (Inl ErrClosed) db1 3 30 tx1 = (None, tx2) \<and>
     view std_btype (tx_state tx2) 3 = Some (30, None) \<and>
     txRollbackTo std_btype hp1 (Some 5) tx2 = Inr (hp3, tx3) \<and> view std_btype (tx_state tx3) 3 = None"
proof -
  obtain hdr its ops where inv: "log_inv std_btype int64_range int64_range 0 exDb2 hdr its ops"
    "handle_of None Int64Codec Int64Codec exDb2" using ex_log_inv [OF exDb2_facts(2)] by blast
  let ?db1 = "exDb2\<lparr>db_writerMu := True\<rparr>"
  obtain tx where bg: "dbBegin std_btype True exDb2 = (Inr tx, ?db1)" using exDb2_facts(3) by (auto simp: dbBegin_def)
  obtain hp where hp: "hp = (\<lambda>_. None)" "\<exists>r. txSavepoint std_btype 5 hp tx = r" by blast
  then have fresh: "hp 5 = None" by simp
  note b = int_db.dbBegin_inv [OF inv(1) bg]
  have h: "handle_of None Int64Codec Int64Codec ?db1" using inv(2) by (simp add: handle_of_def)
  obtain hp1 tx1 where sp: "txSavepoint std_btype 5 hp tx = Inr (hp1, tx1)" "tx_saves tx1 = tx_saves tx @ [5]"
    "\<not> tx_done tx1" "tx_writable tx1" using b(3,4) by (auto simp: txSavepoint_def)
  obtain kb vb where e: "Encode Int64Codec (3::int) = Inr kb" "Encode Int64Codec (30::int) = Inr vb" using ex_encode by blast
  let ?tx2 = "tx1\<lparr>tx_pending := appendRecord (tx_pending tx1) opSet kb vb, tx_nops := tx_nops tx1 + 1,
        tx_state := stateSet std_btype 3 30 0 (tx_state tx1)\<rparr>"
  have run: "txSetInternal std_btype (Inl ErrClosed) ?db1 3 30 0 tx1 = (None, ?tx2)"
    using sp(3,4) h e by (simp add: txSetInternal_def appendSealedRecord_def handle_of_def)
  have r: "int64_range 3" "int64_range 30" "int64_range 0" by (simp_all add: int64_range_def)
  have step: "txStep std_btype int64_range int64_range ?db1 (hp1, tx1) (hp1, ?tx2)"
    by (rule txStep.step_set [where vK = int64_range and vV = int64_range, OF r _ run]) (use h in \<open>simp add: handle_of_def\<close>)
  have steps: "(txStep std_btype int64_range int64_range ?db1)\<^sup>*\<^sup>* (hp1, tx1) (hp1, ?tx2)"
    by (rule r_into_rtranclp) (rule step)
  from savepoint_rollback_restores [OF int_db.wal_db_axioms h inv(1) bg rtranclp.rtrancl_refl fresh sp(1) steps]
  obtain hp3 tx3 where rb: "txRollbackTo std_btype hp1 (Some 5) ?tx2 = Inr (hp3, tx3)"
    "view std_btype (tx_state tx3) = view std_btype (tx_state tx)" using sp(2) by auto
  have "view std_btype (tx_state tx3) 3 = None" using rb(2) b(5) by (simp add: exDb2_facts(7))
  moreover have "view std_btype (tx_state ?tx2) 3 = Some (30, None)" by (simp add: std_trees.view_set dl_opt_def)
  ultimately show ?thesis using bg sp(1) run rb(1) unfolding txSet_def hp(1) by blast
qed

text \<open>
  C30. \<^verbatim>\<open>DeleteRange\<close> in a transaction removes exactly the keys from \<open>lo\<close> up to but not including \<open>hi\<close>, those
  that have expired among them, and returns how many of them a reader could see. If a key
  does not encode it returns the error and has touched nothing. An empty or inverted range
  removes nothing.
\<close>

theorem delete_range_effect:
  assumes "wal_db B wc kc vK vc vV" "log_inv B vK vV t db0 hdr its lops" "handle_of wc kc vc db"
    and "dbBegin B True db0 = (Inr tx0, db)" "(txStep B vK vV db)\<^sup>*\<^sup>* (hp0, tx0) (hp, tx)"
    and "\<And>k. lo \<le> k \<Longrightarrow> k < hi \<Longrightarrow> view B (tx_state tx) k \<noteq> None \<Longrightarrow> key_fits kc k"
    and "txDeleteRange B now db lo hi tx = (r, tx')"
  shows "(\<exists>e. r = Inl e) \<and> tx' = tx \<or>
    r = Inr (card {k. lo \<le> k \<and> k < hi \<and> txContains B now k tx}) \<and>
    view B (tx_state tx') = (\<lambda>k. if lo \<le> k \<and> k < hi then None else view B (tx_state tx) k)"
proof -
  note b = wal_db.dbBegin_inv [OF assms(1,2,4)]
  have st: "state_trees B" using assms(1) by (simp add: wal_db_def)
  from wal_db.txReach_inv [OF assms(1,5,3) b(1)] b(3) obtain rs ops where
    inv: "tx_inv B vK vV db (view B (db_state db0)) hp tx rs ops" and nd: "\<not> tx_done tx" by auto
  have wf: "state_wf B (tx_state tx)" and v: "view B (tx_state tx) = apOps ops (view B (db_state db0))"
    using inv by (simp_all add: tx_inv_def)
  have con: "txContains B now k tx \<longleftrightarrow> visible now (view B (tx_state tx)) k \<noteq> None" for k
    using nd state_trees.get_visible [OF st wf, of k now] by (simp add: txContains_def txGet_def)
  have dels: "apOps (map LDel ks) m = (\<lambda>k. if k \<in> set ks then None else m k)" for ks and m :: "('a, 'b) amap"
    by (induction ks arbitrary: m) (auto simp: fun_eq_iff)
  consider (err) e where "r = Inl e" "tx' = tx"
    | (ok) rs' ks where "tx_inv B vK vV db (view B (db_state db0)) hp tx' (rs @ rs') (ops @ map LDel ks)"
      "set ks = {k. lo \<le> k \<and> k < hi \<and> view B (tx_state tx) k \<noteq> None}"
      "r = Inr (card {k. lo \<le> k \<and> k < hi \<and> visible now (view B (tx_state tx)) k \<noteq> None})"
    using wal_db.txDeleteRange_inv [OF assms(1) inv assms(3,6,7)] by blast
  then show ?thesis
  proof cases
    case ok
    from ok(1) have "view B (tx_state tx') = apOps (map LDel ks) (view B (tx_state tx))" by (simp add: tx_inv_def v)
    also have "\<dots> = (\<lambda>k. if lo \<le> k \<and> k < hi then None else view B (tx_state tx) k)"
      unfolding dels ok(2) by (rule ext) (auto simp del: not_None_eq)
    finally show ?thesis using ok(3) by (simp add: con)
  qed simp
qed

theorem delete_range_effect_witness:
  "\<exists>tx db1 tx'. dbBegin std_btype True exDb2 = (Inr tx, db1) \<and>
     txDeleteRange std_btype 200 db1 0 3 tx = (Inr 1, tx') \<and> view std_btype (tx_state tx') = Map.empty"
proof -
  obtain hdr its ops where inv: "log_inv std_btype int64_range int64_range 0 exDb2 hdr its ops"
    "handle_of None Int64Codec Int64Codec exDb2" using ex_log_inv [OF exDb2_facts(2)] by blast
  let ?db1 = "exDb2\<lparr>db_writerMu := True\<rparr>"
  obtain tx where bg: "dbBegin std_btype True exDb2 = (Inr tx, ?db1)" using exDb2_facts(3) by (auto simp: dbBegin_def)
  note b = int_db.dbBegin_inv [OF inv(1) bg]
  have h: "handle_of None Int64Codec Int64Codec ?db1" using inv(2) by (simp add: handle_of_def)
  have wf: "state_wf std_btype (tx_state tx)" using b(1) by (simp add: tx_inv_def)
  obtain r tx' where run: "txDeleteRange std_btype 200 ?db1 0 3 tx = (r, tx')" by (metis prod.exhaust)
  have enc: "\<exists>bs. encodeAll (Encode Int64Codec) ks = Inr bs" for ks :: "int list"
    by (induction ks) (use ex_encode in \<open>auto split: sum.splits, metis sum.inject(1) sum.distinct(1)\<close>)
  then have enc': "encodeAll (Encode Int64Codec) ks \<noteq> Inl e" for ks :: "int list" and e by (metis sum.distinct(1))
  have ok: "r \<noteq> Inl e" for e
    using run b(3,4) h by (auto simp: enc' txDeleteRange_def Let_def handle_of_def split: sum.splits prod.splits)
  have c: "{k. 0 \<le> k \<and> k < 3 \<and> txContains std_btype 200 k tx} = {1}"
    using b(3,5) std_trees.get_visible [OF wf] by (auto simp: txContains_def txGet_def visible_def exDb2_facts(7) split: if_splits)
  from delete_range_effect [OF int_db.wal_db_axioms inv(1) h bg rtranclp.rtrancl_refl ex_fits(2) run] ok
  have "r = Inr 1" "view std_btype (tx_state tx') = Map.empty"
    by (auto simp: c b(5) exDb2_facts(7) fun_eq_iff)
  with bg run show ?thesis by blast
qed



section \<open>Damaged and foreign files\<close>

text \<open>
  C16. Damage is not taken for a torn tail. For a file of a header, whole items and then bytes at
  which no record can be read: if an intact record can be read anywhere in those bytes, \<^verbatim>\<open>Open\<close>
  returns \<^verbatim>\<open>ErrCorrupt\<close> and leaves the file's bytes alone, unless it was told to truncate;
  otherwise it opens with exactly the contents of the items and cuts the file back to them.
\<close>

theorem open_refuses_damage:
  assumes "wal_db B wc kc vK vc vV" "openCipher hkdf aesNew (openOptions opts) = Inr wc"
    and "crashed_fs path (headerFor wc @ logBytes its @ junk) fs" "list_all item_ok its"
    and "denotes wc kc vc (logRecs its) ops" "readRecord \<lparr>rd_bytes = junk, rd_end = None\<rparr> = Inr None"
  shows "\<exists>fs' h. fs_cur fs' path = Some h \<and>
    (if scanForRecord junk \<noteq> None \<and> \<not> o_truncateAtCorrupt (openOptions opts)
     then openDB B hkdf aesNew io_ok path kc vc opts fs = (Inl ErrCorrupt, fs') \<and>
       lf_content (fs_inode fs' h) = headerFor wc @ logBytes its @ junk
     else \<exists>db. openDB B hkdf aesNew io_ok path kc vc opts fs = (Inr db, fs') \<and>
       view B (db_state db) = apOps ops Map.empty \<and> lf_content (fs_inode fs' h) = headerFor wc @ logBytes its)"
proof -
  have wf: "fs_wf fs" using assms(3) by (simp add: crashed_fs_def)
  note c = openedFile_crashed [OF assms(3)]
  have "kcv_ok wc" using assms(1) by (simp add: wal_db_def wal_db_axioms_def)
  from prepareHeader_own [OF this openedFile_open c] show ?thesis
    by (rule wal_db.openDB_junk [OF assms(1) wf assms(2) c _ assms(4-6)])
qed

text \<open>
  A crash in the middle of one set can look like damage: the value written is itself the frame
  of a record, followed by a byte that the crash cut off.
\<close>

definition exInner :: walRecord where
  "exInner = \<lparr>rec_op = opDelete, rec_key = [7], rec_val = []\<rparr>"

definition exTorn :: bytes where
  "exTorn = take (9 + 1 + 14) (appendRecord [] opSet [1] (frame exInner @ [0]))"

lemma exTorn_facts:
  "readRecord \<lparr>rd_bytes = exTorn, rd_end = None\<rparr> = Inr None" "scanForRecord exTorn \<noteq> None"
proof -
  let ?r = "\<lparr>rec_op = opSet, rec_key = [1], rec_val = frame exInner @ [0]\<rparr>"
  have len: "length (frame exInner) = 14" by (simp add: exInner_def)
  have t: "exTorn = take 24 (frame ?r)" by (simp add: exTorn_def appendRecord_frame)
  have "frame_ok ?r" "24 < length (frame ?r)" by (simp_all add: frame_ok_def len maxPartLen_def del: length_frame, simp add: len)
  from readRecord_torn [OF this] show "readRecord \<lparr>rd_bytes = exTorn, rd_end = None\<rparr> = Inr None" by (simp add: t)
  have "exTorn = (rec_head ?r @ [1]) @ frame exInner @ []" unfolding t frame_split [of ?r] by (simp add: len del: length_frame)
  moreover have "frame_ok exInner" by (simp add: frame_ok_def exInner_def maxPartLen_def)
  ultimately show "scanForRecord exTorn \<noteq> None" using scan_finds by metis
qed

theorem open_refuses_damage_witness:
  "\<exists>fs'. openDB std_btype noHkdf noAes io_ok ''db'' Int64Codec Int64Codec [] (exFs (logHeader @ exTorn)) = (Inl ErrCorrupt, fs') \<and>
     (\<exists>h. lf_content (fs_inode fs' h) = logHeader @ exTorn)"
proof -
  have tr: "\<not> o_truncateAtCorrupt (openOptions [])" by (simp add: openOptions_def defaultOptions_def)
  have "crashed_fs ''db'' (headerFor None @ logBytes [] @ exTorn) (exFs (logHeader @ exTorn))" by (simp add: headerFor_def)
  from open_refuses_damage [OF int_db.wal_db_axioms exCipher this, of "[]"] exTorn_facts tr
  show ?thesis by (auto simp: headerFor_def)
qed

text \<open>
  C38. The bound on parts is the reader's alone. A record whose key or value is longer than 2^30 bytes
  (but fits the 32-bit length fields) is appended and acknowledged like any other, yet it
  cannot be read back: replay stops in front of it, so it and all records behind it are
  lost to \<^verbatim>\<open>Open\<close>, as a torn tail or, with intact records behind it, as corruption.
\<close>

theorem oversize_record_unreadable:
  assumes "maxPartLen < length key \<or> maxPartLen < length val" "length key < 2 ^ 32" "length val < 2 ^ 32"
    and "list_all item_ok its" "applyAll ap s (logRecs its) = Inr s'"
    and "db_cipher db = None" "\<not> lf_closed (the_file db)"
  shows "fst (appendToLog io_ok rnd op key val db) = None \<and>
    replayLog \<lparr>rd_bytes = logBytes its @ appendRecord [] op key val @ rest, rd_end = None\<rparr> ap s =
      (length (logBytes its), length (logBytes its), None, s') \<and>
    (frame_ok g \<longrightarrow> scanForRecord (appendRecord [] op key val @ frame g @ rest) \<noteq> None)"
proof -
  let ?r = "\<lparr>rec_op = op, rec_key = key, rec_val = val\<rparr>"
  have bytes: "appendRecord [] op key val @ rest = rec_head ?r @ (key @ val @ putUint32 (checksumIEEE (rec_head ?r @ key @ val)) @ rest)"
    for rest by (simp add: appendRecord_frame frame_split)
  have n: "unat (word_of_nat (length key) :: 32 word) = length key" "unat (word_of_nat (length val) :: 32 word) = length val"
    using assms(2,3) by (simp_all add: unsigned_of_nat take_bit_nat_eq_self)
  have "readRecord \<lparr>rd_bytes = appendRecord [] op key val @ rest, rd_end = None\<rparr> = Inr None"
    unfolding bytes readRecord_def using readFull_append [of "rec_head ?r"] assms(1) n
    by (auto simp: Let_def rec_head_def getUint32_put)
  from replayLoop_stop [OF this] replayLoop_items [OF assms(4,5), of "appendRecord [] op key val @ rest" None 0]
  have "replayLog \<lparr>rd_bytes = logBytes its @ appendRecord [] op key val @ rest, rd_end = None\<rparr> ap s =
      (length (logBytes its), length (logBytes its), None, s')" by (simp add: replayLog_def)
  moreover have "fst (appendToLog io_ok rnd op key val db) = None"
    using assms(6,7) by (simp add: appendToLog_def appendSealedRecord_def writeLog_def lf_write_def)
  ultimately show ?thesis using scan_finds by blast
qed

theorem oversize_record_unreadable_witness:
  "fst (appendToLog io_ok (Inl ErrClosed) opSet [] (replicate (2 ^ 30 + 1) 0) exDb2) = None \<and>
   replayLog \<lparr>rd_bytes = logBytes [Single recA] @ appendRecord [] opSet [] (replicate (2 ^ 30 + 1) 0) @ frame recB, rd_end = None\<rparr>
     (\<lambda>s r. Inr (s @ [rec_key r])) [] = (15, 15, None, [[97]])"
proof -
  have len: "length (replicate (2 ^ 30 + 1) (0::byte)) = 2 ^ 30 + 1" by (rule length_replicate)
  have a: "maxPartLen < length ([] :: bytes) \<or> maxPartLen < length (replicate (2 ^ 30 + 1) (0::byte))" "length ([] :: bytes) < 2 ^ 32"
    "length (replicate (2 ^ 30 + 1) (0::byte)) < 2 ^ 32" unfolding len by (simp_all add: maxPartLen_def)
  have i: "list_all item_ok [Single recA]" by (simp add: recA_def member_ok_def frame_ok_def maxPartLen_def)
  have ap: "applyAll (\<lambda>s r. Inr (s @ [rec_key r])) [] (logRecs [Single recA]) = Inr [[97]]" by (simp add: recA_def)
  have n: "length (logBytes [Single recA]) = 15" by (simp add: recA_def)
  have c: "db_cipher exDb2 = None" using exDb2_facts(2) [of 0] by (simp add: db_ok_def handle_of_def)
  from oversize_record_unreadable [OF a i ap c exDb2_facts(5), of "Inl ErrClosed" opSet "frame recB"] show ?thesis
    unfolding n by blast
qed

text \<open>
  C39. A file without the magic is taken for a log of the first format. If no record can be read in it
  anywhere and no key was given, \<^verbatim>\<open>Open\<close> succeeds with an empty database and has truncated the
  file to nothing; with a key it refuses and leaves the file alone.
\<close>

theorem foreign_file_truncated:
  assumes "wal_db B None kc vK vc vV" "openCipher hkdf aesNew (openOptions opts) = Inr None"
    and "crashed_fs path bs fs" "bs \<noteq> []" "take 8 bs \<noteq> logMagic" "bs \<noteq> take (length bs) logHeader"
    and "scanForRecord bs = None"
  shows "(\<exists>db fs' h. openDB B hkdf aesNew io_ok path kc vc opts fs = (Inr db, fs') \<and>
      view B (db_state db) = Map.empty \<and> fs_cur fs' path = Some h \<and> lf_content (fs_inode fs' h) = []) \<and>
    (kcv_ok (Some c) \<and> bs \<noteq> take (length bs) (headerFor (Some c)) \<longrightarrow>
      prepareHeader io_ok (openedFile path fs) (Some c) = (Inl ErrNotEncrypted, openedFile path fs))"
proof -
  let ?f = "openedFile path fs"
  have wf: "fs_wf fs" using assms(3) by (simp add: crashed_fs_def)
  note c = openedFile_crashed [OF assms(3)]
  let ?got = "take (min (lf_size ?f) logHeaderSizeV2) (lf_content ?f)"
  have got: "?got = take 44 bs" by (simp add: lf_size_def c min_def)
  have m: "take (length logMagic) ?got \<noteq> logMagic" unfolding got using assms(5) by simp
  have ne: "lf_size ?f \<noteq> 0" using assms(4) by (simp add: lf_size_def c)
  have ph: "prepareHeader io_ok ?f w = (if w \<noteq> None then (Inl ErrNotEncrypted, ?f) else (Inr 0, ?f))"
    if "bs \<noteq> take (length bs) (headerFor w)" "kcv_ok w" for w
  proof -
    have nt: "\<not> (lf_size ?f < length (headerFor w) \<and> ?got = take (lf_size ?f) (headerFor w))"
      using that(1) length_headerFor [OF that(2)] by (cases w) (auto simp: got lf_size_def c)
    have lm: "lf_size ?f < logHeaderSize \<or> take (length logMagic) ?got \<noteq> logMagic" using m by blast
    show ?thesis unfolding prepareHeader_def Let_def option.case if_not_P [OF ne] if_not_P [OF nt] if_P [OF lm] by (rule refl)
  qed
  have none: "readRecord \<lparr>rd_bytes = bs, rd_end = None\<rparr> = Inr None"
  proof (cases "readRecord \<lparr>rd_bytes = bs, rd_end = None\<rparr>")
    case (Inl e)
    then show ?thesis by (auto simp: readRecord_def readFull_def Let_def split: if_splits)
  next
    case (Inr x)
    have "readRecord \<lparr>rd_bytes = bs, rd_end = None\<rparr> \<noteq> Inr (Some (r, n, br))" for r n br
      using scan_finds [of r "[]" "rd_bytes br"] assms(7) unfolding readRecord_iff by auto
    then show ?thesis using Inr by (cases x; cases "the x") auto
  qed
  have p0: "prepareHeader io_ok ?f None = (Inr (length ([] :: bytes)), ?f)" using ph [of None] assms(6) by (simp add: headerFor_def)
  have d: "denotes None kc vc (logRecs []) []" by simp
  have "lf_content ?f = [] @ logBytes [] @ bs" using c by simp
  from wal_db.openDB_junk [OF assms(1) wf assms(2) this p0 _ d none] assms(7) ph [of "Some c"] show ?thesis by auto
qed

theorem foreign_file_truncated_witness:
  "\<exists>db fs' h. openDB std_btype noHkdf noAes io_ok ''db'' Int64Codec Int64Codec [] (exFs [104, 105]) = (Inr db, fs') \<and>
     fs_cur fs' ''db'' = Some h \<and> lf_content (fs_inode fs' h) = []"
proof -
  have "scanForRecord [104, 105] = None" by (simp add: scanForRecord_def scanFrom.simps)
  moreover have "take 8 [104, 105] \<noteq> logMagic" by (simp add: logMagic_def)
  moreover have "[104, 105] \<noteq> take (length [104, 105 :: byte]) logHeader"
  proof
    assume "[104, 105] = take (length [104, 105 :: byte]) logHeader"
    from arg_cong [OF this, of hd] show False by (simp add: hd_take hd_logHeader)
  qed
  ultimately show ?thesis
    using foreign_file_truncated [OF int_db.wal_db_axioms exCipher exFs_facts(3), of "[104, 105]"] by blast
qed

text \<open>
  C40. The encryption key. A database is opened with a cipher only when the key has 32 bytes, and any
  other non-empty key makes \<^verbatim>\<open>Open\<close> fail before it touches the file system; an empty key, however,
  is the same as no key at all, and the log is written in the clear.
\<close>

theorem encryption_key_length:
  "(openCipher hkdf aesNew (openOptions (opts @ [WithEncryptionKey key])) = Inr None \<longleftrightarrow> key = []) \<and>
   (openCipher hkdf aesNew (openOptions (opts @ [WithEncryptionKey key])) = Inr (Some c) \<longrightarrow> length key = 32) \<and>
   (key \<noteq> [] \<and> length key \<noteq> 32 \<longrightarrow>
     (\<exists>e. openDB B hkdf aesNew env path kc vc (opts @ [WithEncryptionKey key]) fs = (Inl e, fs)))"
proof -
  have k: "o_encKey (openOptions (opts @ [WithEncryptionKey key])) = (if key = [] then None else Some key)"
    by (simp add: openOptions_def WithEncryptionKey_def)
  have l: "\<exists>e. newWalCipher hkdf aesNew key = Inl e" if "length key \<noteq> 32"
    using that by (simp add: newWalCipher_def)
  have c: "openCipher hkdf aesNew (openOptions (opts @ [WithEncryptionKey key])) =
      (if key = [] then Inr None else case newWalCipher hkdf aesNew key of Inl e \<Rightarrow> Inl e | Inr c \<Rightarrow> Inr (Some c))"
    by (simp add: openCipher_def k)
  have "\<exists>e. openDB B hkdf aesNew env path kc vc (opts @ [WithEncryptionKey key]) fs = (Inl e, fs)"
    if "key \<noteq> [] \<and> length key \<noteq> 32"
  proof -
    from l that obtain e where "openCipher hkdf aesNew (openOptions (opts @ [WithEncryptionKey key])) = Inl e" by (auto simp: c)
    then show ?thesis by (simp add: openDB_def)
  qed
  moreover have "length key = 32" if "openCipher hkdf aesNew (openOptions (opts @ [WithEncryptionKey key])) = Inr (Some c)"
    using that l by (cases "length key = 32") (auto simp: c split: if_splits)
  ultimately show ?thesis by (auto simp: c split: sum.splits)
qed

theorem encryption_key_length_witness:
  "openCipher noHkdf noAes (openOptions ([] @ [WithEncryptionKey []])) = Inr None \<and>
   (\<exists>e. openDB std_btype noHkdf noAes io_ok ''db'' Int64Codec Int64Codec ([] @ [WithEncryptionKey [1, 2, 3]]) (exFs []) = (Inl e, exFs []))"
  using encryption_key_length [of noHkdf noAes "[]" "[]"]
    encryption_key_length [of noHkdf noAes "[]" "[1, 2, 3]" _ std_btype io_ok "''db''" Int64Codec Int64Codec "exFs []"]
  by simp

end
